(* ===== verification/Prelude.thy ===== *)
theory Prelude
  imports Main "HOL-Library.Word" "HOL-Library.List_Lexorder" "HOL-Library.Sublist"
begin

text \<open>
  Shared vocabulary of the development: the machine integers and byte strings
  of the Rust sources, \<^verbatim>\<open>to_be_bytes\<close>/\<^verbatim>\<open>to_le_bytes\<close> and their inverses,
  slices, and the lexicographic order of \<^verbatim>\<open>[u8]\<close> (the order of
  \<^verbatim>\<open>HOL-Library.List_Lexorder\<close> on lists of 8-bit words: the first difference
  decides and a proper prefix is smaller, as \<^verbatim>\<open>Ord for [u8]\<close> has it).
\<close>

unbundle bit_operations_syntax

type_synonym u8 = "8 word"
type_synonym u16 = "16 word"
type_synonym u32 = "32 word"
type_synonym u64 = "64 word"
type_synonym i64 = "64 word"
type_synonym bytes = "8 word list"

named_theorems enc_simps \<open>lengths and round trips of the byte encodings\<close>
named_theorems lex_simps \<open>the lexicographic order of byte strings\<close>

section \<open>Slices\<close>

text \<open>\<^verbatim>\<open>&xs[i..j]\<close> for \<^verbatim>\<open>i <= j <= xs.len()\<close>.\<close>

definition slice :: "nat \<Rightarrow> nat \<Rightarrow> 'a list \<Rightarrow> 'a list" where
  "slice i j xs = take (j - i) (drop i xs)"

lemma slice_empty [simp]: "slice i i xs = []"
  by (simp add: slice_def)

lemma length_slice [enc_simps]: "length (slice i j xs) = min (j - i) (length xs - i)"
  by (simp add: slice_def min.commute)

lemma slice_snoc:
  assumes "i \<le> j" and "j < length xs"
  shows "slice i (Suc j) xs = slice i j xs @ [xs ! j]"
  using assms by (simp add: slice_def Suc_diff_le take_Suc_conv_app_nth)

section \<open>Fixed-width integers as byte strings\<close>

text \<open>
  The little-endian digits of a number in base 256, least significant first,
  and the number they denote.  \<^verbatim>\<open>to_le_bytes\<close> and \<^verbatim>\<open>to_be_bytes\<close> of the Rust
  integer types are these digits in one order and in the other.
\<close>

fun le_digits :: "nat \<Rightarrow> nat \<Rightarrow> bytes" where
  "le_digits 0 x = []"
| "le_digits (Suc n) x = of_nat x # le_digits n (x div 256)"

fun le_val :: "bytes \<Rightarrow> nat" where
  "le_val [] = 0"
| "le_val (b # bs) = unat b + 256 * le_val bs"

definition le32 :: "u32 \<Rightarrow> bytes" where "le32 v = le_digits 4 (unat v)"
definition le64 :: "u64 \<Rightarrow> bytes" where "le64 v = le_digits 8 (unat v)"
definition be64 :: "u64 \<Rightarrow> bytes" where "be64 v = rev (le64 v)"
definition un_le32 :: "bytes \<Rightarrow> u32" where "un_le32 bs = of_nat (le_val bs)"
definition un_le64 :: "bytes \<Rightarrow> u64" where "un_le64 bs = of_nat (le_val bs)"
definition un_be64 :: "bytes \<Rightarrow> u64" where "un_be64 bs = un_le64 (rev bs)"

lemma length_le_digits [simp, enc_simps]: "length (le_digits n x) = n"
  by (induction n arbitrary: x) auto

lemma unat_less_pow: "unat (w :: 'a :: len word) < 2 ^ LENGTH('a)"
  by (rule unsigned_less)

lemma unat_of_nat_u8: "unat (of_nat x :: u8) = x mod 256"
  by (simp add: unat_of_nat)

lemma le_val_le_digits: "le_val (le_digits n x) = x mod 256 ^ n"
  by (induction n arbitrary: x) (simp_all add: unat_of_nat_u8 mod_mult2_eq)

lemma le_val_bound: "le_val bs < 256 ^ length bs"
proof (induction bs)
  case (Cons b bs)
  have "unat b < 256" using unat_less_pow[of b] by simp
  with Cons show ?case by simp
qed simp

lemma le_digits_le_val: "length bs = n \<Longrightarrow> le_digits n (le_val bs) = bs"
proof (induction bs arbitrary: n)
  case (Cons b bs)
  have b: "unat b < 256" using unat_less_pow[of b] by simp
  have "unat (of_nat (unat b + 256 * le_val bs) :: u8) = unat b"
    by (subst unat_of_nat_u8) (use b in simp)
  then have "(of_nat (unat b + 256 * le_val bs) :: u8) = b"
    by (simp only: word_unat_eq_iff)
  with b Cons show ?case by auto
qed simp

lemma length_le32 [simp, enc_simps]: "length (le32 v) = 4"
  by (simp add: le32_def)

lemma length_le64 [simp, enc_simps]: "length (le64 v) = 8"
  by (simp add: le64_def)

lemma length_be64 [simp, enc_simps]: "length (be64 v) = 8"
  by (simp add: be64_def)

lemma un_le32_le32 [simp, enc_simps]: "un_le32 (le32 v) = v"
  using unat_less_pow[of v] by (simp add: un_le32_def le32_def le_val_le_digits)

lemma un_le64_le64 [simp, enc_simps]: "un_le64 (le64 v) = v"
  using unat_less_pow[of v] by (simp add: un_le64_def le64_def le_val_le_digits)

lemma un_be64_be64 [simp, enc_simps]: "un_be64 (be64 v) = v"
  by (simp add: un_be64_def be64_def)

lemma le64_un_le64 [enc_simps]: "length bs = 8 \<Longrightarrow> le64 (un_le64 bs) = bs"
  using le_val_bound[of bs] by (simp add: le64_def un_le64_def unat_of_nat le_digits_le_val)

lemma le32_un_le32 [enc_simps]: "length bs = 4 \<Longrightarrow> le32 (un_le32 bs) = bs"
  using le_val_bound[of bs] by (simp add: le32_def un_le32_def unat_of_nat le_digits_le_val)

lemma be64_un_be64 [enc_simps]: "length bs = 8 \<Longrightarrow> be64 (un_be64 bs) = bs"
  by (simp add: be64_def un_be64_def le64_un_le64)

lemma be64_inject [simp]: "be64 v = be64 w \<longleftrightarrow> v = w"
  by (metis un_be64_be64)

section \<open>The order of byte strings\<close>

lemma append_less_same [simp, lex_simps]: "p @ xs < p @ ys \<longleftrightarrow> xs < (ys :: 'a :: linorder list)"
  by (induction p) auto

lemma append_le_same [simp, lex_simps]: "p @ xs \<le> p @ ys \<longleftrightarrow> xs \<le> (ys :: 'a :: linorder list)"
  by (induction p) auto

lemma less_append_eq_length:
  assumes "length xs = length ys" and "xs < (ys :: 'a :: linorder list)"
  shows "xs @ s < ys @ t"
  using assms
proof (induction xs ys rule: list_induct2)
  case (Cons x xs y ys)
  then show ?case by auto
qed simp

lemma less_append_iff_eq_length:
  assumes "length xs = length ys"
  shows "xs @ s < ys @ t \<longleftrightarrow> xs < ys \<or> (xs = (ys :: 'a :: linorder list) \<and> s < t)"
  using assms by (induction xs ys rule: list_induct2) auto

lemma le_append_self [simp]: "xs \<le> xs @ (ys :: 'a :: linorder list)"
  by (induction xs) auto

lemma prefix_le: "prefix p k \<Longrightarrow> p \<le> (k :: bytes)"
  by (auto elim: prefixE)

lemma prefix_between:
  "\<lbrakk>p \<le> x; x \<le> y; prefix p (y :: 'a :: linorder list)\<rbrakk> \<Longrightarrow> prefix p x"
proof (induction p arbitrary: x y)
  case (Cons a p)
  then show ?case by (cases x; cases y) auto
qed simp

lemma rev_le_digits_less:
  "rev (le_digits n x) < rev (le_digits n y) \<longleftrightarrow> x mod 256 ^ n < y mod 256 ^ n"
proof (induction n arbitrary: x y)
  case (Suc n)
  have dm: "z mod 256 ^ Suc n = z mod 256 + 256 * (z div 256 mod 256 ^ n)" for z :: nat
    by (simp add: mod_mult2_eq)
  have inj: "le_digits n (x div 256) = le_digits n (y div 256)
      \<longleftrightarrow> x div 256 mod 256 ^ n = y div 256 mod 256 ^ n"
    by (metis le_val_le_digits le_digits_le_val length_le_digits)
  have lt: "x mod 256 < 256" "y mod 256 < 256" by simp_all
  show ?case
    unfolding dm using lt
    by (auto simp: less_append_iff_eq_length Suc.IH inj word_less_nat_alt unat_of_nat_u8)
qed simp

lemma be64_less_iff [simp, lex_simps]: "be64 v < be64 w \<longleftrightarrow> v < w"
  using unat_less_pow[of v] unat_less_pow[of w]
  by (simp add: be64_def le64_def rev_le_digits_less word_less_nat_alt)

lemma be64_le_iff [simp, lex_simps]: "be64 v \<le> be64 w \<longleftrightarrow> v \<le> w"
  by (meson be64_less_iff leD leI)

section \<open>Sign bit and complement of 64-bit words\<close>

text \<open>\<^verbatim>\<open>1u64 << 63\<close>\<close>

definition sign64 :: u64 where "sign64 = push_bit 63 1"


lemma bit63_iff: "bit (v :: u64) 63 \<longleftrightarrow> 2 ^ 63 \<le> unat v"
proof -
  have b: "unat v < 2 ^ 64" using unat_less_pow[of v] by simp
  have "bit v 63 \<longleftrightarrow> bit (unat v) 63" by (simp add: bit_unsigned_iff)
  also have "\<dots> \<longleftrightarrow> odd (unat v div 2 ^ 63)" by (simp add: bit_iff_odd)
  also have "\<dots> \<longleftrightarrow> unat v div 2 ^ 63 \<noteq> 0"
  proof -
    have "unat v div 2 ^ 63 < 2" by (rule less_mult_imp_div_less) (use b in simp)
    then show ?thesis by (cases "unat v div 2 ^ 63 = 0") (auto simp: less_2_cases_iff)
  qed
  also have "\<dots> \<longleftrightarrow> 2 ^ 63 \<le> unat v" by (simp only: div_eq_0_iff) (simp add: not_less)
  finally show ?thesis .
qed

lemma unat_flip63:
  "unat (v XOR sign64) = (if 2 ^ 63 \<le> unat v then unat v - 2 ^ 63 else unat v + 2 ^ 63)"
proof (cases "bit v 63")
  case True
  then have "v XOR sign64 = v - 2 ^ 63"
    unfolding sign64_def flip_bit_eq_xor[symmetric] by (simp add: flip_bit_eq_if unset_bit_eq)
  with True show ?thesis
    by (simp add: bit63_iff unat_sub word_le_nat_alt)
next
  case False
  then have "v XOR sign64 = v + 2 ^ 63"
    unfolding sign64_def flip_bit_eq_xor[symmetric] by (simp add: flip_bit_eq_if set_bit_eq)
  with False show ?thesis
    by (simp add: bit63_iff unat_word_ariths)
qed

lemma sint_u64: "sint (v :: u64) = (if 2 ^ 63 \<le> unat v then int (unat v) - 2 ^ 64 else int (unat v))"
proof -
  have t: "take_bit 64 (uint v) = uint v" by (rule take_bit_int_eq_self) (use uint_lt2p[of v] in simp_all)
  have "sint v = uint v - 2 ^ 64 * of_bool (bit v 63)"
    by (simp add: sint_uint signed_take_bit_eq_take_bit_minus t bit_uint_iff)
  then show ?thesis by (simp add: bit63_iff)
qed

lemma unat_not_u64: "unat (NOT v :: u64) = 2 ^ 64 - 1 - unat v"
proof -
  have "NOT v = (-1) - v" by (simp add: not_eq_complement)
  then show ?thesis by (simp only: unat_sub[OF word_n1_ge] unsigned_minus_1_eq_mask mask_eq_exp_minus_1) simp
qed

end
