(* ===== verification/OrderedMap.thy ===== *)
theory OrderedMap
  imports Prelude
begin

text \<open>
  The ordered key-value container the sources take from a library
  (\<^verbatim>\<open>scc::TreeIndex\<close>, \<^verbatim>\<open>BTreeMap\<close>): a finite map with a range iterator in key
  order, held as the strictly ascending list of its entries.  Point
  operations are described through \<^const>\<open>map_of\<close>, scans through the list.
\<close>

named_theorems ti_simps \<open>the ordered map seen through \<^const>\<open>map_of\<close>\<close>

datatype 'k bound = Unbounded | Included 'k | Excluded 'k

fun above :: "'k :: linorder bound \<Rightarrow> 'k \<Rightarrow> bool" where
  "above Unbounded k = True"
| "above (Included b) k = (b \<le> k)"
| "above (Excluded b) k = (b < k)"

fun below :: "'k :: linorder bound \<Rightarrow> 'k \<Rightarrow> bool" where
  "below Unbounded k = True"
| "below (Included b) k = (k \<le> b)"
| "below (Excluded b) k = (k < b)"

definition ti_ok :: "('k :: linorder \<times> 'v) list \<Rightarrow> bool" where
  "ti_ok t = sorted_wrt (<) (map fst t)"

fun upsert_sync :: "'k :: linorder \<Rightarrow> 'v \<Rightarrow> ('k \<times> 'v) list \<Rightarrow> ('k \<times> 'v) list" where
  "upsert_sync k v [] = [(k, v)]"
| "upsert_sync k v (e # t) =
    (if k < fst e then (k, v) # e # t else if k = fst e then (k, v) # t else e # upsert_sync k v t)"

text \<open>\<^verbatim>\<open>insert_sync\<close> refuses a key that is present (the flag is false), \<^verbatim>\<open>remove_sync\<close> reports
  whether there was an entry.\<close>

definition insert_sync :: "'k :: linorder \<Rightarrow> 'v \<Rightarrow> ('k \<times> 'v) list \<Rightarrow> bool \<times> ('k \<times> 'v) list" where
  "insert_sync k v t = (if map_of t k = None then (True, upsert_sync k v t) else (False, t))"

definition remove_sync :: "'k :: linorder \<Rightarrow> ('k \<times> 'v) list \<Rightarrow> bool \<times> ('k \<times> 'v) list" where
  "remove_sync k t = (map_of t k \<noteq> None, filter (\<lambda>e. fst e \<noteq> k) t)"

definition ti_range :: "'k :: linorder bound \<Rightarrow> 'k bound \<Rightarrow> ('k \<times> 'v) list \<Rightarrow> ('k \<times> 'v) list" where
  "ti_range lo hi t = filter (\<lambda>e. above lo (fst e) \<and> below hi (fst e)) t"

section \<open>Point operations\<close>

lemma ti_ok_Nil [simp]: "ti_ok []"
  by (simp add: ti_ok_def)

lemma ti_ok_Cons: "ti_ok (e # t) \<longleftrightarrow> (\<forall>x \<in> set t. fst e < fst x) \<and> ti_ok t"
  by (auto simp: ti_ok_def)

lemma ti_ok_append: "ti_ok (s @ t) \<longleftrightarrow> ti_ok s \<and> ti_ok t \<and> (\<forall>x \<in> set s. \<forall>y \<in> set t. fst x < fst y)"
  by (auto simp: ti_ok_def sorted_wrt_append)

lemma ti_ok_distinct: "ti_ok t \<Longrightarrow> distinct (map fst t)"
  by (auto simp: ti_ok_def strict_sorted_iff)

lemma ti_ok_filter [simp]: "ti_ok t \<Longrightarrow> ti_ok (filter P t)"
  by (induction t) (auto simp: ti_ok_Cons)

lemma map_of_iff_set: "ti_ok t \<Longrightarrow> map_of t k = Some v \<longleftrightarrow> (k, v) \<in> set t"
  by (simp add: ti_ok_distinct)

lemma set_upsert_sync: "fst ` set (upsert_sync k v t) = insert k (fst ` set t)"
  by (induction t) auto

lemma ti_ok_upsert [simp]: "ti_ok t \<Longrightarrow> ti_ok (upsert_sync k v t)"
proof (induction t)
  case (Cons e t)
  have "fst x = k \<or> fst x \<in> fst ` set t" if "x \<in> set (upsert_sync k v t)" for x
    using that set_upsert_sync[of k v t] by (metis imageI insertE)
  with Cons show ?case by (auto simp: ti_ok_Cons) force+
qed (simp add: ti_ok_Cons)

lemma map_of_upsert [simp, ti_simps]: "ti_ok t \<Longrightarrow> map_of (upsert_sync k v t) = (map_of t)(k \<mapsto> v)"
proof (induction t)
  case (Cons e t)
  then show ?case by (cases e) (auto simp: ti_ok_Cons fun_eq_iff)
qed simp

lemma map_of_filter_key [simp, ti_simps]: "map_of (filter (\<lambda>e. fst e \<noteq> k) t) = (map_of t)(k := None)"
  by (induction t) (auto simp: fun_eq_iff)

lemma ti_ok_insert [simp]: "ti_ok t \<Longrightarrow> ti_ok (snd (insert_sync k v t))"
  by (simp add: insert_sync_def)

lemma ti_ok_remove [simp]: "ti_ok t \<Longrightarrow> ti_ok (snd (remove_sync k t))"
  by (simp add: remove_sync_def)

lemma map_of_insert_sync [simp, ti_simps]:
  "ti_ok t \<Longrightarrow> map_of (snd (insert_sync k v t)) = (if map_of t k = None then (map_of t)(k \<mapsto> v) else map_of t)"
  by (simp add: insert_sync_def)

lemma map_of_remove_sync [simp, ti_simps]: "map_of (snd (remove_sync k t)) = (map_of t)(k := None)"
  by (simp add: remove_sync_def)

lemma ti_eqI:
  assumes "ti_ok s" "ti_ok t" "map_of s = map_of t"
  shows "s = t"
proof -
  have "set s = set t"
    using assms by (auto simp: map_of_iff_set[symmetric])
  moreover have "inj_on fst (set s)" using ti_ok_distinct[OF assms(1)] by (simp add: distinct_map)
  ultimately show ?thesis
    using assms(1,2) by (intro map_sorted_distinct_set_unique[of fst]) (auto simp: ti_ok_def strict_sorted_iff)
qed

section \<open>Scans\<close>

lemma set_ti_range [simp]: "set (ti_range lo hi t) = {e \<in> set t. above lo (fst e) \<and> below hi (fst e)}"
  by (auto simp: ti_range_def)

lemma ti_ok_ti_range [simp]: "ti_ok t \<Longrightarrow> ti_ok (ti_range lo hi t)"
  by (simp add: ti_range_def)

text \<open>
  Facts about lists sorted by any asymmetric relation, used for ascending and
  for descending scans: a test closed under predecessors holds on a prefix,
  and what follows the first \<open>n\<close> entries is what follows the last of them.
\<close>

lemma takeWhile_eq_filter_sorted:
  assumes "sorted_wrt R t" and "\<And>x y. \<lbrakk>x \<in> set t; y \<in> set t; R x y; P y\<rbrakk> \<Longrightarrow> P x"
  shows "takeWhile P t = filter P t"
  using assms
proof (induction t)
  case (Cons e t)
  show ?case
  proof (cases "P e")
    case True
    with Cons show ?thesis by auto
  next
    case False
    then have "\<not> P y" if "y \<in> set t" for y
      using Cons.prems(2)[of e y] Cons.prems(1) that by auto
    with False show ?thesis by simp
  qed
qed simp

lemma filter_after_last:
  assumes "sorted_wrt R (f @ b)" and "f \<noteq> []" and asym: "\<And>x y. R x y \<Longrightarrow> \<not> R y x"
  shows "filter (R (last f)) (f @ b) = b"
proof -
  obtain g x where f: "f = g @ [x]" using assms(2) by (metis append_butlast_last_id)
  have "\<forall>e \<in> set g. \<not> R x e" using assms(1) asym by (fastforce simp: f sorted_wrt_append)
  moreover have "\<forall>e \<in> set b. R x e" using assms(1) by (simp add: f sorted_wrt_append)
  moreover have "\<not> R x x" using asym by blast
  ultimately show ?thesis by (simp add: f filter_empty_conv filter_id_conv)
qed

lemma drop_take_sorted:
  assumes "sorted_wrt R t" and "\<And>x y. R x y \<Longrightarrow> \<not> R y x" and "0 < n" and "t \<noteq> []"
  shows "drop n t = filter (R (last (take n t))) t"
  using filter_after_last[of R "take n t" "drop n t"] assms by simp

lemma last_take_in: "\<lbrakk>t \<noteq> []; 0 < n\<rbrakk> \<Longrightarrow> last (take n t) \<in> set t"
  by (metis in_set_takeD last_in_set neq0_conv take_eq_Nil)

lemma filter_filter_implied: "(\<And>e. e \<in> set s \<Longrightarrow> B e \<Longrightarrow> A e) \<Longrightarrow> filter B (filter A s) = filter B s"
  by (auto intro: filter_cong)

lemma ti_ok_sorted: "ti_ok t \<longleftrightarrow> sorted_wrt (\<lambda>x y. fst x < fst y) t"
  by (simp add: ti_ok_def sorted_wrt_map)

lemma sorted_ti_range: "ti_ok s \<Longrightarrow> sorted_wrt (\<lambda>x y. fst x < fst y) (ti_range lo hi s)"
  by (simp flip: ti_ok_sorted)

lemma sorted_ti_filter: "ti_ok s \<Longrightarrow> sorted_wrt (\<lambda>x y. fst x < fst y) (filter P s)"
  by (simp flip: ti_ok_sorted)

lemma ti_ok_rev: "ti_ok t \<longleftrightarrow> sorted_wrt (\<lambda>x y. fst y < fst x) (rev t)"
  by (simp add: ti_ok_sorted sorted_wrt_rev)

lemma sorted_rev_filter: "ti_ok s \<Longrightarrow> sorted_wrt (\<lambda>x y. fst y < fst x) (rev (filter P s))"
  using ti_ok_rev[of "filter P s"] by simp

end
