(* ===== verification/KvStore.thy ===== *)
theory KvStore
  imports OrderedMap
begin

text \<open>
  The byte store of \<^verbatim>\<open>shamir-storage\<close>: the \<^verbatim>\<open>Store\<close> trait with its default
  methods (\<^verbatim>\<open>core/types.rs\<close>), the in-memory backend
  (\<^verbatim>\<open>stores/storage_in_memory.rs\<close>) with its four batched streams, the
  repository-wide atomic batch and the sorted merge of a dirty overlay.  A
  stream is the list of the items it yields, each a batch or an error, over a
  store that no one else changes while it is polled; an operation that may
  fail returns \<^verbatim>\<open>db_error + _\<close>.  The locale \<^verbatim>\<open>ordered_store\<close> is the part of the
  trait contract the layers above rely on.
\<close>

type_synonym record_key = bytes
type_synonym kv = "record_key \<times> bytes"
type_synonym store = "kv list"

text \<open>
  The error variants the modelled code raises or hands on.  Where the source formats
  a key or an index name into the message, the variant carries that value itself.
\<close>

datatype db_error =
  NotFound record_key | KeyExists record_key | DuplicateKey string
  | UniqueIndexCreationFailed string nat string | Storage string | RepoRequiresReopen string
  | WriteCommittedVisibilityPending u64 u64 string | Config string | Codec string | Io string
  | Internal string | Validation string | Conflict string | IndexDrainInProgress u64
  | AtomicBatchUnsupported string

type_synonym 'a db_result = "db_error + 'a"
type_synonym record_stream = "kv list db_result list"

datatype kv_op = KvSet record_key bytes | KvRemove record_key

section \<open>Point operations of the in-memory store\<close>

text \<open>\<^verbatim>\<open>insert\<close> draws a fresh \<^verbatim>\<open>RecordId\<close>; the drawn id is an argument here.\<close>

definition store_insert :: "record_key \<Rightarrow> bytes \<Rightarrow> store \<Rightarrow> record_key db_result \<times> store" where
  "store_insert key value s =
    (let (ok, s') = insert_sync key value s
     in if ok then (Inr key, s') else (Inl (KeyExists key), s'))"

definition store_set :: "record_key \<Rightarrow> bytes \<Rightarrow> store \<Rightarrow> bool db_result \<times> store" where
  "store_set key value s =
    (let (ok, s') = insert_sync key value s
     in if ok then (Inr True, s') else (Inr False, upsert_sync key value s'))"

definition store_get :: "store \<Rightarrow> record_key \<Rightarrow> bytes db_result" where
  "store_get s key = (case map_of s key of Some v \<Rightarrow> Inr v | None \<Rightarrow> Inl (NotFound key))"

definition store_remove :: "record_key \<Rightarrow> store \<Rightarrow> bool db_result \<times> store" where
  "store_remove key s = (let (existed, s') = remove_sync key s in (Inr existed, s'))"

section \<open>Default methods of the trait\<close>

text \<open>They are written over the required operations, as the trait has them.\<close>

fun get_many :: "('s \<Rightarrow> record_key \<Rightarrow> bytes db_result) \<Rightarrow> 's \<Rightarrow> record_key list \<Rightarrow> bytes option list db_result" where
  "get_many get s [] = Inr []"
| "get_many get s (k # ks) =
    (case get s k of
       Inr b \<Rightarrow> (case get_many get s ks of Inr out \<Rightarrow> Inr (Some b # out) | Inl e \<Rightarrow> Inl e)
     | Inl (NotFound _) \<Rightarrow> (case get_many get s ks of Inr out \<Rightarrow> Inr (None # out) | Inl e \<Rightarrow> Inl e)
     | Inl e \<Rightarrow> Inl e)"

fun set_many ::
  "(record_key \<Rightarrow> bytes \<Rightarrow> 's \<Rightarrow> bool db_result \<times> 's) \<Rightarrow> kv list \<Rightarrow> 's \<Rightarrow> bool list db_result \<times> 's" where
  "set_many set1 [] s = (Inr [], s)"
| "set_many set1 ((k, v) # items) s =
    (case set1 k v s of
       (Inl e, s') \<Rightarrow> (Inl e, s')
     | (Inr b, s') \<Rightarrow> (case set_many set1 items s' of (Inr out, s'') \<Rightarrow> (Inr (b # out), s'') | r \<Rightarrow> r))"

fun remove_many ::
  "(record_key \<Rightarrow> 's \<Rightarrow> bool db_result \<times> 's) \<Rightarrow> record_key list \<Rightarrow> 's \<Rightarrow> bool list db_result \<times> 's" where
  "remove_many rem1 [] s = (Inr [], s)"
| "remove_many rem1 (k # ks) s =
    (case rem1 k s of
       (Inl e, s') \<Rightarrow> (Inl e, s')
     | (Inr b, s') \<Rightarrow> (case remove_many rem1 ks s' of (Inr out, s'') \<Rightarrow> (Inr (b # out), s'') | r \<Rightarrow> r))"

fun transact ::
  "(record_key \<Rightarrow> bytes \<Rightarrow> 's \<Rightarrow> bool db_result \<times> 's) \<Rightarrow> (record_key \<Rightarrow> 's \<Rightarrow> bool db_result \<times> 's)
    \<Rightarrow> kv_op list \<Rightarrow> 's \<Rightarrow> unit db_result \<times> 's" where
  "transact set1 rem1 [] s = (Inr (), s)"
| "transact set1 rem1 (op # ops) s =
    (case (case op of KvSet k v \<Rightarrow> set1 k v s | KvRemove k \<Rightarrow> rem1 k s) of
       (Inl e, s') \<Rightarrow> (Inl e, s')
     | (Inr _, s') \<Rightarrow> transact set1 rem1 ops s')"

section \<open>Batched streams of the in-memory store\<close>

text \<open>
  Each stream refills a batch from its cursor, yields it, and stops after an
  empty or a short batch.  A resumed cursor excludes the last key yielded.
\<close>

definition resume_bound :: "bool \<Rightarrow> record_key option \<Rightarrow> record_key bound" where
  "resume_bound first cursor =
    (case cursor of None \<Rightarrow> Unbounded | Some k \<Rightarrow> if first then Included k else Excluded k)"

text \<open>The keys a cursor has still ahead of it bound the number of refills.\<close>

definition ahead :: "(record_key \<Rightarrow> record_key \<Rightarrow> bool) \<Rightarrow> store \<Rightarrow> bool \<Rightarrow> record_key option \<Rightarrow> nat" where
  "ahead after s first cursor =
    (if first then Suc (length s)
     else case cursor of None \<Rightarrow> Suc (length s) | Some k \<Rightarrow> length (filter (\<lambda>e. after k (fst e)) s))"

lemma ahead_decreases:
  assumes "batch \<noteq> []" and "set batch \<subseteq> set s" and irr: "\<And>k. \<not> after k k"
    and tr: "\<And>a b c. \<lbrakk>after a b; after b c\<rbrakk> \<Longrightarrow> after a c"
    and "\<And>k e. \<lbrakk>\<not> first; cursor = Some k; e \<in> set batch\<rbrakk> \<Longrightarrow> after k (fst e)"
  shows "ahead after s False (Some (fst (last batch))) < ahead after s first cursor"
proof -
  have l: "last batch \<in> set s" "last batch \<in> set batch" using assms by auto
  show ?thesis
  proof (cases "first \<or> cursor = None")
    case True
    then show ?thesis by (auto simp: ahead_def less_Suc_eq_le)
  next
    case False
    then obtain k where k: "cursor = Some k" "\<not> first" by auto
    with assms l have k': "after k (fst (last batch))" by blast
    let ?P = "\<lambda>e. after (fst (last batch)) (fst e)" and ?Q = "\<lambda>e. after k (fst e)"
    have "filter ?P s = filter ?P (filter ?Q s)" using tr k' by (auto intro!: filter_cong)
    moreover have "length (filter ?P (filter ?Q s)) < length (filter ?Q s)"
      by (rule length_filter_less[of "last batch"]) (use irr k' l in auto)
    ultimately show ?thesis using k by (simp add: ahead_def)
  qed
qed

function iter_loop :: "nat \<Rightarrow> store \<Rightarrow> record_key option \<Rightarrow> record_stream" where
  "iter_loop batch_size s cursor =
    (let batch = take batch_size (ti_range (resume_bound False cursor) Unbounded s)
     in if batch = [] then []
        else Inr batch # (if length batch < batch_size then []
                          else iter_loop batch_size s (Some (fst (last batch)))))"
  by auto
termination
  by (relation "measure (\<lambda>(n, s, c). ahead (<) s False c)")
    (auto intro!: ahead_decreases simp: resume_bound_def dest!: in_set_takeD)

definition iter_stream :: "nat \<Rightarrow> store \<Rightarrow> record_stream" where
  "iter_stream batch_size s = (if batch_size = 0 then [] else iter_loop batch_size s None)"

text \<open>\<^verbatim>\<open>key > hi\<close> ends a forward scan, \<^verbatim>\<open>key < lo\<close> a reverse one.\<close>

definition past_hi :: "bytes option \<Rightarrow> record_key \<Rightarrow> bool" where
  "past_hi hi key = (case hi of None \<Rightarrow> False | Some h \<Rightarrow> h < key)"

definition past_lo :: "bytes option \<Rightarrow> record_key \<Rightarrow> bool" where
  "past_lo lo key = (case lo of None \<Rightarrow> False | Some l \<Rightarrow> key < l)"

function range_loop :: "nat \<Rightarrow> store \<Rightarrow> bytes option \<Rightarrow> bool \<Rightarrow> record_key option \<Rightarrow> record_stream" where
  "range_loop batch_size s hi first cursor =
    (let batch = take batch_size (takeWhile (\<lambda>e. \<not> past_hi hi (fst e))
                   (ti_range (resume_bound first cursor) Unbounded s))
     in if batch = [] then []
        else Inr batch # (if length batch < batch_size then []
                          else range_loop batch_size s hi False (Some (fst (last batch)))))"
  by auto
termination
  by (relation "measure (\<lambda>(n, s, h, f, c). ahead (<) s f c)")
    (auto intro!: ahead_decreases simp: resume_bound_def dest!: in_set_takeD set_takeWhileD)

definition iter_range_stream :: "store \<Rightarrow> bytes option \<Rightarrow> bytes option \<Rightarrow> nat \<Rightarrow> record_stream" where
  "iter_range_stream s start_inclusive end_inclusive batch_size =
    (if batch_size = 0 then [] else range_loop batch_size s end_inclusive True start_inclusive)"

function range_rev_loop :: "nat \<Rightarrow> store \<Rightarrow> bytes option \<Rightarrow> bool \<Rightarrow> record_key option \<Rightarrow> record_stream" where
  "range_rev_loop batch_size s lo first cursor =
    (let batch = take batch_size (takeWhile (\<lambda>e. \<not> past_lo lo (fst e))
                   (rev (ti_range Unbounded (resume_bound first cursor) s)))
     in if batch = [] then []
        else Inr batch # (if length batch < batch_size then []
                          else range_rev_loop batch_size s lo False (Some (fst (last batch)))))"
  by auto
termination
  by (relation "measure (\<lambda>(n, s, l, f, c). ahead (>) s f c)")
    (auto intro!: ahead_decreases simp: resume_bound_def dest!: in_set_takeD set_takeWhileD)

definition iter_range_stream_reverse :: "store \<Rightarrow> bytes option \<Rightarrow> bytes option \<Rightarrow> nat \<Rightarrow> record_stream" where
  "iter_range_stream_reverse s start_inclusive end_inclusive batch_size =
    (if batch_size = 0 then [] else range_rev_loop batch_size s start_inclusive True end_inclusive)"

text \<open>The lower bound of a prefix scan: the prefix itself until a batch has been read.\<close>

definition prefix_lower :: "bytes \<Rightarrow> bool \<Rightarrow> record_key option \<Rightarrow> record_key bound" where
  "prefix_lower p first c = (case c of None \<Rightarrow> Included p | Some _ \<Rightarrow> resume_bound first c)"

function prefix_loop :: "nat \<Rightarrow> store \<Rightarrow> bytes \<Rightarrow> bool \<Rightarrow> record_key option \<Rightarrow> record_stream" where
  "prefix_loop batch_size s p first cursor =
    (let batch = take batch_size (takeWhile (\<lambda>e. prefix p (fst e))
                   (ti_range (prefix_lower p first cursor) Unbounded s))
     in if batch = [] then []
        else Inr batch # (if length batch < batch_size then []
                          else prefix_loop batch_size s p False (Some (fst (last batch)))))"
  by auto
termination
  by (relation "measure (\<lambda>(n, s, p, f, c). ahead (<) s f c)")
    (auto intro!: ahead_decreases simp: prefix_lower_def resume_bound_def dest!: in_set_takeD set_takeWhileD split: option.splits)

definition scan_prefix_stream :: "store \<Rightarrow> bytes \<Rightarrow> nat \<Rightarrow> record_stream" where
  "scan_prefix_stream s p batch_size = (if batch_size = 0 then [] else prefix_loop batch_size s p True None)"

declare iter_loop.simps [simp del] range_loop.simps [simp del] range_rev_loop.simps [simp del]
  prefix_loop.simps [simp del]

section \<open>A stream is the selected entries, cut into batches\<close>

function chunks :: "nat \<Rightarrow> 'a list \<Rightarrow> 'a list list" where
  "chunks n xs = (if n = 0 \<or> xs = [] then [] else take n xs # chunks n (drop n xs))"
  by auto
termination
  by (relation "measure (\<lambda>(n, xs). length xs)") auto

declare chunks.simps [simp del]

lemma chunks_Nil [simp]: "chunks n [] = []" and chunks_0 [simp]: "chunks 0 xs = []"
  by (simp_all add: chunks.simps)

lemma chunks_Cons:
  "0 < n \<Longrightarrow> chunks n (x # xs) = take n (x # xs) # chunks n (drop n (x # xs))"
  by (simp add: chunks.simps)

lemma concat_chunks [simp]: "0 < n \<Longrightarrow> concat (chunks n xs) = xs"
  by (induction n xs rule: chunks.induct) (subst chunks.simps, auto)

lemma chunks_batch:
  "0 < n \<Longrightarrow> b \<in> set (chunks n xs) \<Longrightarrow> b \<noteq> [] \<and> length b \<le> n"
proof (induction n xs rule: chunks.induct)
  case (1 n xs)
  from 1(3) have "xs \<noteq> [] \<and> (b = take n xs \<or> b \<in> set (chunks n (drop n xs)))"
    by (subst (asm) chunks.simps) (auto split: if_splits)
  with 1 show ?case by auto
qed

text \<open>One refill of any of the loops: the rest of the stream is the batches of what lies beyond
  the last entry of this batch.\<close>

lemma chunks_refill:
  assumes "sorted_wrt R t" and "\<And>x y. R x y \<Longrightarrow> \<not> R y x" and "0 < n"
    and rest: "t \<noteq> [] \<Longrightarrow> length (take n t) = n \<Longrightarrow> next (take n t) = map Inr (chunks n (filter (R (last (take n t))) t))"
  shows "(let batch = take n t in if batch = [] then []
      else Inr batch # (if length batch < n then [] else next batch)) = map Inr (chunks n t)"
proof (cases "t = []")
  case False
  then have c: "chunks n t = take n t # chunks n (drop n t)" using \<open>0 < n\<close> by (subst chunks.simps) simp
  show ?thesis
  proof (cases "length (take n t) < n")
    case True
    then show ?thesis using False \<open>0 < n\<close> by (simp add: c Let_def)
  next
    case False
    with rest \<open>t \<noteq> []\<close> have "next (take n t) = map Inr (chunks n (filter (R (last (take n t))) t))" by fastforce
    with drop_take_sorted[of R t n] assms \<open>t \<noteq> []\<close> False show ?thesis by (simp add: c Let_def)
  qed
qed simp

lemma iter_loop_eq:
  assumes "ti_ok s" "0 < n"
  shows "iter_loop n s c = map Inr (chunks n (ti_range (resume_bound False c) Unbounded s))"
  using assms
proof (induction n s c rule: iter_loop.induct)
  case (1 n s c)
  let ?t = "ti_range (resume_bound False c) Unbounded s"
  have keep: "filter (\<lambda>y. fst (last (take n ?t)) < fst y) ?t
      = ti_range (resume_bound False (Some (fst (last (take n ?t))))) Unbounded s"
    if "?t \<noteq> []"
  proof -
    have "last (take n ?t) \<in> set ?t" using that 1(3) by (rule last_take_in)
    then show ?thesis
      by (auto simp: ti_range_def resume_bound_def intro!: filter_cong split: option.splits)
  qed
  show ?case
    by (subst iter_loop.simps, rule chunks_refill[where R = "\<lambda>x y. fst x < fst y"])
      (use 1 keep ti_ok_sorted ti_ok_ti_range in auto)
qed

lemma range_fetch:
  assumes "ti_ok s"
  shows "takeWhile (\<lambda>e. \<not> past_hi hi (fst e)) (ti_range lo Unbounded s)
    = filter (\<lambda>e. above lo (fst e) \<and> \<not> past_hi hi (fst e)) s"
proof -
  have "takeWhile (\<lambda>e. \<not> past_hi hi (fst e)) (ti_range lo Unbounded s)
      = filter (\<lambda>e. \<not> past_hi hi (fst e)) (ti_range lo Unbounded s)"
    by (rule takeWhile_eq_filter_sorted[where R = "\<lambda>x y. fst x < fst y"])
      (use assms ti_ok_sorted ti_ok_ti_range in \<open>auto simp: past_hi_def split: option.splits\<close>)
  then show ?thesis by (simp add: ti_range_def conj_commute)
qed

lemma range_rev_fetch:
  assumes "ti_ok s"
  shows "takeWhile (\<lambda>e. \<not> past_lo lo (fst e)) (rev (ti_range Unbounded hi s))
    = rev (filter (\<lambda>e. below hi (fst e) \<and> \<not> past_lo lo (fst e)) s)"
proof -
  have "takeWhile (\<lambda>e. \<not> past_lo lo (fst e)) (rev (ti_range Unbounded hi s))
      = filter (\<lambda>e. \<not> past_lo lo (fst e)) (rev (ti_range Unbounded hi s))"
    by (rule takeWhile_eq_filter_sorted[where R = "\<lambda>x y. fst y < fst x"])
      (use assms ti_ok_rev ti_ok_ti_range in \<open>auto simp: past_lo_def split: option.splits\<close>)
  then show ?thesis by (simp add: ti_range_def conj_commute rev_filter)
qed

text \<open>The keys with a given prefix follow the prefix itself without a gap.\<close>

lemma prefix_fetch:
  assumes "ti_ok s" and lo: "\<And>e. above lo e \<Longrightarrow> p \<le> e"
  shows "takeWhile (\<lambda>e. prefix p (fst e)) (ti_range lo Unbounded s)
    = filter (\<lambda>e. above lo (fst e) \<and> prefix p (fst e)) s"
proof -
  have "takeWhile (\<lambda>e. prefix p (fst e)) (ti_range lo Unbounded s)
      = filter (\<lambda>e. prefix p (fst e)) (ti_range lo Unbounded s)"
    by (rule takeWhile_eq_filter_sorted[where R = "\<lambda>x y. fst x < fst y"])
      (use assms in \<open>auto intro: prefix_between less_imp_le sorted_ti_range\<close>)
  then show ?thesis by (simp add: ti_range_def conj_commute)
qed

lemma range_loop_eq:
  assumes "ti_ok s" "0 < n"
  shows "range_loop n s hi f c
    = map Inr (chunks n (filter (\<lambda>e. above (resume_bound f c) (fst e) \<and> \<not> past_hi hi (fst e)) s))"
  using assms
proof (induction n s hi f c rule: range_loop.induct)
  case (1 n s hi f c)
  let ?t = "filter (\<lambda>e. above (resume_bound f c) (fst e) \<and> \<not> past_hi hi (fst e)) s"
  have keep: "filter (\<lambda>y. fst (last (take n ?t)) < fst y) ?t
      = filter (\<lambda>e. above (resume_bound False (Some (fst (last (take n ?t))))) (fst e) \<and> \<not> past_hi hi (fst e)) s"
    if "?t \<noteq> []"
  proof -
    have "last (take n ?t) \<in> set ?t" using that 1(3) by (rule last_take_in)
    then show ?thesis
      by (auto simp: resume_bound_def intro!: filter_cong split: option.splits if_splits)
  qed
  show ?case
    by (subst range_loop.simps, subst range_fetch[OF 1(2)],
        rule chunks_refill[where R = "\<lambda>x y. fst x < fst y"])
      (use 1 keep sorted_ti_filter range_fetch[OF 1(2)] in auto)
qed

lemma range_rev_loop_eq:
  assumes "ti_ok s" "0 < n"
  shows "range_rev_loop n s lo f c
    = map Inr (chunks n (rev (filter (\<lambda>e. below (resume_bound f c) (fst e) \<and> \<not> past_lo lo (fst e)) s)))"
  using assms
proof (induction n s lo f c rule: range_rev_loop.induct)
  case (1 n s lo f c)
  let ?t = "rev (filter (\<lambda>e. below (resume_bound f c) (fst e) \<and> \<not> past_lo lo (fst e)) s)"
  have keep: "filter (\<lambda>y. fst y < fst (last (take n ?t))) ?t
      = rev (filter (\<lambda>e. below (resume_bound False (Some (fst (last (take n ?t))))) (fst e) \<and> \<not> past_lo lo (fst e)) s)"
    if "?t \<noteq> []"
  proof -
    have "last (take n ?t) \<in> set ?t" using that 1(3) by (rule last_take_in)
    then show ?thesis
      by (auto simp: resume_bound_def rev_filter[symmetric] intro!: filter_cong split: option.splits if_splits)
  qed
  show ?case
    by (subst range_rev_loop.simps, subst range_rev_fetch[OF 1(2)],
        rule chunks_refill[where R = "\<lambda>x y. fst y < fst x"])
      (use 1 keep sorted_rev_filter range_rev_fetch[OF 1(2)] in auto)
qed

lemma prefix_loop_eq:
  assumes "ti_ok s" "0 < n" and "\<And>k. c = Some k \<Longrightarrow> p \<le> k"
  shows "prefix_loop n s p f c
    = map Inr (chunks n (filter (\<lambda>e. above (prefix_lower p f c) (fst e) \<and> prefix p (fst e)) s))"
  using assms
proof (induction n s p f c rule: prefix_loop.induct)
  case (1 n s p f c)
  let ?t = "filter (\<lambda>e. above (prefix_lower p f c) (fst e) \<and> prefix p (fst e)) s"
  have lo: "p \<le> e" if "above (prefix_lower p f c) e" for e
    using that 1(4) by (fastforce simp: prefix_lower_def resume_bound_def split: option.splits if_splits)
  have fetch: "takeWhile (\<lambda>e. prefix p (fst e)) (ti_range (prefix_lower p f c) Unbounded s) = ?t"
    by (rule prefix_fetch[OF 1(2)]) (rule lo)
  have last: "last (take n ?t) \<in> set ?t" if "?t \<noteq> []" using that 1(3) by (rule last_take_in)
  have keep: "filter (\<lambda>y. fst (last (take n ?t)) < fst y) ?t
      = filter (\<lambda>e. above (prefix_lower p False (Some (fst (last (take n ?t))))) (fst e) \<and> prefix p (fst e)) s"
    if "?t \<noteq> []"
    using last[OF that]
    by (auto simp: resume_bound_def prefix_lower_def intro!: filter_cong split: option.splits if_splits)
  show ?case
    by (subst prefix_loop.simps, subst fetch,
        rule chunks_refill[where R = "\<lambda>x y. fst x < fst y"])
      (use 1 keep last sorted_ti_filter fetch prefix_le in \<open>auto simp: prefix_lower_def\<close>)
qed

definition in_window :: "bytes option \<Rightarrow> bytes option \<Rightarrow> record_key \<Rightarrow> bool" where
  "in_window lo hi k = (\<not> past_lo lo k \<and> \<not> past_hi hi k)"

lemma iter_stream_eq: "ti_ok s \<Longrightarrow> iter_stream n s = map Inr (chunks n s)"
  by (cases "n = 0") (simp_all add: iter_stream_def iter_loop_eq resume_bound_def ti_range_def)

lemma above_start: "above (resume_bound True lo) k \<longleftrightarrow> \<not> past_lo lo k"
  by (auto simp: resume_bound_def past_lo_def split: option.splits)

lemma below_end: "below (resume_bound True hi) k \<longleftrightarrow> \<not> past_hi hi k"
  by (auto simp: resume_bound_def past_hi_def split: option.splits)

lemma iter_range_stream_eq:
  "ti_ok s \<Longrightarrow> iter_range_stream s lo hi n = map Inr (chunks n (filter (\<lambda>e. in_window lo hi (fst e)) s))"
  by (cases "n = 0") (simp_all add: iter_range_stream_def range_loop_eq above_start in_window_def)

lemma iter_range_stream_reverse_eq:
  "ti_ok s \<Longrightarrow> iter_range_stream_reverse s lo hi n
    = map Inr (chunks n (rev (filter (\<lambda>e. in_window lo hi (fst e)) s)))"
  by (cases "n = 0")
    (simp_all add: iter_range_stream_reverse_def range_rev_loop_eq below_end in_window_def conj_commute)

lemma scan_prefix_stream_eq:
  "ti_ok s \<Longrightarrow> scan_prefix_stream s p n = map Inr (chunks n (filter (\<lambda>e. prefix p (fst e)) s))"
proof (cases "n = 0")
  case False
  assume "ti_ok s"
  have "filter (\<lambda>e. above (prefix_lower p True None) (fst e) \<and> prefix p (fst e)) s
      = filter (\<lambda>e. prefix p (fst e)) s"
    using prefix_le by (auto simp: prefix_lower_def intro!: filter_cong)
  with False prefix_loop_eq[OF \<open>ti_ok s\<close>, of n None p True] show ?thesis
    by (simp add: scan_prefix_stream_def)
qed (simp add: scan_prefix_stream_def)

section \<open>Default range streams of the trait\<close>

text \<open>A \<^verbatim>\<open>?\<close> inside a stream yields the error and ends the stream.\<close>

definition window_batch :: "bytes option \<Rightarrow> bytes option \<Rightarrow> kv list \<Rightarrow> kv list \<times> bool" where
  "window_batch start end' batch =
    (filter (\<lambda>e. \<not> past_lo start (fst e)) (takeWhile (\<lambda>e. \<not> past_hi end' (fst e)) batch),
     \<exists>e \<in> set batch. past_hi end' (fst e))"

fun default_range_filter :: "bytes option \<Rightarrow> bytes option \<Rightarrow> record_stream \<Rightarrow> record_stream" where
  "default_range_filter start end' [] = []"
| "default_range_filter start end' (Inl e # rest) = [Inl e]"
| "default_range_filter start end' (Inr batch # rest) =
    (let (filtered, past_end) = window_batch start end' batch
     in (if filtered = [] then [] else [Inr filtered]) @
        (if past_end then [] else default_range_filter start end' rest))"

text \<open>Drain a stream into one vector, stopping at its first error.\<close>

fun drain_stream :: "record_stream \<Rightarrow> kv list db_result" where
  "drain_stream [] = Inr []"
| "drain_stream (Inl e # rest) = Inl e"
| "drain_stream (Inr b # rest) = (case drain_stream rest of Inr xs \<Rightarrow> Inr (b @ xs) | Inl e \<Rightarrow> Inl e)"

definition default_reverse :: "record_stream \<Rightarrow> nat \<Rightarrow> record_stream" where
  "default_reverse inner batch_size =
    (case drain_stream inner of Inl e \<Rightarrow> [Inl e] | Inr all \<Rightarrow> map Inr (chunks batch_size (rev all)))"

definition default_iter_range_stream ::
  "('s \<Rightarrow> nat \<Rightarrow> record_stream) \<Rightarrow> 's \<Rightarrow> bytes option \<Rightarrow> bytes option \<Rightarrow> nat \<Rightarrow> record_stream" where
  "default_iter_range_stream iter s start end' batch_size =
    (if batch_size = 0 then [] else default_range_filter start end' (iter s batch_size))"

definition default_iter_range_stream_reverse ::
  "('s \<Rightarrow> bytes option \<Rightarrow> bytes option \<Rightarrow> nat \<Rightarrow> record_stream) \<Rightarrow> 's \<Rightarrow> bytes option \<Rightarrow> bytes option
    \<Rightarrow> nat \<Rightarrow> record_stream" where
  "default_iter_range_stream_reverse range_stream s start end' batch_size =
    (if batch_size = 0 then [] else default_reverse (range_stream s start end' batch_size) batch_size)"

lemma drain_stream_Inr [simp]: "drain_stream (map Inr bs) = Inr (concat bs)"
  by (induction bs) auto

lemma default_range_filter_sorted:
  assumes "ti_ok (concat bs)"
  shows "\<exists>cs. default_range_filter lo hi (map Inr bs) = map Inr cs
    \<and> concat cs = filter (\<lambda>e. in_window lo hi (fst e)) (concat bs)"
  using assms
proof (induction bs)
  case (Cons b bs)
  have ok: "ti_ok b" "ti_ok (concat bs)" and
    lt: "\<And>x y. \<lbrakk>x \<in> set b; y \<in> set (concat bs)\<rbrakk> \<Longrightarrow> fst x < fst y"
    using Cons.prems by (auto simp: ti_ok_append)
  have tw: "takeWhile (\<lambda>e. \<not> past_hi hi (fst e)) b = filter (\<lambda>e. \<not> past_hi hi (fst e)) b"
    by (rule takeWhile_eq_filter_sorted[where R = "\<lambda>x y. fst x < fst y"])
      (use ok ti_ok_sorted in \<open>auto simp: past_hi_def split: option.splits\<close>)
  define f where "f = filter (\<lambda>e. in_window lo hi (fst e)) b"
  have wb: "window_batch lo hi b = (f, \<exists>e \<in> set b. past_hi hi (fst e))"
    by (simp add: window_batch_def tw f_def in_window_def conj_commute)
  obtain cs where cs: "default_range_filter lo hi (map Inr bs) = map Inr cs"
      "concat cs = filter (\<lambda>e. in_window lo hi (fst e)) (concat bs)"
    using Cons.IH[OF ok(2)] by blast
  show ?case
  proof (cases "\<exists>e \<in> set b. past_hi hi (fst e)")
    case True
    then have "past_hi hi (fst y)" if "y \<in> set (concat bs)" for y
      using lt[OF _ that] by (auto simp: past_hi_def split: option.splits intro: less_trans)
    then have "\<not> in_window lo hi (fst y)" if "y \<in> set (concat bs)" for y
      using that by (simp add: in_window_def)
    then have "filter (\<lambda>e. in_window lo hi (fst e)) (concat bs) = []" by (simp add: filter_empty_conv)
    with True show ?thesis
      by (intro exI[of _ "if f = [] then [] else [f]"]) (simp add: wb f_def[symmetric])
  next
    case False
    with cs show ?thesis
      by (intro exI[of _ "if f = [] then cs else f # cs"]) (simp add: wb f_def[symmetric])
  qed
qed simp

section \<open>The contract of an ordered store\<close>

text \<open>The operations of a \<^verbatim>\<open>dyn Store\<close> its clients call.\<close>

record 's dyn_store =
  ds_get :: "'s \<Rightarrow> record_key \<Rightarrow> bytes db_result"
  ds_set :: "record_key \<Rightarrow> bytes \<Rightarrow> 's \<Rightarrow> bool db_result \<times> 's"
  ds_remove :: "record_key \<Rightarrow> 's \<Rightarrow> bool db_result \<times> 's"
  ds_range :: "'s \<Rightarrow> bytes option \<Rightarrow> bytes option \<Rightarrow> nat \<Rightarrow> record_stream"
  ds_range_rev :: "'s \<Rightarrow> bytes option \<Rightarrow> bytes option \<Rightarrow> nat \<Rightarrow> record_stream"
  ds_prefix :: "'s \<Rightarrow> bytes \<Rightarrow> nat \<Rightarrow> record_stream"

definition mem_store :: "store dyn_store" where
  "mem_store = \<lparr>ds_get = store_get, ds_set = store_set, ds_remove = store_remove,
    ds_range = iter_range_stream, ds_range_rev = iter_range_stream_reverse, ds_prefix = scan_prefix_stream\<rparr>"

lemma mem_store_simps [simp]:
  "ds_get mem_store = store_get" "ds_set mem_store = store_set" "ds_remove mem_store = store_remove"
  "ds_range mem_store = iter_range_stream" "ds_range_rev mem_store = iter_range_stream_reverse"
  "ds_prefix mem_store = scan_prefix_stream"
  by (simp_all add: mem_store_def)

fun apply_op :: "kv_op \<Rightarrow> (record_key \<rightharpoonup> bytes) \<Rightarrow> (record_key \<rightharpoonup> bytes)" where
  "apply_op (KvSet k v) m = m(k \<mapsto> v)"
| "apply_op (KvRemove k) m = m(k := None)"

text \<open>
  What a layer above a \<^verbatim>\<open>dyn Store\<close> relies on: point operations act on the
  abstract content, scans yield the selected entries of the content in key
  order (or in reverse), in batches none of which is empty.  The contract is
  that of a backend none of whose operations fails.
\<close>

locale ordered_store =
  fixes inv :: "'s \<Rightarrow> bool" and content :: "'s \<Rightarrow> store"
    and D :: "'s dyn_store"
  assumes content_ok: "inv s \<Longrightarrow> ti_ok (content s)"
    and get_spec: "inv s \<Longrightarrow> ds_get D s k = (case map_of (content s) k of Some v \<Rightarrow> Inr v | None \<Rightarrow> Inl (NotFound k))"
    and set_inv: "inv s \<Longrightarrow> inv (snd (ds_set D k v s))"
    and set_content: "inv s \<Longrightarrow> content (snd (ds_set D k v s)) = upsert_sync k v (content s)"
    and set_flag: "inv s \<Longrightarrow> fst (ds_set D k v s) = Inr (map_of (content s) k = None)"
    and rem_inv: "inv s \<Longrightarrow> inv (snd (ds_remove D k s))"
    and rem_content: "inv s \<Longrightarrow> content (snd (ds_remove D k s)) = filter (\<lambda>e. fst e \<noteq> k) (content s)"
    and rem_flag: "inv s \<Longrightarrow> fst (ds_remove D k s) = Inr (map_of (content s) k \<noteq> None)"
    and range_spec: "inv s \<Longrightarrow> 0 < n \<Longrightarrow> \<exists>bs. ds_range D s lo hi n = map Inr bs \<and> [] \<notin> set bs
      \<and> concat bs = filter (\<lambda>e. in_window lo hi (fst e)) (content s)"
    and range_rev_spec: "inv s \<Longrightarrow> 0 < n \<Longrightarrow> \<exists>bs. ds_range_rev D s lo hi n = map Inr bs \<and> [] \<notin> set bs
      \<and> concat bs = rev (filter (\<lambda>e. in_window lo hi (fst e)) (content s))"
    and prefix_spec: "inv s \<Longrightarrow> 0 < n \<Longrightarrow> \<exists>bs. ds_prefix D s p n = map Inr bs \<and> [] \<notin> set bs
      \<and> concat bs = filter (\<lambda>e. prefix p (fst e)) (content s)"
begin

abbreviation \<alpha> :: "'s \<Rightarrow> record_key \<rightharpoonup> bytes" where
  "\<alpha> s \<equiv> map_of (content s)"

lemma set_map: "inv s \<Longrightarrow> \<alpha> (snd (ds_set D k v s)) = (\<alpha> s)(k \<mapsto> v)"
  by (simp add: set_content content_ok)

lemma rem_map: "inv s \<Longrightarrow> \<alpha> (snd (ds_remove D k s)) = (\<alpha> s)(k := None)"
  by (simp add: rem_content)

lemma get_many_spec: "inv s \<Longrightarrow> get_many (ds_get D) s ks = Inr (map (\<alpha> s) ks)"
  by (induction ks) (simp_all add: get_spec split: option.split)

lemma op_step:
  assumes "inv s"
  obtains b s1 where "(case op of KvSet k v \<Rightarrow> ds_set D k v s | KvRemove k \<Rightarrow> ds_remove D k s) = (Inr b, s1)"
    "inv s1" "\<alpha> s1 = apply_op op (\<alpha> s)"
proof (cases op)
  case (KvSet k v)
  with set_flag[OF assms, of k v] set_inv[OF assms, of k v] set_map[OF assms, of k v]
    that[of "\<alpha> s k = None" "snd (ds_set D k v s)"] show ?thesis
    by (simp add: prod_eq_iff)
next
  case (KvRemove k)
  with rem_flag[OF assms, of k] rem_inv[OF assms, of k] rem_map[OF assms, of k]
    that[of "\<alpha> s k \<noteq> None" "snd (ds_remove D k s)"] show ?thesis
    by (simp add: prod_eq_iff)
qed

lemma transact_eq:
  assumes "inv s"
  obtains s' where "transact (ds_set D) (ds_remove D) ops s = (Inr (), s')" "inv s'" "\<alpha> s' = fold apply_op ops (\<alpha> s)"
  using assms
proof (induction ops arbitrary: s thesis)
  case (Cons op ops)
  obtain b s1 where s1: "(case op of KvSet k v \<Rightarrow> ds_set D k v s | KvRemove k \<Rightarrow> ds_remove D k s) = (Inr b, s1)"
      "inv s1" "\<alpha> s1 = apply_op op (\<alpha> s)"
    using op_step[OF Cons.prems(2)] .
  obtain s' where "transact (ds_set D) (ds_remove D) ops s1 = (Inr (), s')" "inv s'" "\<alpha> s' = fold apply_op ops (\<alpha> s1)"
    using Cons.IH[OF _ s1(2)] .
  with s1 Cons.prems(1)[of s'] show ?case by simp
qed simp

lemma set_many_eq:
  assumes "inv s"
  obtains bs s' where "set_many (ds_set D) items s = (Inr bs, s')" "length bs = length items" "inv s'"
    "\<alpha> s' = fold (\<lambda>e. apply_op (KvSet (fst e) (snd e))) items (\<alpha> s)"
  using assms
proof (induction items arbitrary: s thesis)
  case (Cons e items)
  obtain b s1 where s1: "ds_set D (fst e) (snd e) s = (Inr b, s1)" "inv s1"
      "\<alpha> s1 = apply_op (KvSet (fst e) (snd e)) (\<alpha> s)"
    using op_step[OF Cons.prems(2), of "KvSet (fst e) (snd e)"] unfolding kv_op.case .
  obtain bs s' where "set_many (ds_set D) items s1 = (Inr bs, s')" "length bs = length items" "inv s'"
      "\<alpha> s' = fold (\<lambda>e. apply_op (KvSet (fst e) (snd e))) items (\<alpha> s1)"
    using Cons.IH[OF _ s1(2)] .
  with s1 Cons.prems(1)[of "b # bs" s'] show ?case by (cases e) (simp del: apply_op.simps)
qed simp

end

interpretation mem: ordered_store ti_ok "\<lambda>s. s" mem_store
proof (unfold_locales, unfold mem_store_simps)
  fix s :: store and k v
  assume ok: "ti_ok s"
  show "fst (store_set k v s) = Inr (map_of s k = None)" "snd (store_set k v s) = upsert_sync k v s"
      "ti_ok (snd (store_set k v s))"
    using ok by (auto simp: store_set_def insert_sync_def)
next
  fix s :: store and n lo hi p
  assume ok: "ti_ok s" "0 < (n :: nat)"
  have ne: "[] \<notin> set (chunks n xs)" for xs :: "kv list" using chunks_batch[OF ok(2)] by blast
  show "\<exists>bs. iter_range_stream s lo hi n = map Inr bs \<and> [] \<notin> set bs
      \<and> concat bs = filter (\<lambda>e. in_window lo hi (fst e)) s"
    using ok ne by (metis iter_range_stream_eq concat_chunks)
  show "\<exists>bs. iter_range_stream_reverse s lo hi n = map Inr bs \<and> [] \<notin> set bs
      \<and> concat bs = rev (filter (\<lambda>e. in_window lo hi (fst e)) s)"
    using ok ne by (metis iter_range_stream_reverse_eq concat_chunks)
  show "\<exists>bs. scan_prefix_stream s p n = map Inr bs \<and> [] \<notin> set bs
      \<and> concat bs = filter (\<lambda>e. prefix p (fst e)) s"
    using ok ne by (metis scan_prefix_stream_eq concat_chunks)
qed (auto simp: store_get_def store_remove_def remove_sync_def)

section \<open>Properties\<close>

text \<open>C7: For a batch size above zero the four streams of the in-memory store yield exactly the
  entries asked for (all of them, those inside the inclusive window, the same in reverse, those whose
  key starts with the prefix), each once and in order, cut into full batches with at most a shorter
  last one; for batch size zero they yield nothing.\<close>

theorem in_memory_streams:
  assumes "ti_ok s"
    and window: "window = filter (\<lambda>e. (\<forall>l. lo = Some l \<longrightarrow> l \<le> fst e) \<and> (\<forall>h. hi = Some h \<longrightarrow> fst e \<le> h)) s"
  shows "iter_stream n s = map Inr (chunks n s)
    \<and> iter_range_stream s lo hi n = map Inr (chunks n window)
    \<and> iter_range_stream_reverse s lo hi n = map Inr (chunks n (rev window))
    \<and> scan_prefix_stream s p n = map Inr (chunks n (filter (\<lambda>e. prefix p (fst e)) s))"
proof -
  have "window = filter (\<lambda>e. in_window lo hi (fst e)) s"
    unfolding window
    by (auto simp: in_window_def past_lo_def past_hi_def not_less split: option.splits intro!: filter_cong)
  with iter_stream_eq[OF assms(1)] iter_range_stream_eq[OF assms(1)] iter_range_stream_reverse_eq[OF assms(1)]
    scan_prefix_stream_eq[OF assms(1)] show ?thesis by simp
qed

theorem in_memory_streams_witness:
  "scan_prefix_stream [([1], [7]), ([1, 0], [8]), ([1, 255], [9]), ([2], [6])] [1] 2
    = [Inr [([1], [7]), ([1, 0], [8])], Inr [([1, 255], [9])]]"
proof -
  let ?s = "[([1], [7]), ([1, 0], [8]), ([1, 255], [9]), ([2], [6])] :: store"
  have "ti_ok ?s" by (simp add: ti_ok_def)
  from in_memory_streams[OF this refl, of 2 None None "[1]"] show ?thesis by (simp add: chunks_Cons)
qed

text \<open>The trait's default range streams, which filter and reverse the full scan, deliver the same
  entries in the same order as the in-memory store's native ones.\<close>

theorem default_range_streams_agree:
  assumes "ti_ok s" and "0 < n"
  shows "drain_stream (default_iter_range_stream (\<lambda>s n. iter_stream n s) s lo hi n)
      = drain_stream (iter_range_stream s lo hi n)
    \<and> drain_stream (default_iter_range_stream_reverse
        (default_iter_range_stream (\<lambda>s n. iter_stream n s)) s lo hi n)
      = drain_stream (iter_range_stream_reverse s lo hi n)"
proof -
  obtain cs where "default_range_filter lo hi (map Inr (chunks n s)) = map Inr cs"
      "concat cs = filter (\<lambda>e. in_window lo hi (fst e)) s"
    using default_range_filter_sorted[of "chunks n s" lo hi] assms by auto
  with assms show ?thesis
    by (simp add: default_iter_range_stream_def default_iter_range_stream_reverse_def default_reverse_def
        iter_stream_eq iter_range_stream_eq iter_range_stream_reverse_eq)
qed

theorem default_range_streams_agree_witness:
  "drain_stream (default_iter_range_stream (\<lambda>s n. iter_stream n s) [([1], []), ([2], []), ([3], [])] (Some [2]) None 1)
    = drain_stream (iter_range_stream [([1], []), ([2], []), ([3], [])] (Some [2]) None 1)"
  using default_range_streams_agree[of "[([1], []), ([2], []), ([3], [])]" 1 "Some [2]" None]
  by (simp add: ti_ok_def)

text \<open>A \<^verbatim>\<open>transact\<close> batch on the in-memory store always succeeds, keeps the store's entries in
  strict key order, and leaves each key with the effect of the operations applied in batch order.\<close>

theorem transact_in_memory:
  assumes "ti_ok s"
  shows "\<exists>s'. transact store_set store_remove ops s = (Inr (), s') \<and> ti_ok s'
    \<and> map_of s' = fold (\<lambda>op m. case op of KvSet k v \<Rightarrow> m(k \<mapsto> v) | KvRemove k \<Rightarrow> m(k := None)) ops (map_of s)"
proof -
  have eq: "(\<lambda>op m. case op of KvSet k v \<Rightarrow> m(k \<mapsto> v) | KvRemove k \<Rightarrow> m(k := None)) = apply_op"
    by (intro ext) (simp split: kv_op.split)
  show ?thesis unfolding eq by (rule mem.transact_eq[OF assms, of ops, unfolded mem_store_simps]) blast
qed

theorem transact_in_memory_witness:
  "\<exists>s'. transact store_set store_remove [KvSet [1] [5], KvRemove [2], KvSet [1] [6]] [([2], [7])] = (Inr (), s')
    \<and> map_of s' [1] = Some [6] \<and> map_of s' [2] = None"
  using transact_in_memory[of "[([2], [7])]" "[KvSet [1] [5], KvRemove [2], KvSet [1] [6]]"]
  by (auto simp: ti_ok_def)

end
