(* ===== verification/OverlayMerge.thy ===== *)
theory OverlayMerge
  imports KvStore
begin

text \<open>
  \<^verbatim>\<open>merge_overlay_stream\<close> of \<^verbatim>\<open>shamir-storage/src/core/types.rs\<close>: the generator
  that merges the sorted dirty entries of a write buffer into the sorted
  stream of the store beneath it, as a loop over explicit generator state, and
  its reference, the pointwise override of the store by the overlay.
\<close>

section \<open>Merging a dirty overlay into a scan\<close>

datatype slot = Live bytes | Tombstone

text \<open>The generator's buffers: the batch being filled and the items yielded so far.\<close>

type_synonym merge_state = "kv list \<times> record_stream"

definition merge_push :: "nat \<Rightarrow> kv \<Rightarrow> merge_state \<Rightarrow> merge_state" where
  "merge_push cap e st =
    (let out = fst st @ [e]
     in if cap \<le> length out then ([], snd st @ [Inr out]) else (out, snd st))"

definition push_slot :: "nat \<Rightarrow> record_key \<times> slot \<Rightarrow> merge_state \<Rightarrow> merge_state" where
  "push_slot cap e st = (case snd e of Live v \<Rightarrow> merge_push cap (fst e, v) st | Tombstone \<Rightarrow> st)"

definition comes_before :: "bool \<Rightarrow> record_key \<Rightarrow> record_key \<Rightarrow> bool" where
  "comes_before reverse a b = (if reverse then b < a else a < b)"

text \<open>\<^verbatim>\<open>while let Some((ok, _)) = ov.peek()\<close>: emit the overlay keys that sort before \<^verbatim>\<open>ik\<close>.\<close>

fun merge_before :: "nat \<Rightarrow> bool \<Rightarrow> record_key \<Rightarrow> (record_key \<times> slot) list \<Rightarrow> merge_state
    \<Rightarrow> (record_key \<times> slot) list \<times> merge_state" where
  "merge_before cap reverse ik [] st = ([], st)"
| "merge_before cap reverse ik (e # ov) st =
    (if comes_before reverse (fst e) ik then merge_before cap reverse ik ov (push_slot cap e st)
     else (e # ov, st))"

fun merge_batch :: "nat \<Rightarrow> bool \<Rightarrow> kv list \<Rightarrow> (record_key \<times> slot) list \<Rightarrow> merge_state
    \<Rightarrow> (record_key \<times> slot) list \<times> merge_state" where
  "merge_batch cap reverse [] ov st = (ov, st)"
| "merge_batch cap reverse (e # batch) ov st =
    (case merge_before cap reverse (fst e) ov st of
       (o' # ov', st') \<Rightarrow>
         if fst o' = fst e then merge_batch cap reverse batch ov' (push_slot cap o' st')
         else merge_batch cap reverse batch (o' # ov') (merge_push cap e st')
     | ([], st') \<Rightarrow> merge_batch cap reverse batch [] (merge_push cap e st'))"

fun merge_tail :: "nat \<Rightarrow> (record_key \<times> slot) list \<Rightarrow> merge_state \<Rightarrow> merge_state" where
  "merge_tail cap [] st = st"
| "merge_tail cap (e # ov) st = merge_tail cap ov (push_slot cap e st)"

fun merge_loop :: "nat \<Rightarrow> bool \<Rightarrow> record_stream \<Rightarrow> (record_key \<times> slot) list \<Rightarrow> merge_state \<Rightarrow> record_stream" where
  "merge_loop cap reverse [] ov st =
    (let (out, ys) = merge_tail cap ov st in if out = [] then ys else ys @ [Inr out])"
| "merge_loop cap reverse (Inl e # inner) ov st = snd st @ [Inl e]"
| "merge_loop cap reverse (Inr batch # inner) ov st =
    (let (ov', st') = merge_batch cap reverse batch ov st in merge_loop cap reverse inner ov' st')"

definition merge_overlay_stream :: "(record_key \<times> slot) list \<Rightarrow> record_stream \<Rightarrow> nat \<Rightarrow> bool \<Rightarrow> record_stream" where
  "merge_overlay_stream overlay inner batch_size reverse =
    merge_loop (max batch_size 1) reverse inner overlay ([], [])"

text \<open>The reference: the entries of the overlay that are live, and the entries of the store whose
  key the overlay does not mention, in key order.\<close>

fun lives :: "(record_key \<times> slot) list \<Rightarrow> kv list" where
  "lives [] = []"
| "lives ((k, Live v) # ov) = (k, v) # lives ov"
| "lives ((k, Tombstone) # ov) = lives ov"

fun merge_spec :: "bool \<Rightarrow> kv list \<Rightarrow> (record_key \<times> slot) list \<Rightarrow> kv list" where
  "merge_spec reverse [] ov = lives ov"
| "merge_spec reverse (e # inner) [] = e # merge_spec reverse inner []"
| "merge_spec reverse (e # inner) (o' # ov) =
    (if comes_before reverse (fst o') (fst e) then lives [o'] @ merge_spec reverse (e # inner) ov
     else if fst o' = fst e then lives [o'] @ merge_spec reverse inner ov
     else e # merge_spec reverse inner (o' # ov))"

section \<open>The generator computes the reference, in full batches\<close>

text \<open>What the generator's state stands for, and its shape: every batch yielded is full, the one
  being filled is not.\<close>

definition emitted :: "merge_state \<Rightarrow> kv list" where
  "emitted st = concat (map projr (snd st)) @ fst st"

definition merge_inv :: "nat \<Rightarrow> merge_state \<Rightarrow> bool" where
  "merge_inv cap st = ((\<forall>y \<in> set (snd st). isl y = False \<and> length (projr y) = cap) \<and> length (fst st) < cap)"

lemma chunks_full:
  "length b = n \<Longrightarrow> 0 < n \<Longrightarrow> chunks n (b @ xs) = b # chunks n xs"
  by (subst chunks.simps) auto

lemma chunks_emitted:
  assumes "merge_inv cap st"
  shows "map Inr (chunks cap (emitted st)) = snd st @ (if fst st = [] then [] else [Inr (fst st)])"
proof -
  have short: "chunks cap (fst st) = (if fst st = [] then [] else [fst st])"
    using assms by (subst chunks.simps) (auto simp: merge_inv_def)
  have full: "\<forall>y \<in> set ys. isl y = False \<and> length (projr y) = cap \<Longrightarrow>
      map Inr (chunks cap (concat (map projr ys) @ out)) = ys @ map Inr (chunks cap out)" for ys out
    using assms by (induction ys) (auto simp: chunks_full merge_inv_def)
  with assms short full[of "snd st" "fst st"] show ?thesis by (simp add: emitted_def merge_inv_def)
qed

lemma merge_push_inv [simp]: "merge_inv cap st \<Longrightarrow> merge_inv cap (merge_push cap e st)"
  by (auto simp: merge_inv_def merge_push_def Let_def)

lemma merge_push_emitted [simp]: "emitted (merge_push cap e st) = emitted st @ [e]"
  by (simp add: emitted_def merge_push_def Let_def)

lemma push_slot_inv [simp]: "merge_inv cap st \<Longrightarrow> merge_inv cap (push_slot cap o' st)"
  by (simp add: push_slot_def split: slot.split)

lemma push_slot_emitted [simp]: "emitted (push_slot cap o' st) = emitted st @ lives [o']"
  by (cases o'; cases "snd o'") (auto simp: push_slot_def)

lemma lives_append [simp]: "lives (xs @ ys) = lives xs @ lives ys"
  by (induction xs rule: lives.induct) auto

lemma lives_Cons: "lives (o' # ov) = lives [o'] @ lives ov"
  using lives_append[of "[o']" ov] by simp

lemma merge_before_spec:
  assumes "merge_before cap reverse ik ov st = (ov', st')" "merge_inv cap st"
  shows "merge_inv cap st' \<and> ov' = dropWhile (\<lambda>o'. comes_before reverse (fst o') ik) ov
    \<and> emitted st' = emitted st @ lives (takeWhile (\<lambda>o'. comes_before reverse (fst o') ik) ov)"
  using assms
proof (induction cap reverse ik ov st rule: merge_before.induct)
  case (2 cap reverse ik e ov st)
  then show ?case
    by (cases "comes_before reverse (fst e) ik") (auto simp: lives_Cons[of e "takeWhile _ _"])
qed auto

lemma merge_spec_before:
  "merge_spec r (e # inner) ov = lives (takeWhile (\<lambda>o'. comes_before r (fst o') (fst e)) ov)
    @ merge_spec r (e # inner) (dropWhile (\<lambda>o'. comes_before r (fst o') (fst e)) ov)"
  by (induction ov) (auto simp: lives_Cons[of _ "takeWhile _ _"])

lemma merge_batch_spec:
  assumes "merge_batch cap r batch ov st = (ov', st')" "merge_inv cap st"
  shows "merge_inv cap st' \<and> emitted st' @ merge_spec r rest ov' = emitted st @ merge_spec r (batch @ rest) ov"
  using assms
proof (induction batch arbitrary: ov st)
  case (Cons e batch)
  obtain ov1 st1 where b: "merge_before cap r (fst e) ov st = (ov1, st1)" by (rule prod.exhaust)
  note mb = merge_before_spec[OF b Cons.prems(2)]
  note sp = merge_spec_before[of r e "batch @ rest" ov]
  show ?case
  proof (cases ov1)
    case Nil
    with Cons.IH[of "[]" "merge_push cap e st1"] Cons.prems b mb sp show ?thesis by auto
  next
    case (Cons o1 ov2)
    then have dw: "dropWhile (\<lambda>o'. comes_before r (fst o') (fst e)) ov = o1 # ov2" using mb by simp
    then have nb: "\<not> comes_before r (fst o1) (fst e)" by (metis hd_dropWhile list.distinct(1) list.sel(1))
    have st1: "merge_inv cap st1"
        "emitted st1 = emitted st @ lives (takeWhile (\<lambda>o'. comes_before r (fst o') (fst e)) ov)"
      using mb by simp_all
    show ?thesis
      using Cons.IH[of ov2 "push_slot cap o1 st1"] Cons.IH[of "o1 # ov2" "merge_push cap e st1"]
        Cons.prems(1) b[unfolded Cons] st1 sp[unfolded dw] nb
      by (cases "fst o1 = fst e") auto
  qed
qed auto

lemma merge_tail_spec:
  "merge_inv cap st \<Longrightarrow> merge_inv cap (merge_tail cap ov st) \<and> emitted (merge_tail cap ov st) = emitted st @ lives ov"
  by (induction cap ov st rule: merge_tail.induct) (auto simp: lives_Cons[symmetric])

lemma merge_loop_spec:
  "merge_inv cap st \<Longrightarrow> merge_loop cap r (map Inr bs) ov st
    = map Inr (chunks cap (emitted st @ merge_spec r (concat bs) ov))"
proof (induction bs arbitrary: ov st)
  case Nil
  with merge_tail_spec[OF Nil, of ov] chunks_emitted[of cap "merge_tail cap ov st"] show ?case
    by (cases "merge_tail cap ov st") auto
next
  case (Cons b bs)
  obtain ov' st' where m: "merge_batch cap r b ov st = (ov', st')" by (rule prod.exhaust)
  with Cons.IH merge_batch_spec[OF m Cons.prems, of "concat bs"] show ?case by simp
qed

lemma merge_overlay_stream_eq:
  "merge_overlay_stream ov (map Inr bs) n r = map Inr (chunks (max n 1) (merge_spec r (concat bs) ov))"
  using merge_loop_spec[of "max n 1" "([], [])" r bs ov]
  by (simp add: merge_overlay_stream_def merge_inv_def emitted_def)

section \<open>The reference is the override of the store by the overlay\<close>

abbreviation in_order :: "bool \<Rightarrow> (record_key \<times> 'a) list \<Rightarrow> bool" where
  "in_order r xs \<equiv> sorted_wrt (\<lambda>x y. comes_before r (fst x) (fst y)) xs"

lemma comes_before_trans: "\<lbrakk>comes_before r a b; comes_before r b c\<rbrakk> \<Longrightarrow> comes_before r a c"
  by (auto simp: comes_before_def split: if_splits)

lemma comes_before_linear: "\<lbrakk>\<not> comes_before r a b; a \<noteq> b\<rbrakk> \<Longrightarrow> comes_before r b a"
  by (auto simp: comes_before_def split: if_splits)

lemma comes_before_irrefl [simp]: "\<not> comes_before r a a"
  by (simp add: comes_before_def)

lemma in_set_lives: "(k, v) \<in> set (lives ov) \<longleftrightarrow> (k, Live v) \<in> set ov"
  by (induction ov rule: lives.induct) auto

lemma fst_in_lives: "x \<in> set (lives ov) \<Longrightarrow> \<exists>o' \<in> set ov. fst o' = fst x"
  using in_set_lives[of "fst x" "snd x"] by force

lemma in_order_lives: "in_order r ov \<Longrightarrow> in_order r (lives ov)"
  by (induction ov rule: lives.induct) (auto dest!: fst_in_lives)

lemma merge_spec_keys:
  "x \<in> set (merge_spec r inner ov) \<Longrightarrow> x \<in> set inner \<or> (\<exists>o' \<in> set ov. fst o' = fst x)"
proof (induction r inner ov rule: merge_spec.induct)
  case (1 r ov)
  then show ?case using fst_in_lives by auto
next
  case (3 r e inner o' ov)
  then show ?case using fst_in_lives[of x "[o']"] by (auto split: if_splits)
qed auto

lemma merge_spec_in_order:
  "\<lbrakk>in_order r inner; in_order r ov\<rbrakk> \<Longrightarrow> in_order r (merge_spec r inner ov)"
proof (induction r inner ov rule: merge_spec.induct)
  case (2 r e inner)
  then show ?case by (auto dest!: merge_spec_keys)
next
  case (3 r e inner o' ov)
  have l: "fst x = fst o'" if "x \<in> set (lives [o'])" for x using fst_in_lives[OF that] by simp
  have lo: "in_order r (lives [o'])" by (rule in_order_lives) simp
  have e: "comes_before r (fst e) (fst y)" if "y \<in> set inner" for y using 3(4) that by simp
  have o: "comes_before r (fst o') (fst y)" if "y \<in> set ov" for y using 3(5) that by simp
  consider (first) "comes_before r (fst o') (fst e)" | (same) "fst o' = fst e"
    | (last) "comes_before r (fst e) (fst o')"
    using comes_before_linear by blast
  then show ?case
  proof cases
    case first
    have "comes_before r (fst o') (fst y)" if "y \<in> set (merge_spec r (e # inner) ov)" for y
      using merge_spec_keys[OF that] first e o comes_before_trans by (metis set_ConsD)
    with first 3(1,4,5) lo l show ?thesis by (simp add: sorted_wrt_append)
  next
    case same
    have "comes_before r (fst o') (fst y)" if "y \<in> set (merge_spec r inner ov)" for y
      using merge_spec_keys[OF that] same e o by metis
    with same 3(2,4,5) lo l show ?thesis by (simp add: sorted_wrt_append)
  next
    case last
    then have "\<not> comes_before r (fst o') (fst e)" "fst o' \<noteq> fst e"
      using comes_before_trans comes_before_irrefl by metis+
    moreover have "comes_before r (fst e) (fst y)" if "y \<in> set (merge_spec r inner (o' # ov))" for y
      using merge_spec_keys[OF that] last e o comes_before_trans by (metis set_ConsD)
    ultimately show ?thesis using 3(3,4,5) by simp
  qed
qed (simp add: in_order_lives)

lemma merge_spec_set:
  "\<lbrakk>in_order r inner; in_order r ov\<rbrakk> \<Longrightarrow>
    (k, v) \<in> set (merge_spec r inner ov) \<longleftrightarrow> (k, Live v) \<in> set ov \<or> ((k, v) \<in> set inner \<and> k \<notin> fst ` set ov)"
proof (induction r inner ov rule: merge_spec.induct)
  case (3 r e inner o' ov)
  have l: "(k, v) \<in> set (lives [o']) \<longleftrightarrow> o' = (k, Live v)" using in_set_lives[of k v "[o']"] by auto
  have e: "comes_before r (fst e) (fst y)" if "y \<in> set inner" for y using 3(4) that by simp
  have o: "comes_before r (fst o') (fst y)" if "y \<in> set ov" for y using 3(5) that by simp
  consider (first) "comes_before r (fst o') (fst e)" | (same) "fst o' = fst e"
    | (last) "comes_before r (fst e) (fst o')"
    using comes_before_linear by blast
  then show ?case
  proof cases
    case first
    then have "comes_before r (fst o') (fst y)" if "y \<in> set (e # inner)" for y
      using that e[of y] comes_before_trans[OF first, of "fst y"] by auto
    then have "fst o' \<noteq> k" if "(k, v) \<in> set (e # inner)" using that by fastforce
    with first 3(1)[OF first 3(4)] 3(5) l show ?thesis by auto
  next
    case same
    then have "fst o' \<noteq> k" if "(k, v) \<in> set inner" using e[OF that] by auto
    with same 3(2) 3(4,5) l show ?thesis by auto
  next
    case last
    then have n: "\<not> comes_before r (fst o') (fst e)" "fst o' \<noteq> fst e"
      using comes_before_trans[OF last, of "fst e"] by auto
    have "comes_before r (fst e) (fst y)" if "y \<in> set (o' # ov)" for y
      using that o[of y] comes_before_trans[OF last, of "fst y"] last by auto
    then have "fst e \<notin> fst ` set (o' # ov)" by fastforce
    with n 3(3)[OF n] 3(4,5) show ?thesis by auto
  qed
qed (auto simp: in_set_lives)

section \<open>Properties\<close>

text \<open>C4: Merging a sorted overlay of dirty entries into the sorted stream of the store yields, in
  batches of the requested size (at least one) and in the requested direction, exactly the store
  overridden by the overlay: a live overlay entry wins over the stored one, a tombstone hides it,
  and every other stored entry stands.\<close>

theorem merge_overlay_stream_correct:
  assumes "in_order reverse overlay" and "in_order reverse (concat bs)"
  shows "\<exists>out. merge_overlay_stream overlay (map Inr bs) n reverse = map Inr (chunks (max n 1) out)
    \<and> in_order reverse out
    \<and> (\<forall>k v. (k, v) \<in> set out \<longleftrightarrow>
        (k, Live v) \<in> set overlay \<or> ((k, v) \<in> set (concat bs) \<and> k \<notin> fst ` set overlay))"
  using merge_overlay_stream_eq[of overlay bs n reverse] merge_spec_in_order[OF assms(2,1)]
    merge_spec_set[OF assms(2,1)]
  by blast

theorem merge_overlay_stream_correct_witness:
  "\<exists>out. merge_overlay_stream [([1], Tombstone), ([2], Live [9])] (map Inr [[([1], [7]), ([2], [7])], [([3], [7])]]) 1 False
      = map Inr (chunks 1 out)
    \<and> ([1], [7]) \<notin> set out \<and> ([2], [9]) \<in> set out \<and> ([3], [7]) \<in> set out"
proof -
  let ?ov = "[([1], Tombstone), ([2], Live [9])]" and ?bs = "[[([1], [7]), ([2], [7])], [([3], [7])]]"
  have "in_order False ?ov" "in_order False (concat ?bs)" by (simp_all add: comes_before_def)
  from merge_overlay_stream_correct[OF this, of 1] show ?thesis
    by (elim exE conjE) (rule exI, intro conjI, simp, auto)
qed

end
