(* ===== verification/MemRepo.thy ===== *)
theory MemRepo
  imports KvStore
begin

text \<open>
  The in-memory repository of \<^verbatim>\<open>shamir-storage/src/stores/storage_in_memory.rs\<close>:
  named stores created on first use, \<^verbatim>\<open>copy_store\<close> (the trait's default), and
  the repository-wide atomic batch, staged as a list of operations and applied
  by \<^verbatim>\<open>commit\<close>.
\<close>

type_synonym repo = "string \<rightharpoonup> store"

datatype atomic_commit_outcome = Committed | Uncertain string

definition repo_store_get :: "string \<Rightarrow> repo \<Rightarrow> store \<times> repo" where
  "repo_store_get name r = (case r name of Some s \<Rightarrow> (s, r) | None \<Rightarrow> ([], r(name \<mapsto> [])))"

definition repo_store_delete :: "string \<Rightarrow> repo \<Rightarrow> bool \<times> repo" where
  "repo_store_delete name r = (r name \<noteq> None, r(name := None))"

type_synonym staged = "(string \<times> kv_op) list"

definition batch_set :: "string \<Rightarrow> record_key \<Rightarrow> bytes \<Rightarrow> staged \<Rightarrow> staged db_result" where
  "batch_set store key value ops =
    (if store = [] then Inl (Validation ''atomic batch: store name must not be empty'')
     else Inr (ops @ [(store, KvSet key value)]))"

definition batch_delete :: "string \<Rightarrow> record_key \<Rightarrow> staged \<Rightarrow> staged db_result" where
  "batch_delete store key ops =
    (if store = [] then Inl (Validation ''atomic batch: store name must not be empty'')
     else Inr (ops @ [(store, KvRemove key)]))"

definition commit_op :: "string \<times> kv_op \<Rightarrow> repo \<Rightarrow> repo" where
  "commit_op nop r =
    (let (s, r') = repo_store_get (fst nop) r
     in case snd nop of
          KvSet k v \<Rightarrow> r'(fst nop \<mapsto> upsert_sync k v s)
        | KvRemove k \<Rightarrow> r'(fst nop \<mapsto> snd (remove_sync k s)))"

definition batch_commit :: "staged \<Rightarrow> repo \<Rightarrow> atomic_commit_outcome db_result \<times> repo" where
  "batch_commit ops r = (Inr Committed, fold commit_op ops r)"

text \<open>\<^verbatim>\<open>copy_store\<close> streams the source in batches of 256 and upserts each into the destination.\<close>

fun copy_batches :: "record_stream \<Rightarrow> store \<Rightarrow> unit db_result \<times> store" where
  "copy_batches [] dst = (Inr (), dst)"
| "copy_batches (Inl e # bs) dst = (Inl e, dst)"
| "copy_batches (Inr batch # bs) dst =
    (if batch = [] then copy_batches bs dst
     else case set_many store_set batch dst of
            (Inr _, dst') \<Rightarrow> copy_batches bs dst'
          | (Inl e, dst') \<Rightarrow> (Inl e, dst'))"

definition copy_store :: "string \<Rightarrow> string \<Rightarrow> repo \<Rightarrow> unit db_result \<times> repo" where
  "copy_store from to r =
    (let (src, r1) = repo_store_get from r;
         (dst, r2) = repo_store_get to r1;
         (res, dst') = copy_batches (iter_stream 256 src) dst
     in (res, r2(to \<mapsto> dst')))"

section \<open>What a repository holds\<close>

definition repo_ok :: "repo \<Rightarrow> bool" where
  "repo_ok r = (\<forall>name s. r name = Some s \<longrightarrow> ti_ok s)"

definition repo_lookup :: "repo \<Rightarrow> string \<Rightarrow> record_key \<Rightarrow> bytes option" where
  "repo_lookup r name k = (case r name of None \<Rightarrow> None | Some s \<Rightarrow> map_of s k)"

fun op_key :: "kv_op \<Rightarrow> record_key" where
  "op_key (KvSet k v) = k" | "op_key (KvRemove k) = k"

fun op_val :: "kv_op \<Rightarrow> bytes option" where
  "op_val (KvSet k v) = Some v" | "op_val (KvRemove k) = None"

lemma repo_ok_upd [simp]: "repo_ok r \<Longrightarrow> ti_ok s \<Longrightarrow> repo_ok (r(name \<mapsto> s))"
  by (simp add: repo_ok_def)

lemma repo_ok_empty [simp]: "repo_ok Map.empty"
  by (simp add: repo_ok_def)

lemma repo_lookup_upd [simp]: "repo_lookup (r(name \<mapsto> s)) = (repo_lookup r)(name := map_of s)"
  by (auto simp: repo_lookup_def fun_eq_iff)

lemma repo_lookup_empty [simp]: "repo_lookup Map.empty = (\<lambda>_. Map.empty)"
  by (simp add: repo_lookup_def fun_eq_iff)

lemma repo_store_get_spec:
  assumes "repo_ok r" and "repo_store_get name r = (s, r')"
  shows "ti_ok s \<and> repo_ok r' \<and> r' name = Some s \<and> map_of s = repo_lookup r name \<and> repo_lookup r' = repo_lookup r"
proof (cases "r name")
  case None
  then have "s = []" "r' = r(name \<mapsto> [])" using assms by (simp_all add: repo_store_get_def)
  with None assms show ?thesis by (auto simp: repo_ok_def repo_lookup_def intro!: ext)
next
  case (Some t)
  then have "s = t" "r' = r" using assms by (simp_all add: repo_store_get_def)
  with Some assms show ?thesis by (auto simp: repo_ok_def repo_lookup_def intro!: ext)
qed

lemma commit_op_spec:
  assumes "repo_ok r"
  shows "repo_ok (commit_op (n, op) r) \<and> repo_lookup (commit_op (n, op) r) =
    (repo_lookup r)(n := (repo_lookup r n)(op_key op := op_val op))"
proof -
  obtain s r' where g: "repo_store_get n r = (s, r')" by (rule prod.exhaust)
  note sp = repo_store_get_spec[OF assms g]
  show ?thesis
    using sp g by (cases op) (simp_all add: commit_op_def)
qed

lemma fold_commit_spec:
  "repo_ok r \<Longrightarrow> repo_ok (fold commit_op ops r) \<and> repo_lookup (fold commit_op ops r) n k =
    (case find (\<lambda>nop. fst nop = n \<and> op_key (snd nop) = k) (rev ops) of
       None \<Rightarrow> repo_lookup r n k
     | Some nop \<Rightarrow> op_val (snd nop))"
proof (induction ops rule: rev_induct)
  case (snoc x ops)
  with commit_op_spec[of "fold commit_op ops r" "fst x" "snd x"] show ?case by auto
qed simp

lemma fold_set_distinct:
  "distinct (map fst xs) \<Longrightarrow> fold (\<lambda>e. apply_op (KvSet (fst e) (snd e))) xs m = m ++ map_of xs"
proof (induction xs arbitrary: m)
  case (Cons e xs)
  then have "map_of xs (fst e) = None" by (simp add: map_of_eq_None_iff)
  with Cons show ?case
    by (cases e) (auto simp: map_add_def fun_eq_iff split: option.splits)
qed simp

lemma copy_batches_spec:
  assumes "ti_ok dst"
  obtains dst' where "copy_batches (map Inr bs) dst = (Inr (), dst')" "ti_ok dst'"
    "map_of dst' = fold (\<lambda>e. apply_op (KvSet (fst e) (snd e))) (concat bs) (map_of dst)"
  using assms
proof (induction bs arbitrary: dst thesis)
  case (Cons b bs)
  obtain fl dst1 where d1: "set_many store_set b dst = (Inr fl, dst1)" "ti_ok dst1"
      "map_of dst1 = fold (\<lambda>e. apply_op (KvSet (fst e) (snd e))) b (map_of dst)"
    using mem.set_many_eq[OF Cons.prems(2), unfolded mem_store_simps] .
  obtain dst' where d2: "copy_batches (map Inr bs) dst1 = (Inr (), dst')" "ti_ok dst'"
      "map_of dst' = fold (\<lambda>e. apply_op (KvSet (fst e) (snd e))) (concat bs) (map_of dst1)"
    using Cons.IH[OF _ d1(2)] .
  show ?case
    by (rule Cons.prems(1)[of dst']) (use d1 d2 in \<open>auto simp del: apply_op.simps\<close>)
qed simp

section \<open>Properties\<close>

text \<open>C8: A committed atomic batch leaves every key of every store with the last operation staged for
  it, and every other key of the repository as it was; the stores stay well-formed.\<close>

theorem batch_commit_last_write:
  assumes "repo_ok r" and "batch_commit ops r = (res, r')"
  shows "res = Inr Committed \<and> repo_ok r' \<and>
    repo_lookup r' n k =
      (case find (\<lambda>nop. fst nop = n \<and> op_key (snd nop) = k) (rev ops) of
         None \<Rightarrow> repo_lookup r n k
       | Some nop \<Rightarrow> op_val (snd nop))"
  using assms fold_commit_spec[OF assms(1), of ops n k] by (auto simp: batch_commit_def)

theorem batch_commit_last_write_witness:
  "repo_lookup (snd (batch_commit [(''a'', KvSet [1] [5]), (''b'', KvSet [1] [7]), (''a'', KvRemove [1])]
      (Map.empty(''a'' \<mapsto> [([1], [9])])))) ''a'' [1] = None"
  using batch_commit_last_write[of "Map.empty(''a'' \<mapsto> [([1], [9])])"
      "[(''a'', KvSet [1] [5]), (''b'', KvSet [1] [7]), (''a'', KvRemove [1])]" _ _ "''a''" "[1]",
      OF _ prod.collapse[symmetric]]
  by (simp add: ti_ok_def)

text \<open>\<^verbatim>\<open>copy_store\<close> succeeds and merges the source into the destination: matching keys take the
  source's value, other keys of the destination stay, and no other store changes.\<close>

theorem copy_store_merges:
  assumes "repo_ok r"
  shows "\<exists>r'. copy_store from to r = (Inr (), r') \<and> repo_ok r'
    \<and> repo_lookup r' = (repo_lookup r)(to := repo_lookup r to ++ repo_lookup r from)"
proof -
  obtain src r1 where 1: "repo_store_get from r = (src, r1)" by (rule prod.exhaust)
  note s1 = repo_store_get_spec[OF assms 1]
  obtain dst r2 where 2: "repo_store_get to r1 = (dst, r2)" by (rule prod.exhaust)
  note s2 = repo_store_get_spec[OF conjunct1[OF conjunct2[OF s1]] 2]
  obtain dst' where d: "copy_batches (map Inr (chunks 256 src)) dst = (Inr (), dst')" "ti_ok dst'"
      "map_of dst' = fold (\<lambda>e. apply_op (KvSet (fst e) (snd e))) (concat (chunks 256 src)) (map_of dst)"
    by (rule copy_batches_spec[OF conjunct1[OF s2]])
  have "map_of dst' = map_of dst ++ map_of src"
    using d(3) s1 by (simp add: fold_set_distinct ti_ok_distinct)
  moreover have "repo_ok (r2(to \<mapsto> dst'))" "repo_lookup (r2(to \<mapsto> dst')) = (repo_lookup r)(to := map_of dst')"
    using s1 s2 d(2) by simp_all
  ultimately show ?thesis
    using 1 2 d(1) s1 s2 by (simp add: copy_store_def iter_stream_eq)
qed

theorem copy_store_merges_witness:
  "\<exists>r'. copy_store ''t'' ''u'' (Map.empty(''t'' \<mapsto> [([1], [5])], ''u'' \<mapsto> [([1], [6]), ([2], [7])])) = (Inr (), r')
    \<and> repo_lookup r' ''u'' [1] = Some [5] \<and> repo_lookup r' ''u'' [2] = Some [7]"
  using copy_store_merges[of "Map.empty(''t'' \<mapsto> [([1], [5])], ''u'' \<mapsto> [([1], [6]), ([2], [7])])" "''t''" "''u''"]
  by (auto simp: ti_ok_def)

end
