(* ===== verification/SortCodec.thy ===== *)
theory SortCodec
  imports Prelude
begin

text \<open>
  The order-preserving scalar encoding of
  \<^verbatim>\<open>shamir-types/src/core/sort_codec.rs\<close>, the posting-key layout of
  \<^verbatim>\<open>sorted_index_layout.rs\<close> and the scalar dispatch of the sorted index
  (\<^verbatim>\<open>covering.rs, extract_and_encode\<close>).  Each encoder takes the buffer it
  appends to, as in the source.  The locale \<^verbatim>\<open>order_codec\<close> is the contract
  the index relies on: the encoding of a smaller value stays smaller whatever
  bytes follow.  Floats are their 64 bits; \<^verbatim>\<open>f64_num\<close> is the number the bits
  denote, in units of \<open>2 ^ -1075\<close> (an infinity is the first number above every
  finite one), so the order theorems speak of numeric values.
\<close>

section \<open>Encoders\<close>

definition TAG_NULL :: u8 where "TAG_NULL = 0x10"
definition TAG_BOOL :: u8 where "TAG_BOOL = 0x20"
definition TAG_I64 :: u8 where "TAG_I64 = 0x30"
definition TAG_U64 :: u8 where "TAG_U64 = 0x35"
definition TAG_F64 :: u8 where "TAG_F64 = 0x40"
definition TAG_STR :: u8 where "TAG_STR = 0x50"
definition TAG_BYTES :: u8 where "TAG_BYTES = 0x60"

lemmas tag_defs = TAG_NULL_def TAG_BOOL_def TAG_I64_def TAG_U64_def TAG_F64_def TAG_STR_def
  TAG_BYTES_def

datatype sort_codec_error = NaN

definition encode_null :: "bytes \<Rightarrow> bytes" where
  "encode_null buf = buf @ [TAG_NULL]"

definition encode_bool :: "bytes \<Rightarrow> bool \<Rightarrow> bytes" where
  "encode_bool buf b = buf @ [TAG_BOOL] @ [if b then 1 else 0]"

definition encode_i64 :: "bytes \<Rightarrow> i64 \<Rightarrow> bytes" where
  "encode_i64 buf v = (let bits = v XOR sign64 in buf @ [TAG_I64] @ be64 bits)"

definition encode_u64 :: "bytes \<Rightarrow> u64 \<Rightarrow> bytes" where
  "encode_u64 buf v = buf @ [TAG_U64] @ be64 v"

text \<open>IEEE-754 binary64 by its bits: \<^verbatim>\<open>is_nan\<close> is an all-ones exponent with a non-zero fraction.\<close>

definition f64_is_nan :: "u64 \<Rightarrow> bool" where
  "f64_is_nan v = (0x7FF0000000000000 < unat v mod 2 ^ 63)"

definition encode_f64 :: "bytes \<Rightarrow> u64 \<Rightarrow> sort_codec_error + bytes" where
  "encode_f64 buf v =
    (if f64_is_nan v then Inl NaN
     else let bits = (if drop_bit 63 v AND 1 = 1 then NOT v else v XOR sign64)
          in Inr (buf @ [TAG_F64] @ be64 bits))"

text \<open>
  The copy loop of \<^verbatim>\<open>encode_str\<close> and \<^verbatim>\<open>encode_bytes\<close>: \<^verbatim>\<open>start\<close> is the first byte
  not yet copied, a zero byte at \<^verbatim>\<open>i\<close> copies the run before it and its escape.
\<close>

fun escape_loop :: "bytes \<Rightarrow> nat \<Rightarrow> nat \<Rightarrow> bytes \<Rightarrow> bytes \<Rightarrow> bytes \<times> nat" where
  "escape_loop bs i start [] buf = (buf, start)"
| "escape_loop bs i start (b # rest) buf =
    (if b = 0 then escape_loop bs (i + 1) (i + 1) rest (buf @ slice start i bs @ [0x00] @ [0x01])
     else escape_loop bs (i + 1) start rest buf)"

definition encode_str :: "bytes \<Rightarrow> bytes \<Rightarrow> bytes" where
  "encode_str buf s =
    (let (buf', start) = escape_loop s 0 0 s (buf @ [TAG_STR])
     in buf' @ slice start (length s) s @ [0x00] @ [0x00])"

definition encode_bytes :: "bytes \<Rightarrow> bytes \<Rightarrow> bytes" where
  "encode_bytes buf b =
    (let (buf', start) = escape_loop b 0 0 b (buf @ [TAG_BYTES])
     in buf' @ slice start (length b) b @ [0x00] @ [0x00])"

text \<open>The scalars a record view yields to the index, and the dispatch of \<^verbatim>\<open>extract_and_encode\<close>
  on the one found at the field path (\<^const>\<open>None\<close>: the record is not indexed).\<close>

datatype scalar_ref = Null | Bool bool | Int64 i64 | F64 u64 | Str bytes | Bin bytes

fun extract_and_encode :: "scalar_ref option \<Rightarrow> bytes option" where
  "extract_and_encode None = None"
| "extract_and_encode (Some sr) =
    (case sr of
       Null \<Rightarrow> Some (encode_null [])
     | Bool b \<Rightarrow> Some (encode_bool [] b)
     | Int64 i \<Rightarrow> Some (encode_i64 [] i)
     | F64 f \<Rightarrow> (case encode_f64 [] f of Inl _ \<Rightarrow> None | Inr buf \<Rightarrow> Some buf)
     | Str s \<Rightarrow> Some (encode_str [] s)
     | Bin b \<Rightarrow> Some (encode_bytes [] b))"

section \<open>Posting keys\<close>

definition SORTED_TAG :: u8 where "SORTED_TAG = 0x80"

definition sorted_prefix :: "u64 \<Rightarrow> bytes" where
  "sorted_prefix index_id = SORTED_TAG # be64 index_id"

definition inclusive_hi_suffix :: bytes where
  "inclusive_hi_suffix = replicate 16 0xFF"

definition sorted_posting_key :: "u64 \<Rightarrow> bytes \<Rightarrow> bytes \<Rightarrow> bytes" where
  "sorted_posting_key index_id encoded_value rid = sorted_prefix index_id @ encoded_value @ rid"

section \<open>The escape loop copies the escaped string\<close>

text \<open>The specification of the loop: every zero byte gets a one behind it.\<close>

fun escape :: "bytes \<Rightarrow> bytes" where
  "escape [] = []"
| "escape (b # bs) = (if b = 0 then 0 # 1 # escape bs else b # escape bs)"

lemma escape_loop_spec:
  assumes "bs = done @ rest" and "i = length done" and "start \<le> i"
    and "escape_loop bs i start rest buf = (buf', start')"
  shows "buf' @ slice start' (length bs) bs = buf @ slice start i bs @ escape rest \<and> start' \<le> length bs"
  using assms
proof (induction rest arbitrary: "done" i start buf)
  case Nil
  then show ?case by auto
next
  case (Cons b rest)
  have i: "i < length bs" "bs ! i = b" using Cons.prems by (auto simp: nth_append)
  have split: "bs = (done @ [b]) @ rest" using Cons.prems by simp
  show ?case
  proof (cases "b = 0")
    case True
    with Cons.IH[OF split, of "i + 1" "i + 1"] Cons.prems show ?thesis by auto
  next
    case False
    with Cons.IH[OF split, of "i + 1" start] Cons.prems i show ?thesis
      by (auto simp: slice_snoc)
  qed
qed

lemma encode_str_eq: "encode_str buf s = buf @ [TAG_STR] @ escape s @ [0, 0]"
  using escape_loop_spec[of s "[]" s 0 0 "buf @ [TAG_STR]"]
  by (cases "escape_loop s 0 0 s (buf @ [TAG_STR])") (auto simp: encode_str_def)

lemma encode_bytes_eq: "encode_bytes buf s = buf @ [TAG_BYTES] @ escape s @ [0, 0]"
  using escape_loop_spec[of s "[]" s 0 0 "buf @ [TAG_BYTES]"]
  by (cases "escape_loop s 0 0 s (buf @ [TAG_BYTES])") (auto simp: encode_bytes_def)

lemma escape_less:
  "xs < ys \<Longrightarrow> escape xs @ [0, 0] @ s < escape ys @ [0, 0] @ (t :: bytes)"
proof (induction xs arbitrary: ys)
  case Nil
  then show ?case by (cases ys) (auto simp: word_gt_0)
next
  case (Cons x xs)
  then show ?case by (cases ys) (auto simp: word_gt_0 split: if_splits)
qed

section \<open>The codec contract\<close>

text \<open>
  What a sorted index needs of a value encoding, for the values \<^verbatim>\<open>ok\<close> it accepts
  and their order \<^verbatim>\<open>lt\<close>: a smaller value is smaller under every pair of suffixes.
\<close>

locale order_codec =
  fixes ok :: "'a \<Rightarrow> bool" and lt :: "'a \<Rightarrow> 'a \<Rightarrow> bool" and enc :: "'a \<Rightarrow> bytes"
  assumes enc_less: "\<lbrakk>ok a; ok b; lt a b\<rbrakk> \<Longrightarrow> enc a @ s < enc b @ t"
    and lt_total: "\<lbrakk>ok a; ok b; a \<noteq> b\<rbrakk> \<Longrightarrow> lt a b \<or> lt b a"
begin

lemma lt_irrefl: "ok a \<Longrightarrow> \<not> lt a a"
  using enc_less[of a a "[]" "[]"] by auto

lemma lt_asym: "\<lbrakk>ok a; ok b; lt a b\<rbrakk> \<Longrightarrow> \<not> lt b a"
  using enc_less[of a b "[]" "[]"] enc_less[of b a "[]" "[]"] by auto

lemma less_iff: 
  assumes "ok a" "ok b"
  shows "enc a @ s < enc b @ t \<longleftrightarrow> lt a b \<or> (a = b \<and> s < t)"
proof (cases "a = b")
  case True
  with lt_irrefl assms show ?thesis by auto
next
  case False
  with lt_total[OF assms] enc_less[OF assms, of s t] enc_less[OF assms(2,1), of t s] show ?thesis
    by (meson less_asym)
qed

lemma prefix_free:
  assumes "ok a" "ok b" "enc a @ s = enc b @ t"
  shows "a = b \<and> s = t"
proof -
  have "a = b"
    using lt_total[OF assms(1,2)] enc_less[OF assms(1,2), of s t] enc_less[OF assms(2,1), of t s] assms(3)
    by auto
  with assms(3) show ?thesis by simp
qed

lemma le_iff:
  assumes "ok a" "ok b"
  shows "enc a @ s \<le> enc b @ t \<longleftrightarrow> lt a b \<or> (a = b \<and> s \<le> t)"
  using less_iff[OF assms, of s t] prefix_free[OF assms, of s t] by (auto simp: le_less)

text \<open>The two inclusive bounds of a range scan select the values between them.\<close>

lemma between_iff:
  assumes ok: "ok lo" "ok a" "ok hi" and "rid \<le> hs"
  shows "enc lo \<le> enc a @ rid \<and> enc a @ rid \<le> enc hi @ hs
    \<longleftrightarrow> \<not> lt a lo \<and> \<not> lt hi a"
proof -
  have "enc lo \<le> enc a @ rid \<longleftrightarrow> \<not> lt a lo"
    using le_iff[OF ok(1,2), of "[]" rid] lt_total[OF ok(1,2)] lt_asym[OF ok(1,2)] lt_irrefl ok by auto
  moreover have "enc a @ rid \<le> enc hi @ hs \<longleftrightarrow> \<not> lt hi a"
    using le_iff[OF ok(2,3), of rid hs] lt_total[OF ok(2,3)] lt_asym[OF ok(2,3)] lt_irrefl assms by auto
  ultimately show ?thesis by blast
qed

end

text \<open>The fixed-width and the escaped encodings.\<close>

interpretation u64c: order_codec "\<lambda>_. True" "(<)" "encode_u64 []"
  by unfold_locales (auto simp: encode_u64_def less_append_eq_length)

interpretation boolc: order_codec "\<lambda>_. True" "(<)" "encode_bool []"
  by unfold_locales (auto simp: encode_bool_def)

interpretation strc: order_codec "\<lambda>_. True" "(<)" "encode_str []"
  using escape_less by unfold_locales (auto simp: encode_str_eq)

interpretation binc: order_codec "\<lambda>_. True" "(<)" "encode_bytes []"
  using escape_less by unfold_locales (auto simp: encode_bytes_eq)

lemma flip63_nat:
  "\<lbrakk>x < 2 ^ 64; y < 2 ^ 64\<rbrakk> \<Longrightarrow>
    ((if 2 ^ 63 \<le> x then x - 2 ^ 63 else x + 2 ^ 63) < (if 2 ^ 63 \<le> y then y - 2 ^ 63 else y + 2 ^ 63))
    = ((if 2 ^ 63 \<le> x then int x - 2 ^ 64 else int x) < (if 2 ^ 63 \<le> y then int y - 2 ^ 64 else int y))"
  for x y :: nat
  by auto

lemma flip63_less: "v XOR sign64 < w XOR sign64 \<longleftrightarrow> sint v < sint w"
  unfolding word_less_nat_alt unat_flip63 sint_u64
  by (rule flip63_nat) (use unat_less_pow[of v] unat_less_pow[of w] in simp_all)

interpretation i64c: order_codec "\<lambda>_. True" "\<lambda>v w. sint v < sint w" "encode_i64 []"
proof unfold_locales
  show "encode_i64 [] a @ s < encode_i64 [] b @ t" if "sint a < sint b" for a b s t
    using that by (simp add: encode_i64_def less_append_eq_length flip63_less)
  show "sint a < sint b \<or> sint b < sint a" if "a \<noteq> b" for a b :: i64
    using that by (metis linorder_neqE signed_word_eqI)
qed

section \<open>Floats sort numerically\<close>

text \<open>The magnitude denoted by the 63 low bits: exponent field \<^verbatim>\<open>k div 2^52\<close>, fraction
  \<^verbatim>\<open>k mod 2^52\<close>, subnormals at exponent zero; in units of \<open>2 ^ -1075\<close>.\<close>

definition f64_mag :: "nat \<Rightarrow> nat" where
  "f64_mag k = (let e = k div 2 ^ 52; f = k mod 2 ^ 52
                in if e = 0 then 2 * f else (2 ^ 52 + f) * 2 ^ e)"

definition f64_neg :: "u64 \<Rightarrow> bool" where
  "f64_neg v = (2 ^ 63 \<le> unat v)"

definition f64_num :: "u64 \<Rightarrow> int" where
  "f64_num v = (let m = int (f64_mag (unat v mod 2 ^ 63)) in if f64_neg v then - m else m)"

text \<open>The order the encoding realises: numeric, the negative zero before the positive one.\<close>

definition f64_less :: "u64 \<Rightarrow> u64 \<Rightarrow> bool" where
  "f64_less v w = (f64_num v < f64_num w \<or> (f64_num v = f64_num w \<and> f64_neg v \<and> \<not> f64_neg w))"

lemma f64_mag_Suc: "f64_mag k < f64_mag (Suc k)"
proof (cases "Suc (k mod 2 ^ 52) = 2 ^ 52")
  case True
  then have "Suc k div 2 ^ 52 = Suc (k div 2 ^ 52)" "Suc k mod 2 ^ 52 = 0"
    by (simp_all add: div_Suc mod_Suc)
  with True show ?thesis by (simp add: f64_mag_def Let_def)
next
  case False
  then have "Suc k div 2 ^ 52 = k div 2 ^ 52" "Suc k mod 2 ^ 52 = Suc (k mod 2 ^ 52)"
    by (simp_all add: div_Suc mod_Suc)
  then show ?thesis by (simp add: f64_mag_def Let_def)
qed

lemma f64_mag_less [simp]: "f64_mag j < f64_mag k \<longleftrightarrow> j < k"
  using lift_Suc_mono_less_iff[of f64_mag, OF f64_mag_Suc] .

lemma f64_mag_eq [simp]: "f64_mag j = f64_mag k \<longleftrightarrow> j = k"
  by (metis f64_mag_less linorder_neqE_nat less_irrefl)

definition f64_sortable :: "u64 \<Rightarrow> u64" where
  "f64_sortable v = (if drop_bit 63 v AND 1 = 1 then NOT v else v XOR sign64)"

lemma sign_test: "drop_bit 63 v AND 1 = 1 \<longleftrightarrow> f64_neg v"
proof -
  have "drop_bit 63 v AND 1 = of_bool (bit v 63)"
    by (simp add: and_one_eq bit_iff_odd_drop_bit mod_2_eq_odd)
  then show ?thesis by (simp add: bit63_iff f64_neg_def)
qed

lemma unat_f64_sortable:
  "unat (f64_sortable v) = (if f64_neg v then 2 ^ 64 - 1 - unat v else unat v + 2 ^ 63)"
  by (simp add: f64_sortable_def sign_test unat_not_u64 unat_flip63) (simp add: f64_neg_def)

lemma unat_split63: "unat v = unat v mod 2 ^ 63 + (if f64_neg v then 2 ^ 63 else 0)"
proof (cases "f64_neg v")
  case True
  then have "(unat v - 2 ^ 63) mod 2 ^ 63 = unat v mod 2 ^ 63"
    by (simp add: f64_neg_def mod_if[of "unat v"])
  with True unat_less_pow[of v] show ?thesis by (simp add: f64_neg_def)
qed (simp add: f64_neg_def)

lemma f64_sortable_less:
  assumes "f64_less v w"
  shows "f64_sortable v < f64_sortable w"
proof -
  have lt: "unat v mod 2 ^ 63 < 2 ^ 63" "unat w mod 2 ^ 63 < 2 ^ 63" by simp_all
  show ?thesis
    using assms lt unat_split63[of v] unat_split63[of w]
    by (simp add: word_less_nat_alt unat_f64_sortable f64_less_def f64_num_def Let_def split: if_splits)
qed

lemma f64_less_total:
  assumes "v \<noteq> w"
  shows "f64_less v w \<or> f64_less w v"
proof (rule ccontr)
  assume "\<not> ?thesis"
  then have eq: "f64_num v = f64_num w" "f64_neg v = f64_neg w" by (auto simp: f64_less_def)
  then have "unat v mod 2 ^ 63 = unat w mod 2 ^ 63" by (simp add: f64_num_def Let_def split: if_splits)
  with eq unat_split63[of v] unat_split63[of w] have "unat v = unat w" by simp
  with assms show False by (simp add: word_unat_eq_iff)
qed

lemma encode_f64_eq:
  "encode_f64 buf v = (if f64_is_nan v then Inl NaN else Inr (buf @ [TAG_F64] @ be64 (f64_sortable v)))"
  by (simp add: encode_f64_def f64_sortable_def Let_def)

lemma f64_enc_less: "f64_less v w \<Longrightarrow> be64 (f64_sortable v) @ s < be64 (f64_sortable w) @ t"
  by (simp add: less_append_eq_length f64_sortable_less)

interpretation f64c: order_codec "\<lambda>v. \<not> f64_is_nan v" f64_less "\<lambda>v. projr (encode_f64 [] v)"
  using f64_enc_less f64_less_total by unfold_locales (auto simp: encode_f64_eq)

section \<open>All scalars in one index\<close>

definition indexable :: "scalar_ref \<Rightarrow> bool" where
  "indexable sr = (extract_and_encode (Some sr) \<noteq> None)"

fun scalar_rank :: "scalar_ref \<Rightarrow> nat" where
  "scalar_rank Null = 0"
| "scalar_rank (Bool _) = 1"
| "scalar_rank (Int64 _) = 2"
| "scalar_rank (F64 _) = 3"
| "scalar_rank (Str _) = 4"
| "scalar_rank (Bin _) = 5"

text \<open>The native order of each type; values of different types by the type's rank.\<close>

fun scalar_less :: "scalar_ref \<Rightarrow> scalar_ref \<Rightarrow> bool" where
  "scalar_less (Bool a) (Bool b) = (a < b)"
| "scalar_less (Int64 a) (Int64 b) = (sint a < sint b)"
| "scalar_less (F64 a) (F64 b) = f64_less a b"
| "scalar_less (Str a) (Str b) = (a < b)"
| "scalar_less (Bin a) (Bin b) = (a < b)"
| "scalar_less a b = (scalar_rank a < scalar_rank b)"

abbreviation scalar_enc :: "scalar_ref \<Rightarrow> bytes" where
  "scalar_enc sr \<equiv> the (extract_and_encode (Some sr))"

lemma indexable_simps [simp]:
  "indexable Null" "indexable (Bool b)" "indexable (Int64 i)" "indexable (Str s)" "indexable (Bin s)"
  "indexable (F64 f) \<longleftrightarrow> \<not> f64_is_nan f"
  by (simp_all add: indexable_def encode_f64_eq)

lemma extract_and_encode_Some:
  "extract_and_encode (Some sr) = Some e \<longleftrightarrow> indexable sr \<and> e = scalar_enc sr"
  by (auto simp: indexable_def)

lemmas encoder_eqs = encode_null_def encode_bool_def encode_i64_def encode_f64_eq encode_str_eq
  encode_bytes_eq

lemma scalar_enc_tag:
  "indexable sr \<Longrightarrow> scalar_enc sr =
    [TAG_NULL, TAG_BOOL, TAG_I64, TAG_F64, TAG_STR, TAG_BYTES] ! scalar_rank sr # tl (scalar_enc sr)"
  by (cases sr) (auto simp: encoder_eqs indexable_def)

lemma rank_tag_less:
  assumes "scalar_rank a < scalar_rank b"
  shows "[TAG_NULL, TAG_BOOL, TAG_I64, TAG_F64, TAG_STR, TAG_BYTES] ! scalar_rank a
    < [TAG_NULL, TAG_BOOL, TAG_I64, TAG_F64, TAG_STR, TAG_BYTES] ! scalar_rank b"
  using assms by (cases a; cases b) (simp_all add: tag_defs nth_Cons')

lemma scalar_enc_rank_less:
  assumes "indexable a" "indexable b" "scalar_rank a < scalar_rank b"
  shows "scalar_enc a @ s < scalar_enc b @ t"
  by (subst scalar_enc_tag[OF assms(1)], subst scalar_enc_tag[OF assms(2)])
    (use rank_tag_less[OF assms(3)] in simp)

lemma scalar_less_rank:
  "scalar_rank a \<noteq> scalar_rank b \<Longrightarrow> scalar_less a b \<longleftrightarrow> scalar_rank a < scalar_rank b"
  by (cases a; cases b) auto

lemma scalar_enc_same_rank:
  assumes "scalar_rank a = scalar_rank b" "scalar_less a b" "indexable a" "indexable b"
  shows "scalar_enc a @ s < scalar_enc b @ t"
  using assms boolc.enc_less i64c.enc_less strc.enc_less binc.enc_less f64c.enc_less
  by (cases a; cases b) (auto simp: encode_f64_eq)

lemma scalar_less_total: "a \<noteq> b \<Longrightarrow> scalar_less a b \<or> scalar_less b a"
  using f64_less_total i64c.lt_total by (cases a; cases b) auto

interpretation scalarc: order_codec indexable scalar_less scalar_enc
proof unfold_locales
  show "scalar_enc a @ s < scalar_enc b @ t" if "indexable a" "indexable b" "scalar_less a b" for a b s t
    using that scalar_enc_rank_less scalar_enc_same_rank scalar_less_rank
    by (cases "scalar_rank a = scalar_rank b") blast+
qed (rule scalar_less_total)

section \<open>Properties\<close>

text \<open>C9: Two floats that are numbers encode in their numeric order, and only a negative zero
  before a positive one is told apart beyond that; the encoder refuses exactly the NaNs.\<close>

theorem encode_f64_order:
  shows "(encode_f64 buf v = Inl NaN \<longleftrightarrow> f64_is_nan v) \<and>
    (\<not> f64_is_nan v \<longrightarrow> \<not> f64_is_nan w \<longrightarrow>
      (projr (encode_f64 buf v) @ s < projr (encode_f64 buf w) @ t \<longleftrightarrow>
        f64_num v < f64_num w \<or> (f64_num v = f64_num w \<and> f64_neg v \<and> \<not> f64_neg w) \<or> (v = w \<and> s < t)))"
  using f64c.less_iff[of v w s t] by (auto simp: encode_f64_eq f64_less_def)

text \<open>The float one (\<^verbatim>\<open>0x3FF0000000000000\<close>) is above minus one.\<close>

theorem encode_f64_order_witness:
  "projr (encode_f64 [7] 0xBFF0000000000000) @ [255] < projr (encode_f64 [7] 0x3FF0000000000000) @ [0]"
  using encode_f64_order[of "[7]" "0xBFF0000000000000" "0x3FF0000000000000" "[255]" "[0]"]
  by (simp add: f64_is_nan_def f64_num_def f64_neg_def f64_mag_def)

text \<open>C6: The posting keys of a sorted index are in the order of index id, then indexed value
  (the types in the order null, bool, integer, float, string, binary, each type in its native
  order), then record id; so the keys of one value are contiguous and no suffix can flip two values.\<close>

theorem sorted_posting_key_order:
  assumes "extract_and_encode (Some a) = Some ea" and "extract_and_encode (Some b) = Some eb"
  shows "sorted_posting_key i ea ra < sorted_posting_key j eb rb \<longleftrightarrow>
    i < j \<or> (i = j \<and> (scalar_less a b \<or> (a = b \<and> ra < rb)))"
proof -
  have "indexable a" "indexable b" and e: "ea = scalar_enc a" "eb = scalar_enc b"
    using assms by (simp_all only: extract_and_encode_Some)
  then show ?thesis
    using scalarc.less_iff[of a b ra rb] unfolding e sorted_posting_key_def sorted_prefix_def
    by (simp add: less_append_iff_eq_length)
qed

theorem sorted_posting_key_order_witness:
  "sorted_posting_key 3 (scalar_enc (Str [97])) (replicate 16 255)
    < sorted_posting_key 3 (scalar_enc (Str [97, 97])) (replicate 16 0)"
  using sorted_posting_key_order[of "Str [97]" _ "Str [97, 97]" _ 3 "replicate 16 255" 3 "replicate 16 0"]
  by simp

declare extract_and_encode.simps(2) [simp del]

end
