(* ===== verification/RecordValue.thy ===== *)
theory RecordValue
  imports SortCodec
begin

text \<open>
  Records as the index sees them: the value tree \<^verbatim>\<open>InnerValue\<close> and its
  \<^verbatim>\<open>RecordRef\<close> view (\<^verbatim>\<open>shamir-types/src/record_view/record_ref.rs\<close>): descent
  along a path of interned keys, classification of the leaf, membership in a
  sequence.  Maps are association lists with distinct keys.
\<close>

datatype inner_value =
  VNull | VBool bool | VInt i64 | VF64 u64 | VDec bytes | VBig int | VStr bytes | VBin bytes
  | VList "inner_value list" | VSet "inner_value list" | VMap "(u64 \<times> inner_value) list"

datatype kind = KNull | KScalar | KNonComparable | KContainer

fun inner_to_scalar :: "inner_value \<Rightarrow> scalar_ref option" where
  "inner_to_scalar VNull = Some Null"
| "inner_to_scalar (VBool b) = Some (Bool b)"
| "inner_to_scalar (VInt i) = Some (Int64 i)"
| "inner_to_scalar (VF64 f) = Some (F64 f)"
| "inner_to_scalar (VStr s) = Some (Str s)"
| "inner_to_scalar (VBin b) = Some (Bin b)"
| "inner_to_scalar _ = None"

fun inner_to_kind :: "inner_value \<Rightarrow> kind" where
  "inner_to_kind VNull = KNull"
| "inner_to_kind (VDec _) = KNonComparable"
| "inner_to_kind (VBig _) = KNonComparable"
| "inner_to_kind (VList _) = KContainer"
| "inner_to_kind (VSet _) = KContainer"
| "inner_to_kind (VMap _) = KContainer"
| "inner_to_kind _ = KScalar"

fun descend_loop :: "inner_value \<Rightarrow> u64 list \<Rightarrow> inner_value option" where
  "descend_loop cur [] = Some cur"
| "descend_loop cur (key # path) =
    (case cur of
       VMap m \<Rightarrow> (case map_of m key of None \<Rightarrow> None | Some v \<Rightarrow> descend_loop v path)
     | _ \<Rightarrow> None)"

definition descend_path :: "inner_value \<Rightarrow> u64 list \<Rightarrow> inner_value option" where
  "descend_path root path = (if path = [] then None else descend_loop root path)"

definition scalar_at :: "inner_value \<Rightarrow> u64 list \<Rightarrow> scalar_ref option" where
  "scalar_at rec path = (case descend_path rec path of None \<Rightarrow> None | Some v \<Rightarrow> inner_to_scalar v)"

definition present_kind_at :: "inner_value \<Rightarrow> u64 list \<Rightarrow> kind option" where
  "present_kind_at rec path = map_option inner_to_kind (descend_path rec path)"

definition materialize_at :: "inner_value \<Rightarrow> u64 list \<Rightarrow> inner_value option" where
  "materialize_at rec path = descend_path rec path"

text \<open>The first element whose scalar satisfies the test decides; elements that are not scalars are skipped.\<close>

fun any_elem :: "(scalar_ref \<Rightarrow> bool) \<Rightarrow> inner_value list \<Rightarrow> bool" where
  "any_elem f [] = False"
| "any_elem f (item # items) =
    (case inner_to_scalar item of
       Some sr \<Rightarrow> if f sr then True else any_elem f items
     | None \<Rightarrow> any_elem f items)"

definition any_seq_elem :: "inner_value \<Rightarrow> u64 list \<Rightarrow> (scalar_ref \<Rightarrow> bool) \<Rightarrow> bool option" where
  "any_seq_elem rec path f =
    (case descend_path rec path of
       Some (VList items) \<Rightarrow> Some (any_elem f items)
     | Some (VSet items) \<Rightarrow> Some (any_elem f items)
     | _ \<Rightarrow> None)"

lemma any_elem_iff: "any_elem f items \<longleftrightarrow> (\<exists>item \<in> set items. \<exists>sr. inner_to_scalar item = Some sr \<and> f sr)"
  by (induction items) (auto split: option.splits)

lemma scalar_iff_kind:
  "(scalar_at rec path \<noteq> None) \<longleftrightarrow> present_kind_at rec path \<in> {Some KNull, Some KScalar}"
proof -
  have "(inner_to_scalar v \<noteq> None) \<longleftrightarrow> inner_to_kind v \<in> {KNull, KScalar}" for v
    by (cases v) auto
  then show ?thesis
    by (auto simp: scalar_at_def present_kind_at_def split: option.splits)
qed

end
