(* ===== verification/SortedIndex.thy ===== *)
theory SortedIndex
  imports RecordValue KvStore
begin

text \<open>
  The sorted index of \<^verbatim>\<open>shamir-index/src/base_index/sorted_index_manager\<close>: the
  planners and apply methods that keep its postings (\<^verbatim>\<open>plan.rs\<close>), its key
  codec (\<^verbatim>\<open>covering.rs\<close>) and its ordered lookups (\<^verbatim>\<open>scan.rs\<close>), over any store
  that keeps the contract \<^verbatim>\<open>ordered_store\<close>.  MessagePack (\<^verbatim>\<open>rmp_serde\<close>) is the
  parameter \<^verbatim>\<open>to_msgpack\<close>.  \<^verbatim>\<open>reader_open\<close> is the answer of the reader-drain gate
  when a lookup starts.
\<close>

section \<open>State\<close>

datatype index_state = Ready | Building | Failed

record index_def =
  name_interned :: u64
  field_path :: "u64 list"
  included_fields :: "string list list"
  included_fields_interned :: "u64 list list"
  ready_at_version :: u64
  ix_state :: index_state
  instance_epoch :: u64

datatype index_family = Regular | Unique | Sorted | Index2

record provenance =
  family :: index_family
  prov_name :: u64
  prov_epoch :: u64

datatype index_write_op =
  SetPosting bytes bytes provenance
  | RemovePosting bytes provenance "bytes option"
  | BumpFtsStats u32 int provenance

record 's sorted_index_manager =
  info_store :: 's
  indexes :: "index_def list"
  last_mutation_version :: "u64 \<rightharpoonup> u64"
  reader_open :: bool

definition is_covering :: "index_def \<Rightarrow> bool" where
  "is_covering d = (included_fields_interned d \<noteq> [])"

definition def_provenance :: "index_def \<Rightarrow> provenance" where
  "def_provenance d = \<lparr>family = Sorted, prov_name = name_interned d, prov_epoch = instance_epoch d\<rparr>"

section \<open>Keys and covering values (\<^verbatim>\<open>covering.rs\<close>)\<close>

type_synonym record_id = bytes

fun inner_value_to_query_scalar :: "inner_value \<Rightarrow> inner_value option" where
  "inner_value_to_query_scalar (VList _) = None"
| "inner_value_to_query_scalar (VSet _) = None"
| "inner_value_to_query_scalar (VMap _) = None"
| "inner_value_to_query_scalar v = Some v"

fun join_dots :: "string list \<Rightarrow> string" where
  "join_dots [] = []"
| "join_dots [x] = x"
| "join_dots (x # xs) = x @ ''.'' @ join_dots xs"

fun covering_fields :: "inner_value \<Rightarrow> (string list \<times> u64 list) list \<Rightarrow> (string \<times> inner_value) list" where
  "covering_fields rec [] = []"
| "covering_fields rec ((path_strs, path_ids) # rest) =
    (if path_ids = [] then covering_fields rec rest
     else case materialize_at rec path_ids of
            None \<Rightarrow> covering_fields rec rest
          | Some leaf \<Rightarrow>
              (case inner_value_to_query_scalar leaf of
                 Some qv \<Rightarrow> (join_dots path_strs, qv) # covering_fields rec rest
               | None \<Rightarrow> covering_fields rec rest))"

definition build_covering_projection ::
  "((string \<times> inner_value) list \<Rightarrow> bytes option) \<Rightarrow> inner_value \<Rightarrow> index_def \<Rightarrow> u64 \<Rightarrow> bytes" where
  "build_covering_projection to_msgpack rec d version =
    (let projection = covering_fields rec (zip (included_fields d) (included_fields_interned d))
     in if projection = [] then []
        else case to_msgpack projection of
               Some msgpack \<Rightarrow> le64 version @ msgpack
             | None \<Rightarrow> [])"

definition decode_covering_projection ::
  "(bytes \<Rightarrow> (string \<times> inner_value) list option) \<Rightarrow> bytes \<Rightarrow> (u64 \<times> (string \<times> inner_value) list) option" where
  "decode_covering_projection from_msgpack value =
    (if length value < 8 then None
     else case from_msgpack (drop 8 value) of
            Some projection \<Rightarrow> Some (un_le64 (take 8 value), projection)
          | None \<Rightarrow> None)"

definition extract_field :: "inner_value \<Rightarrow> u64 list \<Rightarrow> bytes option" where
  "extract_field rec path = extract_and_encode (scalar_at rec path)"

definition key_value_slice :: "bytes \<Rightarrow> nat \<Rightarrow> bytes" where
  "key_value_slice key value_start =
    (if length key < value_start + 16 then [] else slice value_start (length key - 16) key)"

definition decode_record_id_suffix :: "bytes \<Rightarrow> record_id option" where
  "decode_record_id_suffix key = (if length key < 16 then None else Some (drop (length key - 16) key))"

definition skip_boundary_row :: "bytes \<Rightarrow> record_id option \<Rightarrow> bool \<Rightarrow> bool" where
  "skip_boundary_row key after_id forward =
    (case after_id of
       None \<Rightarrow> True
     | Some a \<Rightarrow> (case decode_record_id_suffix key of
                   Some rid \<Rightarrow> if forward then rid \<le> a else a \<le> rid
                 | None \<Rightarrow> True))"

definition decode_sorted_index_name :: "bytes \<Rightarrow> u64 option" where
  "decode_sorted_index_name key =
    (if length key < 1 + 8 \<or> hd key \<noteq> SORTED_TAG then None else Some (un_be64 (slice 1 9 key)))"

definition entry_prefix :: "u64 \<Rightarrow> bytes" where
  "entry_prefix name = sorted_prefix name"

definition build_entry_key :: "u64 \<Rightarrow> bytes \<Rightarrow> record_id \<Rightarrow> bytes" where
  "build_entry_key name encoded_value rid = sorted_posting_key name encoded_value rid"

section \<open>Planners (\<^verbatim>\<open>plan.rs\<close>)\<close>

type_synonym msgpack = "(string \<times> inner_value) list \<Rightarrow> bytes option"

definition plan_created_one :: "msgpack \<Rightarrow> record_id \<Rightarrow> inner_value \<Rightarrow> u64 \<Rightarrow> index_def \<Rightarrow> index_write_op list" where
  "plan_created_one mp rid rec version d =
    (case extract_field rec (field_path d) of
       None \<Rightarrow> []
     | Some encoded \<Rightarrow>
         [SetPosting (build_entry_key (name_interned d) encoded rid)
           (if is_covering d then build_covering_projection mp rec d version else [])
           (def_provenance d)])"

definition plan_record_created ::
  "msgpack \<Rightarrow> 's sorted_index_manager \<Rightarrow> record_id \<Rightarrow> inner_value \<Rightarrow> u64 \<Rightarrow> index_write_op list db_result" where
  "plan_record_created mp m rid rec version =
    (if indexes m = [] then Inr []
     else Inr (concat (map (plan_created_one mp rid rec version) (indexes m))))"

definition plan_records_created_batch ::
  "msgpack \<Rightarrow> 's sorted_index_manager \<Rightarrow> (record_id \<times> inner_value) list \<Rightarrow> u64 \<Rightarrow> index_write_op list db_result" where
  "plan_records_created_batch mp m items version =
    (if indexes m = [] then Inr []
     else Inr (concat (map (\<lambda>d. concat (map (\<lambda>(rid, rec). plan_created_one mp rid rec version d) items)) (indexes m))))"

definition plan_updated_one ::
  "msgpack \<Rightarrow> record_id \<Rightarrow> inner_value \<Rightarrow> inner_value \<Rightarrow> u64 \<Rightarrow> index_def \<Rightarrow> index_write_op list" where
  "plan_updated_one mp rid old new version d =
    (let old_enc = extract_field old (field_path d);
         new_enc = extract_field new (field_path d);
         old_proj = (if is_covering d then Some (build_covering_projection mp old d version) else None);
         new_proj = (if is_covering d then Some (build_covering_projection mp new d version) else None);
         key_changed = (old_enc \<noteq> new_enc);
         proj_changed = (old_proj \<noteq> new_proj);
         put = (case new_enc of
                  Some nv \<Rightarrow> [SetPosting (build_entry_key (name_interned d) nv rid)
                               (case new_proj of Some p \<Rightarrow> p | None \<Rightarrow> []) (def_provenance d)]
                | None \<Rightarrow> [])
     in if \<not> key_changed \<and> \<not> proj_changed then []
        else if key_changed then
          (case old_enc of
             Some ov \<Rightarrow> [RemovePosting (build_entry_key (name_interned d) ov rid) (def_provenance d) None]
           | None \<Rightarrow> []) @ put
        else put)"

definition plan_record_updated ::
  "msgpack \<Rightarrow> 's sorted_index_manager \<Rightarrow> record_id \<Rightarrow> inner_value \<Rightarrow> inner_value \<Rightarrow> u64
    \<Rightarrow> index_write_op list db_result" where
  "plan_record_updated mp m rid old new version =
    (if indexes m = [] then Inr []
     else Inr (concat (map (plan_updated_one mp rid old new version) (indexes m))))"

definition plan_record_deleted ::
  "'s sorted_index_manager \<Rightarrow> record_id \<Rightarrow> inner_value \<Rightarrow> index_write_op list db_result" where
  "plan_record_deleted m rid rec =
    (if indexes m = [] then Inr []
     else Inr (concat (map (\<lambda>d. case extract_field rec (field_path d) of
         None \<Rightarrow> []
       | Some encoded \<Rightarrow> [RemovePosting (build_entry_key (name_interned d) encoded rid) (def_provenance d) None])
       (indexes m))))"

section \<open>Applying planned operations\<close>

fun kv_ops_of :: "index_write_op list \<Rightarrow> kv_op list" where
  "kv_ops_of [] = []"
| "kv_ops_of (SetPosting key value _ # ops) = KvSet key value # kv_ops_of ops"
| "kv_ops_of (RemovePosting key _ _ # ops) = KvRemove key # kv_ops_of ops"
| "kv_ops_of (BumpFtsStats _ _ _ # ops) = kv_ops_of ops"

definition apply_ops :: "'s dyn_store \<Rightarrow> index_write_op list \<Rightarrow> 's sorted_index_manager
    \<Rightarrow> unit db_result \<times> 's sorted_index_manager" where
  "apply_ops D ops m =
    (let kv_ops = kv_ops_of ops
     in if kv_ops = [] then (Inr (), m)
        else let (r, s) = transact (ds_set D) (ds_remove D) kv_ops (info_store m)
             in (r, m\<lparr>info_store := s\<rparr>))"

definition note_mutation_at_version :: "u64 \<Rightarrow> u64 \<Rightarrow> 's sorted_index_manager \<Rightarrow> 's sorted_index_manager" where
  "note_mutation_at_version name version m =
    m\<lparr>last_mutation_version := (last_mutation_version m)(name \<mapsto>
      (case last_mutation_version m name of Some v \<Rightarrow> max v version | None \<Rightarrow> version))\<rparr>"

fun op_posting_key :: "index_write_op \<Rightarrow> bytes option" where
  "op_posting_key (SetPosting key _ _) = Some key"
| "op_posting_key (RemovePosting key _ _) = Some key"
| "op_posting_key (BumpFtsStats _ _ _) = None"

fun bump_loop :: "index_write_op list \<Rightarrow> u64 \<Rightarrow> u64 list \<Rightarrow> 's sorted_index_manager \<Rightarrow> 's sorted_index_manager" where
  "bump_loop [] version touched m = m"
| "bump_loop (op # ops) version touched m =
    (case Option.bind (op_posting_key op) decode_sorted_index_name of
       None \<Rightarrow> bump_loop ops version touched m
     | Some name \<Rightarrow>
         if name \<in> set touched then bump_loop ops version touched m
         else bump_loop ops version (touched @ [name]) (note_mutation_at_version name version m))"

definition bump_touched_indexes :: "index_write_op list \<Rightarrow> u64 \<Rightarrow> 's sorted_index_manager \<Rightarrow> 's sorted_index_manager" where
  "bump_touched_indexes ops version m = bump_loop ops version [] m"

definition on_record_created :: "msgpack \<Rightarrow> 's dyn_store \<Rightarrow> record_id \<Rightarrow> inner_value \<Rightarrow> u64
    \<Rightarrow> 's sorted_index_manager \<Rightarrow> unit db_result \<times> 's sorted_index_manager" where
  "on_record_created mp D rid rec version m =
    (case plan_record_created mp m rid rec version of
       Inl e \<Rightarrow> (Inl e, m)
     | Inr ops \<Rightarrow> apply_ops D ops (bump_touched_indexes ops version m))"

definition on_record_updated :: "msgpack \<Rightarrow> 's dyn_store \<Rightarrow> record_id \<Rightarrow> inner_value \<Rightarrow> inner_value \<Rightarrow> u64
    \<Rightarrow> 's sorted_index_manager \<Rightarrow> unit db_result \<times> 's sorted_index_manager" where
  "on_record_updated mp D rid old new version m =
    (case plan_record_updated mp m rid old new version of
       Inl e \<Rightarrow> (Inl e, m)
     | Inr ops \<Rightarrow> apply_ops D ops (bump_touched_indexes ops version m))"

definition on_record_deleted :: "'s dyn_store \<Rightarrow> record_id \<Rightarrow> inner_value \<Rightarrow> u64
    \<Rightarrow> 's sorted_index_manager \<Rightarrow> unit db_result \<times> 's sorted_index_manager" where
  "on_record_deleted D rid rec version m =
    (case plan_record_deleted m rid rec of
       Inl e \<Rightarrow> (Inl e, m)
     | Inr ops \<Rightarrow> apply_ops D ops (bump_touched_indexes ops version m))"

text \<open>The batched create writes all postings of all indexes with one \<^verbatim>\<open>set_many\<close>.\<close>

definition batch_writes :: "msgpack \<Rightarrow> u64 \<Rightarrow> (record_id \<times> inner_value) list \<Rightarrow> index_def \<Rightarrow> kv list" where
  "batch_writes mp version items d =
    List.map_filter (\<lambda>(rid, rec). case extract_field rec (field_path d) of
        None \<Rightarrow> None
      | Some encoded \<Rightarrow> Some (build_entry_key (name_interned d) encoded rid,
          if is_covering d then build_covering_projection mp rec d version else [])) items"

definition on_records_created_batch :: "msgpack \<Rightarrow> 's dyn_store \<Rightarrow> (record_id \<times> inner_value) list \<Rightarrow> u64
    \<Rightarrow> 's sorted_index_manager \<Rightarrow> unit db_result \<times> 's sorted_index_manager" where
  "on_records_created_batch mp D items version m =
    (if indexes m = [] then (Inr (), m)
     else
       let writes = concat (map (batch_writes mp version items) (indexes m));
           m' = fold (\<lambda>d m. if batch_writes mp version items d \<noteq> []
                            then note_mutation_at_version (name_interned d) version m else m) (indexes m) m
       in if writes = [] then (Inr (), m')
          else case set_many (ds_set D) writes (info_store m') of
                 (Inl e, s) \<Rightarrow> (Inl e, m'\<lparr>info_store := s\<rparr>)
               | (Inr _, s) \<Rightarrow> (Inr (), m'\<lparr>info_store := s\<rparr>))"

section \<open>Keys of one index\<close>

lemma length_sorted_prefix [simp]: "length (sorted_prefix n) = 9"
  by (simp add: sorted_prefix_def)

lemma sorted_prefix_inject [simp]: "sorted_prefix n = sorted_prefix n' \<longleftrightarrow> n = n'"
  by (simp add: sorted_prefix_def)

lemma prefix_sorted_append [simp]: "prefix (sorted_prefix n) (sorted_prefix n' @ k) \<longleftrightarrow> n = n'"
  by (auto simp: prefix_def append_eq_append_conv)

lemma entry_key_prefix [simp]: "prefix (entry_prefix n) (build_entry_key n' enc rid) \<longleftrightarrow> n = n'"
  by (simp add: entry_prefix_def build_entry_key_def sorted_posting_key_def)

lemma entry_key_inject:
  assumes "length rid = 16" "length rid' = 16"
  shows "build_entry_key n enc rid = build_entry_key n' enc' rid' \<longleftrightarrow> n = n' \<and> enc = enc' \<and> rid = rid'"
  using assms by (auto simp: build_entry_key_def sorted_posting_key_def append_eq_append_conv)

lemma decode_sorted_index_name_key [simp]: "decode_sorted_index_name (build_entry_key n enc rid) = Some n"
  by (simp add: decode_sorted_index_name_def build_entry_key_def sorted_posting_key_def sorted_prefix_def slice_def)

lemma decode_record_id_suffix_key [simp]:
  "length rid = 16 \<Longrightarrow> decode_record_id_suffix (build_entry_key n enc rid) = Some rid"
  by (simp add: decode_record_id_suffix_def build_entry_key_def sorted_posting_key_def)

lemma key_value_slice_key [simp]:
  "length rid = 16 \<Longrightarrow> key_value_slice (build_entry_key n enc rid) 9 = enc"
  by (simp add: key_value_slice_def build_entry_key_def sorted_posting_key_def slice_def)

section \<open>Mixed batches of sets and removes\<close>

fun set_keys :: "kv_op list \<Rightarrow> record_key set" where
  "set_keys [] = {}"
| "set_keys (KvSet k _ # ops) = insert k (set_keys ops)"
| "set_keys (KvRemove _ # ops) = set_keys ops"

fun rem_keys :: "kv_op list \<Rightarrow> record_key set" where
  "rem_keys [] = {}"
| "rem_keys (KvSet _ _ # ops) = rem_keys ops"
| "rem_keys (KvRemove k # ops) = insert k (rem_keys ops)"

lemma set_keys_append [simp]: "set_keys (xs @ ys) = set_keys xs \<union> set_keys ys"
  by (induction xs rule: set_keys.induct) auto

lemma rem_keys_append [simp]: "rem_keys (xs @ ys) = rem_keys xs \<union> rem_keys ys"
  by (induction xs rule: rem_keys.induct) auto

lemma kv_ops_of_append [simp]: "kv_ops_of (xs @ ys) = kv_ops_of xs @ kv_ops_of ys"
  by (induction xs rule: kv_ops_of.induct) auto

lemma dom_fold_ops:
  "set_keys ops \<inter> rem_keys ops = {} \<Longrightarrow> dom (fold apply_op ops m) = (dom m - rem_keys ops) \<union> set_keys ops"
proof (induction ops arbitrary: m)
  case (Cons op ops)
  then show ?case by (cases op) auto
qed simp

section \<open>The postings mirror the table\<close>

type_synonym table = "record_id \<rightharpoonup> inner_value"

definition table_ok :: "table \<Rightarrow> bool" where
  "table_ok t = (\<forall>rid \<in> dom t. length rid = 16)"

text \<open>The posting keys index \<open>d\<close> has for the records of a table.\<close>

definition postings_of :: "table \<Rightarrow> index_def \<Rightarrow> record_key set" where
  "postings_of t d = {build_entry_key (name_interned d) enc rid | rid rec enc.
     t rid = Some rec \<and> extract_field rec (field_path d) = Some enc}"

definition mirrors :: "(record_key \<rightharpoonup> bytes) \<Rightarrow> table \<Rightarrow> index_def \<Rightarrow> bool" where
  "mirrors m t d = ({k \<in> dom m. prefix (entry_prefix (name_interned d)) k} = postings_of t d)"

definition key_of :: "index_def \<Rightarrow> record_id \<Rightarrow> inner_value \<Rightarrow> record_key set" where
  "key_of d rid rec = (case extract_field rec (field_path d) of None \<Rightarrow> {}
     | Some enc \<Rightarrow> {build_entry_key (name_interned d) enc rid})"

lemma in_key_of:
  "k \<in> key_of d rid rec \<longleftrightarrow> (\<exists>enc. extract_field rec (field_path d) = Some enc \<and> k = build_entry_key (name_interned d) enc rid)"
  by (simp add: key_of_def split: option.split)

lemma postings_of_UN: "postings_of t d = (\<Union>rid. case t rid of None \<Rightarrow> {} | Some rec \<Rightarrow> key_of d rid rec)"
proof (rule set_eqI)
  fix k
  have "k \<in> (case t rid of None \<Rightarrow> {} | Some rec \<Rightarrow> key_of d rid rec) \<longleftrightarrow> (\<exists>rec. t rid = Some rec \<and> k \<in> key_of d rid rec)" for rid
    by (cases "t rid") auto
  then show "k \<in> postings_of t d \<longleftrightarrow> k \<in> (\<Union>rid. case t rid of None \<Rightarrow> {} | Some rec \<Rightarrow> key_of d rid rec)"
    by (simp add: postings_of_def in_key_of) blast
qed

lemma postings_of_split:
  "postings_of t d = (case t rid of None \<Rightarrow> {} | Some rec \<Rightarrow> key_of d rid rec)
    \<union> (\<Union>r \<in> - {rid}. case t r of None \<Rightarrow> {} | Some rec \<Rightarrow> key_of d r rec)"
  unfolding postings_of_UN by auto

lemma key_of_other:
  "\<lbrakk>length rid = 16; length rid' = 16; rid \<noteq> rid'\<rbrakk> \<Longrightarrow> key_of d rid rec \<inter> key_of d rid' rec' = {}"
  by (auto simp: key_of_def entry_key_inject split: option.splits)

lemma key_of_prefix: "k \<in> key_of d rid rec \<Longrightarrow> prefix (entry_prefix n) k \<longleftrightarrow> n = name_interned d"
  by (auto simp: key_of_def split: option.splits)

lemma rest_upd:
  "(\<Union>r \<in> - {rid}. case (t(rid := x)) r of None \<Rightarrow> {} | Some rec \<Rightarrow> key_of d r rec)
    = (\<Union>r \<in> - {rid}. case t r of None \<Rightarrow> {} | Some rec \<Rightarrow> key_of d r rec)"
  by (rule SUP_cong) auto

lemma postings_of_create:
  "t rid = None \<Longrightarrow> postings_of (t(rid \<mapsto> rec)) d = postings_of t d \<union> key_of d rid rec"
  using postings_of_split[of t d rid] postings_of_split[of "t(rid \<mapsto> rec)" d rid] rest_upd[where t = t and rid = rid and x = "Some rec" and d = d]
  by auto

lemma postings_of_replace:
  assumes "table_ok t" and "t rid = Some old"
  shows "postings_of (t(rid := new)) d =
    (postings_of t d - key_of d rid old) \<union> (case new of None \<Rightarrow> {} | Some rec \<Rightarrow> key_of d rid rec)"
proof -
  let ?rest = "\<Union>r \<in> - {rid}. case t r of None \<Rightarrow> {} | Some rec \<Rightarrow> key_of d r rec"
  have disj: "?rest \<inter> key_of d rid old = {}"
  proof -
    have "k \<notin> key_of d rid old" if "t r = Some rec" "r \<noteq> rid" "k \<in> key_of d r rec" for r rec k
      using key_of_other[of r rid d rec old] that assms by (auto simp: table_ok_def)
    then show ?thesis by (fastforce split: option.splits)
  qed
  have "postings_of (t(rid := new)) d = (case new of None \<Rightarrow> {} | Some rec \<Rightarrow> key_of d rid rec) \<union> ?rest"
    using postings_of_split[of "t(rid := new)" d rid] rest_upd[where t = t and rid = rid and x = new and d = d] by simp
  moreover have "postings_of t d = key_of d rid old \<union> ?rest"
    using postings_of_split[of t d rid] assms(2) by simp
  ultimately show ?thesis using disj by blast
qed

text \<open>The effect of a batch planned index by index, when the part planned for an index sets and
  removes keys of that index only.\<close>

lemma set_keys_concat:
  "set_keys (kv_ops_of (concat (map f ds))) = (\<Union>d \<in> set ds. set_keys (kv_ops_of (f d)))"
  by (induction ds) auto

lemma rem_keys_concat:
  "rem_keys (kv_ops_of (concat (map f ds))) = (\<Union>d \<in> set ds. rem_keys (kv_ops_of (f d)))"
  by (induction ds) auto

lemma mirrors_step:
  assumes names: "distinct (map name_interned ds)" and d: "d \<in> set ds" and "mirrors m t d"
    and own: "\<And>d' k n. \<lbrakk>d' \<in> set ds; k \<in> set_keys (kv_ops_of (f d')) \<union> rem_keys (kv_ops_of (f d'))\<rbrakk>
      \<Longrightarrow> prefix (entry_prefix n) k \<longleftrightarrow> n = name_interned d'"
    and disj: "\<And>d'. d' \<in> set ds \<Longrightarrow> set_keys (kv_ops_of (f d')) \<inter> rem_keys (kv_ops_of (f d')) = {}"
    and post: "postings_of t' d = (postings_of t d - rem_keys (kv_ops_of (f d))) \<union> set_keys (kv_ops_of (f d))"
  shows "mirrors (fold apply_op (kv_ops_of (concat (map f ds))) m) t' d"
proof -
  let ?S = "\<lambda>d. set_keys (kv_ops_of (f d))" and ?R = "\<lambda>d. rem_keys (kv_ops_of (f d))"
  let ?p = "prefix (entry_prefix (name_interned d))"
  have same: "d' = d" if "d' \<in> set ds" "name_interned d' = name_interned d" for d'
    using that names d by (auto simp: distinct_map inj_on_def)
  have own_d: "?p k \<longleftrightarrow> d' = d" if "d' \<in> set ds" "k \<in> ?S d' \<union> ?R d'" for k d'
    using own[OF that, of "name_interned d"] same[OF that(1)] by metis
  have "?S d1 \<inter> ?R d2 = {}" if 12: "d1 \<in> set ds" "d2 \<in> set ds" for d1 d2
  proof (cases "d1 = d2")
    case False
    then have "name_interned d1 \<noteq> name_interned d2" using 12 names by (auto simp: distinct_map inj_on_def)
    then have "\<not> (k \<in> ?S d1 \<and> k \<in> ?R d2)" for k
      using own[OF 12(1), of k "name_interned d1"] own[OF 12(2), of k "name_interned d1"] by (metis UnCI)
    then show ?thesis by (simp add: disjoint_iff)
  qed (use disj 12 in simp)
  then have "(\<Union>d \<in> set ds. ?S d) \<inter> (\<Union>d \<in> set ds. ?R d) = {}"
    by (simp add: Int_UN_distrib2)
  then have dom: "dom (fold apply_op (kv_ops_of (concat (map f ds))) m)
      = (dom m - (\<Union>d \<in> set ds. ?R d)) \<union> (\<Union>d \<in> set ds. ?S d)"
    by (simp only: dom_fold_ops set_keys_concat rem_keys_concat)
  have old: "k \<in> postings_of t d \<longleftrightarrow> k \<in> dom m \<and> ?p k" for k
    using assms(3) unfolding mirrors_def by (metis (mono_tags, lifting) mem_Collect_eq)
  have "k \<in> dom (fold apply_op (kv_ops_of (concat (map f ds))) m) \<and> ?p k \<longleftrightarrow> k \<in> postings_of t' d" for k
  proof (cases "?p k")
    case True
    then have "(k \<in> (\<Union>d \<in> set ds. ?S d)) = (k \<in> ?S d)" "(k \<in> (\<Union>d \<in> set ds. ?R d)) = (k \<in> ?R d)"
      using own_d[of _ k] d by (metis (no_types, lifting) UN_iff UnCI)+
    with True old[of k] show ?thesis unfolding dom post by simp
  next
    case False
    then have "k \<notin> ?S d" using own_d[OF d, of k] by (metis UnCI)
    with False old[of k] show ?thesis unfolding post by simp
  qed
  then show ?thesis unfolding mirrors_def by (intro set_eqI) (simp only: mem_Collect_eq)
qed

definition index_inv :: "(record_key \<rightharpoonup> bytes) \<Rightarrow> table \<Rightarrow> index_def list \<Rightarrow> bool" where
  "index_inv m t ds = (distinct (map name_interned ds) \<and> table_ok t \<and> (\<forall>d \<in> set ds. mirrors m t d))"

lemma created_keys:
  "set_keys (kv_ops_of (plan_created_one mp rid rec v d)) = key_of d rid rec"
  "rem_keys (kv_ops_of (plan_created_one mp rid rec v d)) = {}"
  by (simp_all add: plan_created_one_def key_of_def split: option.split)

lemma deleted_keys:
  "set_keys (kv_ops_of (case extract_field rec (field_path d) of None \<Rightarrow> []
     | Some encoded \<Rightarrow> [RemovePosting (build_entry_key (name_interned d) encoded rid) (def_provenance d) None])) = {}"
  "rem_keys (kv_ops_of (case extract_field rec (field_path d) of None \<Rightarrow> []
     | Some encoded \<Rightarrow> [RemovePosting (build_entry_key (name_interned d) encoded rid) (def_provenance d) None]))
    = key_of d rid rec"
  by (simp_all add: key_of_def split: option.split)

text \<open>An update either leaves the key of an index alone or removes the old and sets the new one.\<close>

lemma updated_keys:
  assumes "length rid = 16"
  obtains "extract_field old (field_path d) \<noteq> extract_field new (field_path d)"
    "set_keys (kv_ops_of (plan_updated_one mp rid old new v d)) = key_of d rid new"
    "rem_keys (kv_ops_of (plan_updated_one mp rid old new v d)) = key_of d rid old"
    "key_of d rid new \<inter> key_of d rid old = {}"
  | "key_of d rid new = key_of d rid old"
    "set_keys (kv_ops_of (plan_updated_one mp rid old new v d)) \<subseteq> key_of d rid new"
    "rem_keys (kv_ops_of (plan_updated_one mp rid old new v d)) = {}"
proof (cases "extract_field old (field_path d) = extract_field new (field_path d)")
  case True
  then show ?thesis
    by (intro that(2)) (auto simp: plan_updated_one_def key_of_def Let_def split: option.splits if_splits)
next
  case False
  then show ?thesis
    by (intro that(1))
      (auto simp: plan_updated_one_def key_of_def Let_def entry_key_inject assms split: option.splits)
qed

lemma index_inv_create:
  assumes "index_inv m t ds" and "t rid = None" and "length rid = 16"
  shows "index_inv (fold apply_op (kv_ops_of (concat (map (plan_created_one mp rid rec v) ds))) m) (t(rid \<mapsto> rec)) ds"
  unfolding index_inv_def
proof (intro conjI ballI)
  show "distinct (map name_interned ds)" using assms by (simp add: index_inv_def)
  show "table_ok (t(rid \<mapsto> rec))" using assms by (auto simp: index_inv_def table_ok_def)
  fix d
  assume "d \<in> set ds"
  then show "mirrors (fold apply_op (kv_ops_of (concat (map (plan_created_one mp rid rec v) ds))) m) (t(rid \<mapsto> rec)) d"
    using assms key_of_prefix postings_of_create[where t = t and rid = rid, OF assms(2)]
    by (intro mirrors_step[where t = t]) (auto simp: index_inv_def created_keys)
qed

lemma index_inv_delete:
  assumes "index_inv m t ds" and "t rid = Some rec"
  shows "index_inv (fold apply_op (kv_ops_of (concat (map (\<lambda>d. case extract_field rec (field_path d) of None \<Rightarrow> []
     | Some encoded \<Rightarrow> [RemovePosting (build_entry_key (name_interned d) encoded rid) (def_provenance d) None]) ds))) m)
    (t(rid := None)) ds"
  unfolding index_inv_def
proof (intro conjI ballI)
  show "distinct (map name_interned ds)" "table_ok (t(rid := None))"
    using assms by (auto simp: index_inv_def table_ok_def)
  fix d
  assume "d \<in> set ds"
  then show "mirrors (fold apply_op (kv_ops_of (concat (map (\<lambda>d. case extract_field rec (field_path d) of None \<Rightarrow> []
     | Some encoded \<Rightarrow> [RemovePosting (build_entry_key (name_interned d) encoded rid) (def_provenance d) None]) ds))) m)
    (t(rid := None)) d"
    using assms key_of_prefix postings_of_replace[of t rid rec None d]
    by (intro mirrors_step[where t = t]) (auto simp: index_inv_def deleted_keys)
qed

lemma index_inv_update:
  assumes "index_inv m t ds" and "t rid = Some old"
  shows "index_inv (fold apply_op (kv_ops_of (concat (map (plan_updated_one mp rid old new v) ds))) m) (t(rid \<mapsto> new)) ds"
  unfolding index_inv_def
proof (intro conjI ballI)
  have len: "length rid = 16" using assms by (auto simp: index_inv_def table_ok_def)
  show "distinct (map name_interned ds)" "table_ok (t(rid \<mapsto> new))"
    using assms by (auto simp: index_inv_def table_ok_def)
  fix d
  assume d: "d \<in> set ds"
  have sub: "key_of d rid old \<subseteq> postings_of t d"
    using postings_of_split[of t d rid] assms(2) by auto
  show "mirrors (fold apply_op (kv_ops_of (concat (map (plan_updated_one mp rid old new v) ds))) m) (t(rid \<mapsto> new)) d"
  proof (rule mirrors_step[where t = t, OF _ d])
    fix d' k n
    assume k: "k \<in> set_keys (kv_ops_of (plan_updated_one mp rid old new v d'))
      \<union> rem_keys (kv_ops_of (plan_updated_one mp rid old new v d'))"
    have "k \<in> key_of d' rid old \<or> k \<in> key_of d' rid new"
      by (rule updated_keys[OF len, where d = d' and old = old and new = new and mp = mp and v = v]) (use k in auto)
    then show "prefix (entry_prefix n) k \<longleftrightarrow> n = name_interned d'" using key_of_prefix by blast
  next
    fix d'
    show "set_keys (kv_ops_of (plan_updated_one mp rid old new v d'))
      \<inter> rem_keys (kv_ops_of (plan_updated_one mp rid old new v d')) = {}"
      by (rule updated_keys[OF len, where d = d' and old = old and new = new and mp = mp and v = v]) auto
  next
    have new: "postings_of (t(rid \<mapsto> new)) d = (postings_of t d - key_of d rid old) \<union> key_of d rid new"
      using postings_of_replace[of t rid old "Some new" d] assms by (simp add: index_inv_def)
    show "postings_of (t(rid \<mapsto> new)) d = (postings_of t d
        - rem_keys (kv_ops_of (plan_updated_one mp rid old new v d)))
        \<union> set_keys (kv_ops_of (plan_updated_one mp rid old new v d))"
      by (rule updated_keys[OF len, where d = d and old = old and new = new and mp = mp and v = v]) (use sub new in auto)
  qed (use assms d in \<open>auto simp: index_inv_def\<close>)
qed

section \<open>Mutation high-water marks\<close>

definition op_names :: "index_write_op list \<Rightarrow> u64 set" where
  "op_names ops = {n. \<exists>op \<in> set ops. Option.bind (op_posting_key op) decode_sorted_index_name = Some n}"

lemma op_names_Cons: "op_names (op # ops) =
    (case Option.bind (op_posting_key op) decode_sorted_index_name of None \<Rightarrow> op_names ops | Some n \<Rightarrow> insert n (op_names ops))"
  by (auto simp: op_names_def split: option.splits)

lemma note_mutation_frame [simp]:
  "info_store (note_mutation_at_version n v m) = info_store m"
  "indexes (note_mutation_at_version n v m) = indexes m"
  "reader_open (note_mutation_at_version n v m) = reader_open m"
  by (simp_all add: note_mutation_at_version_def)

lemma bump_loop_frame [simp]:
  "info_store (bump_loop ops v touched m) = info_store m"
  "indexes (bump_loop ops v touched m) = indexes m"
  "reader_open (bump_loop ops v touched m) = reader_open m"
  by (induction ops v touched m rule: bump_loop.induct) (auto split: option.splits)

lemma bump_touched_frame [simp]:
  "info_store (bump_touched_indexes ops v m) = info_store m"
  "indexes (bump_touched_indexes ops v m) = indexes m"
  "reader_open (bump_touched_indexes ops v m) = reader_open m"
  by (simp_all add: bump_touched_indexes_def)

definition raised :: "u64 option \<Rightarrow> u64 \<Rightarrow> u64 option" where
  "raised old v = Some (case old of Some w \<Rightarrow> max w v | None \<Rightarrow> v)"

lemma bump_loop_marks:
  "last_mutation_version (bump_loop ops v touched m) n =
    (if n \<in> op_names ops \<and> n \<notin> set touched then raised (last_mutation_version m n) v else last_mutation_version m n)"
proof (induction ops arbitrary: touched m)
  case (Cons op ops)
  then show ?case
    by (auto simp: op_names_Cons note_mutation_at_version_def raised_def split: option.splits)
qed (simp add: op_names_def)

lemma bump_touched_marks:
  "last_mutation_version (bump_touched_indexes ops v m) n =
    (if n \<in> op_names ops then raised (last_mutation_version m n) v else last_mutation_version m n)"
  by (simp add: bump_touched_indexes_def bump_loop_marks)

lemma fold_ops_untouched: "k \<notin> set_keys ops \<union> rem_keys ops \<Longrightarrow> fold apply_op ops m k = m k"
proof (induction ops arbitrary: m)
  case (Cons op ops)
  then show ?case by (cases op) auto
qed simp

lemma touched_key_op:
  "k \<in> set_keys (kv_ops_of ops) \<union> rem_keys (kv_ops_of ops) \<Longrightarrow> \<exists>op \<in> set ops. op_posting_key op = Some k"
  by (induction ops rule: kv_ops_of.induct) auto

lemma raised_ge: "\<exists>w. raised old v = Some w \<and> v \<le> w \<and> (\<forall>u. old = Some u \<longrightarrow> u \<le> w)"
  by (auto simp: raised_def split: option.splits)

text \<open>Every posting that a planned batch changes belongs to an index whose mark the bump raised.\<close>

lemma bump_covers:
  assumes "fold apply_op (kv_ops_of ops) c k \<noteq> c k" and "decode_sorted_index_name k = Some n"
  shows "\<exists>w. last_mutation_version (bump_touched_indexes ops v m) n = Some w \<and> v \<le> w"
proof -
  have "k \<in> set_keys (kv_ops_of ops) \<union> rem_keys (kv_ops_of ops)" using assms(1) fold_ops_untouched by metis
  then obtain op where "op \<in> set ops" "op_posting_key op = Some k" using touched_key_op by blast
  then have "n \<in> op_names ops" using assms(2) by (auto simp: op_names_def intro!: bexI[of _ op])
  with raised_ge[of "last_mutation_version m n" v] show ?thesis by (auto simp: bump_touched_marks)
qed

section \<open>Operations on an ordered store\<close>

context ordered_store
begin

lemma apply_ops_eq:
  assumes "inv (info_store m)"
  obtains s where "apply_ops D ops m = (Inr (), m\<lparr>info_store := s\<rparr>)" "inv s"
    "\<alpha> s = fold apply_op (kv_ops_of ops) (\<alpha> (info_store m))"
proof (cases "kv_ops_of ops = []")
  case True
  then show ?thesis using that[of "info_store m"] assms by (simp add: apply_ops_def)
next
  case False
  obtain s where "transact (ds_set D) (ds_remove D) (kv_ops_of ops) (info_store m) = (Inr (), s)" "inv s"
      "\<alpha> s = fold apply_op (kv_ops_of ops) (\<alpha> (info_store m))"
    using transact_eq[OF assms] .
  with False that[of s] show ?thesis by (simp add: apply_ops_def)
qed

lemma on_record_created_inv:
  assumes "inv (info_store m)" and "index_inv (\<alpha> (info_store m)) t (indexes m)" and "t rid = None" and "length rid = 16"
  obtains m' where "on_record_created mp D rid rec v m = (Inr (), m')" "inv (info_store m')" "indexes m' = indexes m"
    "index_inv (\<alpha> (info_store m')) (t(rid \<mapsto> rec)) (indexes m)" "reader_open m' = reader_open m"
proof -
  define ops where "ops = concat (map (plan_created_one mp rid rec v) (indexes m))"
  have plan: "plan_record_created mp m rid rec v = Inr ops" by (simp add: plan_record_created_def ops_def)
  obtain s where "apply_ops D ops (bump_touched_indexes ops v m) = (Inr (), (bump_touched_indexes ops v m)\<lparr>info_store := s\<rparr>)"
      "inv s" "\<alpha> s = fold apply_op (kv_ops_of ops) (\<alpha> (info_store m))"
    using apply_ops_eq[of "bump_touched_indexes ops v m" ops] assms(1) by auto
  with plan index_inv_create[OF assms(2-4), of mp rec v]
    that[of "(bump_touched_indexes ops v m)\<lparr>info_store := s\<rparr>"] show ?thesis
    by (simp add: on_record_created_def ops_def)
qed

lemma on_record_updated_inv:
  assumes "inv (info_store m)" and "index_inv (\<alpha> (info_store m)) t (indexes m)" and "t rid = Some old"
  obtains m' where "on_record_updated mp D rid old new v m = (Inr (), m')" "inv (info_store m')" "indexes m' = indexes m"
    "index_inv (\<alpha> (info_store m')) (t(rid \<mapsto> new)) (indexes m)" "reader_open m' = reader_open m"
proof -
  define ops where "ops = concat (map (plan_updated_one mp rid old new v) (indexes m))"
  have plan: "plan_record_updated mp m rid old new v = Inr ops" by (simp add: plan_record_updated_def ops_def)
  obtain s where "apply_ops D ops (bump_touched_indexes ops v m) = (Inr (), (bump_touched_indexes ops v m)\<lparr>info_store := s\<rparr>)"
      "inv s" "\<alpha> s = fold apply_op (kv_ops_of ops) (\<alpha> (info_store m))"
    using apply_ops_eq[of "bump_touched_indexes ops v m" ops] assms(1) by auto
  with plan index_inv_update[OF assms(2,3), of mp new v]
    that[of "(bump_touched_indexes ops v m)\<lparr>info_store := s\<rparr>"] show ?thesis
    by (simp add: on_record_updated_def ops_def)
qed

lemma on_record_deleted_inv:
  assumes "inv (info_store m)" and "index_inv (\<alpha> (info_store m)) t (indexes m)" and "t rid = Some rec"
  obtains m' where "on_record_deleted D rid rec v m = (Inr (), m')" "inv (info_store m')" "indexes m' = indexes m"
    "index_inv (\<alpha> (info_store m')) (t(rid := None)) (indexes m)" "reader_open m' = reader_open m"
proof -
  define ops where "ops = concat (map (\<lambda>d. case extract_field rec (field_path d) of None \<Rightarrow> []
     | Some encoded \<Rightarrow> [RemovePosting (build_entry_key (name_interned d) encoded rid) (def_provenance d) None]) (indexes m))"
  have plan: "plan_record_deleted m rid rec = Inr ops" by (simp add: plan_record_deleted_def ops_def)
  obtain s where "apply_ops D ops (bump_touched_indexes ops v m) = (Inr (), (bump_touched_indexes ops v m)\<lparr>info_store := s\<rparr>)"
      "inv s" "\<alpha> s = fold apply_op (kv_ops_of ops) (\<alpha> (info_store m))"
    using apply_ops_eq[of "bump_touched_indexes ops v m" ops] assms(1) by auto
  with plan index_inv_delete[OF assms(2,3)]
    that[of "(bump_touched_indexes ops v m)\<lparr>info_store := s\<rparr>"] show ?thesis
    by (simp add: on_record_deleted_def ops_def)
qed

end

section \<open>Reachable states\<close>

text \<open>
  A table with its sorted indexes evolves by the apply methods of the direct
  write path: a record is created under a fresh id, replaced, or deleted, and
  the index manager is told with the record's old and new contents.
\<close>

inductive table_step :: "msgpack \<Rightarrow> 's dyn_store \<Rightarrow> table \<times> 's sorted_index_manager
    \<Rightarrow> table \<times> 's sorted_index_manager \<Rightarrow> bool" for mp D where
  create: "\<lbrakk>t rid = None; length rid = 16; on_record_created mp D rid rec v m = (r, m')\<rbrakk>
    \<Longrightarrow> table_step mp D (t, m) (t(rid \<mapsto> rec), m')"
| update: "\<lbrakk>t rid = Some old; on_record_updated mp D rid old new v m = (r, m')\<rbrakk>
    \<Longrightarrow> table_step mp D (t, m) (t(rid \<mapsto> new), m')"
| delete: "\<lbrakk>t rid = Some rec; on_record_deleted D rid rec v m = (r, m')\<rbrakk>
    \<Longrightarrow> table_step mp D (t, m) (t(rid := None), m')"

inductive_cases table_stepE: "table_step mp D (t, m) (t', m')"

definition start_manager :: "'s \<Rightarrow> index_def list \<Rightarrow> 's sorted_index_manager" where
  "start_manager s ds = \<lparr>info_store = s, indexes = ds, last_mutation_version = Map.empty, reader_open = True\<rparr>"

text \<open>A store that keeps its invariant and whose postings mirror the table, with the reader gate open.\<close>

definition mgr_ok :: "('s \<Rightarrow> bool) \<Rightarrow> ('s \<Rightarrow> store) \<Rightarrow> table \<Rightarrow> 's sorted_index_manager \<Rightarrow> bool" where
  "mgr_ok ok content t m =
    (ok (info_store m) \<and> index_inv (map_of (content (info_store m))) t (indexes m) \<and> reader_open m)"

context ordered_store
begin

lemma table_step_ok:
  assumes "table_step mp D (t, m) (t', m')" and "mgr_ok inv content t m"
  shows "mgr_ok inv content t' m' \<and> indexes m' = indexes m"
proof -
  have ok: "inv (info_store m)" "index_inv (\<alpha> (info_store m)) t (indexes m)" "reader_open m"
    using assms(2) by (simp_all add: mgr_ok_def)
  from assms(1) show ?thesis
  proof (rule table_stepE)
    fix rid rec v r
    assume t: "t' = t(rid \<mapsto> rec)" "t rid = None" "length rid = 16" "on_record_created mp D rid rec v m = (r, m')"
    show ?thesis
      by (rule on_record_created_inv[OF ok(1,2) t(2,3), of mp rec v]) (use t ok in \<open>simp add: mgr_ok_def\<close>)
  next
    fix rid old new v r
    assume t: "t' = t(rid \<mapsto> new)" "t rid = Some old" "on_record_updated mp D rid old new v m = (r, m')"
    show ?thesis
      by (rule on_record_updated_inv[OF ok(1,2) t(2), of mp new v]) (use t ok in \<open>simp add: mgr_ok_def\<close>)
  next
    fix rid rec v r
    assume t: "t' = t(rid := None)" "t rid = Some rec" "on_record_deleted D rid rec v m = (r, m')"
    show ?thesis
      by (rule on_record_deleted_inv[OF ok(1,2) t(2), of v]) (use t ok in \<open>simp add: mgr_ok_def\<close>)
  qed
qed

lemma reachable_ok:
  assumes "(table_step mp D)\<^sup>*\<^sup>* (t, m) (t', m')" and "mgr_ok inv content t m"
  shows "mgr_ok inv content t' m' \<and> indexes m' = indexes m"
  using assms by (induction rule: rtranclp_induct2) (auto dest: table_step_ok)

end

end
