(* ===== verification/SortedScan.thy ===== *)
theory SortedScan
  imports SortedIndex
begin

text \<open>
  The lookups of a sorted index (\<^verbatim>\<open>scan.rs\<close>): range, minimum, maximum, first and
  last \<open>k\<close>, and the keyset page with its resume cursor and record-id
  tie-breaker; and what they return when the postings mirror the table.
\<close>

section \<open>Bounds and loops\<close>

definition MAINT_SCAN_BATCH :: nat where "MAINT_SCAN_BATCH = 256"

definition range_bounds :: "bytes \<Rightarrow> bytes option \<Rightarrow> bytes option \<Rightarrow> bytes \<times> bytes" where
  "range_bounds pre start_encoded end_encoded =
    ((case start_encoded of Some enc \<Rightarrow> pre @ enc | None \<Rightarrow> pre),
     (case end_encoded of Some enc \<Rightarrow> pre @ enc @ inclusive_hi_suffix | None \<Rightarrow> pre @ replicate 64 0xFF))"

fun collect_ids :: "record_stream \<Rightarrow> record_id list db_result" where
  "collect_ids [] = Inr []"
| "collect_ids (Inl e # _) = Inl e"
| "collect_ids (Inr batch # rest) =
    (case collect_ids rest of
       Inl e \<Rightarrow> Inl e
     | Inr out \<Rightarrow> Inr (List.map_filter (\<lambda>(k, _). decode_record_id_suffix k) batch @ out))"

fun collect_values :: "record_stream \<Rightarrow> (record_id \<times> bytes) list db_result" where
  "collect_values [] = Inr []"
| "collect_values (Inl e # _) = Inl e"
| "collect_values (Inr batch # rest) =
    (case collect_values rest of
       Inl e \<Rightarrow> Inl e
     | Inr out \<Rightarrow> Inr (List.map_filter (\<lambda>(k, v). map_option (\<lambda>rid. (rid, v)) (decode_record_id_suffix k)) batch @ out))"

text \<open>\<^verbatim>\<open>while let Some(batch)\<close> of the first-\<open>k\<close> lookups: \<^verbatim>\<open>Inl\<close> of the inner loop is its early return.\<close>

fun take_ids :: "nat \<Rightarrow> kv list \<Rightarrow> record_id list \<Rightarrow> record_id list + record_id list" where
  "take_ids k [] out = Inr out"
| "take_ids k (e # batch) out =
    (if length out = k then Inl out
     else case decode_record_id_suffix (fst e) of
            Some rid \<Rightarrow> take_ids k batch (out @ [rid])
          | None \<Rightarrow> take_ids k batch out)"

fun first_k_loop :: "nat \<Rightarrow> record_stream \<Rightarrow> record_id list \<Rightarrow> record_id list db_result" where
  "first_k_loop k [] out = Inr out"
| "first_k_loop k (Inl e # _) out = Inl e"
| "first_k_loop k (Inr batch # rest) out =
    (case take_ids k batch out of Inl res \<Rightarrow> Inr res | Inr out' \<Rightarrow> first_k_loop k rest out')"

definition head_id :: "record_stream \<Rightarrow> record_id option db_result" where
  "head_id st =
    (case st of
       [] \<Rightarrow> Inr None
     | Inl e # _ \<Rightarrow> Inl e
     | Inr batch # _ \<Rightarrow> (case batch of [] \<Rightarrow> Inr None | e # _ \<Rightarrow> Inr (decode_record_id_suffix (fst e))))"

section \<open>Lookups\<close>

definition lookup_range :: "'s dyn_store \<Rightarrow> 's sorted_index_manager \<Rightarrow> u64 \<Rightarrow> bytes option \<Rightarrow> bytes option
    \<Rightarrow> record_id list db_result" where
  "lookup_range D m name start_encoded end_encoded =
    (if \<not> reader_open m then Inl (IndexDrainInProgress name)
     else let (lower, upper) = range_bounds (entry_prefix name) start_encoded end_encoded
          in case collect_ids (ds_range D (info_store m) (Some lower) (Some upper) MAINT_SCAN_BATCH) of
               Inl e \<Rightarrow> Inl e
             | Inr out \<Rightarrow> Inr (remdups_adj (sort out)))"

definition lookup_range_with_values :: "'s dyn_store \<Rightarrow> 's sorted_index_manager \<Rightarrow> u64 \<Rightarrow> bytes option \<Rightarrow> bytes option
    \<Rightarrow> (record_id \<times> bytes) list db_result" where
  "lookup_range_with_values D m name start_encoded end_encoded =
    (if \<not> reader_open m then Inl (IndexDrainInProgress name)
     else let (lower, upper) = range_bounds (entry_prefix name) start_encoded end_encoded
          in collect_values (ds_range D (info_store m) (Some lower) (Some upper) MAINT_SCAN_BATCH))"

definition lookup_min :: "'s dyn_store \<Rightarrow> 's sorted_index_manager \<Rightarrow> u64 \<Rightarrow> record_id option db_result" where
  "lookup_min D m name =
    (if \<not> reader_open m then Inl (IndexDrainInProgress name)
     else let (lower, upper) = range_bounds (entry_prefix name) None None
          in head_id (ds_range D (info_store m) (Some lower) (Some upper) 1))"

definition lookup_max :: "'s dyn_store \<Rightarrow> 's sorted_index_manager \<Rightarrow> u64 \<Rightarrow> record_id option db_result" where
  "lookup_max D m name =
    (if \<not> reader_open m then Inl (IndexDrainInProgress name)
     else let (lower, upper) = range_bounds (entry_prefix name) None None
          in head_id (ds_range_rev D (info_store m) (Some lower) (Some upper) 1))"

definition lookup_first_k :: "'s dyn_store \<Rightarrow> 's sorted_index_manager \<Rightarrow> u64 \<Rightarrow> nat \<Rightarrow> record_id list db_result" where
  "lookup_first_k D m name k =
    (if \<not> reader_open m then Inl (IndexDrainInProgress name)
     else if k = 0 then Inr []
     else let (lower, upper) = range_bounds (entry_prefix name) None None
          in first_k_loop k (ds_range D (info_store m) (Some lower) (Some upper) (min k MAINT_SCAN_BATCH)) [])"

definition lookup_last_k :: "'s dyn_store \<Rightarrow> 's sorted_index_manager \<Rightarrow> u64 \<Rightarrow> nat \<Rightarrow> record_id list db_result" where
  "lookup_last_k D m name k =
    (if \<not> reader_open m then Inl (IndexDrainInProgress name)
     else if k = 0 then Inr []
     else let (lower, upper) = range_bounds (entry_prefix name) None None
          in first_k_loop k (ds_range_rev D (info_store m) (Some lower) (Some upper) (min k 256)) [])"

fun count_entries :: "record_stream \<Rightarrow> nat \<Rightarrow> nat db_result" where
  "count_entries [] n = Inr n"
| "count_entries (Inl e # _) n = Inl e"
| "count_entries (Inr batch # rest) n = count_entries rest (n + length batch)"

definition entry_count :: "'s dyn_store \<Rightarrow> 's sorted_index_manager \<Rightarrow> u64 \<Rightarrow> nat db_result" where
  "entry_count D m name =
    (if \<not> reader_open m then Inl (IndexDrainInProgress name)
     else count_entries (ds_prefix D (info_store m) (entry_prefix name) 1024) 0)"

text \<open>The keyset page: \<^verbatim>\<open>Inl (out, cursor)\<close> of the inner loop is \<^verbatim>\<open>break 'outer\<close>.\<close>

fun page_batch :: "bytes \<Rightarrow> nat \<Rightarrow> bytes option \<Rightarrow> record_id option \<Rightarrow> bool \<Rightarrow> nat \<Rightarrow> kv list \<Rightarrow> record_id list
    \<Rightarrow> (record_id list \<times> bytes) + record_id list" where
  "page_batch seek vstart after_key after_id forward k [] out = Inr out"
| "page_batch seek vstart after_key after_id forward k (e # batch) out =
    (let kb = fst e in
     if after_key = Some kb then page_batch seek vstart after_key after_id forward k batch out
     else if key_value_slice kb vstart = seek \<and> skip_boundary_row kb after_id forward
     then page_batch seek vstart after_key after_id forward k batch out
     else case decode_record_id_suffix kb of
            Some rid \<Rightarrow>
              if length (out @ [rid]) = k then Inl (out @ [rid], kb)
              else page_batch seek vstart after_key after_id forward k batch (out @ [rid])
          | None \<Rightarrow> page_batch seek vstart after_key after_id forward k batch out)"

fun page_loop :: "bytes \<Rightarrow> nat \<Rightarrow> bytes option \<Rightarrow> record_id option \<Rightarrow> bool \<Rightarrow> nat \<Rightarrow> record_stream \<Rightarrow> record_id list
    \<Rightarrow> (record_id list \<times> bytes option) db_result" where
  "page_loop seek vstart after_key after_id forward k [] out = Inr (out, None)"
| "page_loop seek vstart after_key after_id forward k (Inl e # _) out = Inl e"
| "page_loop seek vstart after_key after_id forward k (Inr batch # rest) out =
    (case page_batch seek vstart after_key after_id forward k batch out of
       Inl (out', kb) \<Rightarrow> Inr (out', Some kb)
     | Inr out' \<Rightarrow> page_loop seek vstart after_key after_id forward k rest out')"

text \<open>The bounds of a page: a resume cursor is itself the moving inclusive bound.\<close>

definition page_bounds :: "bytes \<Rightarrow> bytes \<Rightarrow> bytes option \<Rightarrow> bool \<Rightarrow> bytes \<times> bytes" where
  "page_bounds pre seek_encoded after_key forward =
    (if forward then
       (case after_key of
          Some ak \<Rightarrow> (ak, snd (range_bounds pre None None))
        | None \<Rightarrow> range_bounds pre (Some seek_encoded) None)
     else
       (case after_key of
          Some ak \<Rightarrow> (pre, ak)
        | None \<Rightarrow> range_bounds pre None (Some seek_encoded)))"

definition lookup_range_first_k_page ::
  "'s dyn_store \<Rightarrow> 's sorted_index_manager \<Rightarrow> u64 \<Rightarrow> bytes \<Rightarrow> bytes option \<Rightarrow> record_id option \<Rightarrow> nat \<Rightarrow> bool
    \<Rightarrow> (record_id list \<times> bytes option) db_result" where
  "lookup_range_first_k_page D m name seek_encoded after_key after_id k forward =
    (if \<not> reader_open m then Inl (IndexDrainInProgress name)
     else if k = 0 then Inr ([], None)
     else
       let pre = entry_prefix name;
           (lower, upper) = page_bounds pre seek_encoded after_key forward;
           batch = min k MAINT_SCAN_BATCH;
           stream = (if forward then ds_range D (info_store m) (Some lower) (Some upper) batch
                     else ds_range_rev D (info_store m) (Some lower) (Some upper) batch)
       in page_loop seek_encoded (length pre) after_key after_id forward k stream [])"

definition lookup_range_first_k ::
  "'s dyn_store \<Rightarrow> 's sorted_index_manager \<Rightarrow> u64 \<Rightarrow> bytes \<Rightarrow> nat \<Rightarrow> bool \<Rightarrow> record_id list db_result" where
  "lookup_range_first_k D m name seek_encoded k forward =
    (case lookup_range_first_k_page D m name seek_encoded None None k forward of
       Inl e \<Rightarrow> Inl e
     | Inr (ids, _) \<Rightarrow> Inr ids)"

section \<open>The rows of an index\<close>

type_synonym row = "scalar_ref \<times> record_id"

definition row_set :: "table \<Rightarrow> index_def \<Rightarrow> row set" where
  "row_set t d = {(sr, rid). \<exists>rec. t rid = Some rec \<and> scalar_at rec (field_path d) = Some sr \<and> indexable sr}"

definition row_key :: "index_def \<Rightarrow> row \<Rightarrow> bytes" where
  "row_key d r = build_entry_key (name_interned d) (scalar_enc (fst r)) (snd r)"

definition row_less :: "row \<Rightarrow> row \<Rightarrow> bool" where
  "row_less r r' = (scalar_less (fst r) (fst r') \<or> (fst r = fst r' \<and> snd r < snd r'))"

definition row_between :: "scalar_ref option \<Rightarrow> scalar_ref option \<Rightarrow> row \<Rightarrow> bool" where
  "row_between lo hi r = ((\<forall>l. lo = Some l \<longrightarrow> \<not> scalar_less (fst r) l) \<and> (\<forall>h. hi = Some h \<longrightarrow> \<not> scalar_less h (fst r)))"

lemma extract_field_iff:
  "extract_field rec p = Some enc \<longleftrightarrow> (\<exists>sr. scalar_at rec p = Some sr \<and> indexable sr \<and> enc = scalar_enc sr)"
proof (cases "scalar_at rec p")
  case None
  then show ?thesis by (simp add: extract_field_def)
next
  case (Some sr)
  then show ?thesis by (auto simp: extract_field_def extract_and_encode_Some)
qed

lemma postings_of_rows: "postings_of t d = row_key d ` row_set t d"
  by (rule set_eqI) (auto simp: postings_of_def row_set_def row_key_def extract_field_iff image_iff)

lemma row_key_less:
  assumes "indexable (fst r)" "indexable (fst r')"
  shows "row_key d r < row_key d r' \<longleftrightarrow> row_less r r'"
  using scalarc.less_iff[OF assms] by (simp add: row_key_def row_less_def build_entry_key_def sorted_posting_key_def)

lemma row_key_inject:
  assumes "indexable (fst r)" "indexable (fst r')"
  shows "row_key d r = row_key d r' \<longleftrightarrow> r = r'"
  using scalarc.prefix_free[OF assms]
  by (auto simp: row_key_def build_entry_key_def sorted_posting_key_def prod_eq_iff)

lemma row_set_indexable: "r \<in> row_set t d \<Longrightarrow> indexable (fst r)"
  by (auto simp: row_set_def)

lemma row_set_length: "table_ok t \<Longrightarrow> r \<in> row_set t d \<Longrightarrow> length (snd r) = 16"
  by (auto simp: row_set_def table_ok_def)

text \<open>The rows a keyset page walks over: those at or beyond the seek value on the first page, those
  strictly beyond the row of the cursor on a later one; never a row at the seek value that the
  tie-breaker says was seen (all of them, without a tie-breaker).\<close>

definition page_row :: "scalar_ref \<Rightarrow> row option \<Rightarrow> record_id option \<Rightarrow> bool \<Rightarrow> row \<Rightarrow> bool" where
  "page_row seek after after_id forward r =
    ((case after of
        None \<Rightarrow> if forward then \<not> scalar_less (fst r) seek else \<not> scalar_less seek (fst r)
      | Some r0 \<Rightarrow> if forward then row_less r0 r else row_less r r0)
     \<and> \<not> (fst r = seek \<and> (case after_id of None \<Rightarrow> True | Some a \<Rightarrow> if forward then snd r \<le> a else a \<le> snd r)))"

definition page_walk :: "scalar_ref \<Rightarrow> row option \<Rightarrow> bool \<Rightarrow> row \<Rightarrow> bool" where
  "page_walk seek after forward r =
    (case after of
       None \<Rightarrow> if forward then \<not> scalar_less (fst r) seek else \<not> scalar_less seek (fst r)
     | Some r0 \<Rightarrow> r = r0 \<or> (if forward then row_less r0 r else row_less r r0))"

section \<open>Which keys the bounds select\<close>

lemma between_prefix: "\<lbrakk>p @ x \<le> k; k \<le> p @ y\<rbrakk> \<Longrightarrow> prefix p (k :: 'a :: linorder list)"
proof (induction p arbitrary: k)
  case (Cons a p)
  then show ?case by (cases k) auto
qed simp

lemma le_replicate_FF: "length xs \<le> n \<Longrightarrow> xs \<le> replicate n (0xFF :: u8)"
proof (induction xs arbitrary: n)
  case (Cons x xs)
  have "x \<le> 0xFF" using unat_less_pow[of x] by (simp add: word_le_nat_alt)
  with Cons show ?case by (cases n) auto
qed simp

lemma rid_le_suffix: "length rid = 16 \<Longrightarrow> rid \<le> inclusive_hi_suffix"
  by (simp add: inclusive_hi_suffix_def le_replicate_FF)

lemma enc_less_FF:
  assumes "indexable sr"
  shows "scalar_enc sr @ s < replicate 64 0xFF"
proof -
  have "replicate 64 (0xFF :: u8) = 0xFF # replicate 63 0xFF"
    using replicate_Suc[of 63 "0xFF :: u8"] by simp
  moreover have "[TAG_NULL, TAG_BOOL, TAG_I64, TAG_F64, TAG_STR, TAG_BYTES] ! scalar_rank sr < 0xFF"
    by (cases sr) (simp_all add: tag_defs nth_Cons')
  ultimately show ?thesis by (subst scalar_enc_tag[OF assms]) simp
qed

lemma window_row:
  assumes "indexable (fst r)" "length (snd r) = 16"
    and "\<forall>l. lo = Some l \<longrightarrow> indexable l" "\<forall>h. hi = Some h \<longrightarrow> indexable h"
    and "range_bounds (entry_prefix (name_interned d)) (map_option scalar_enc lo) (map_option scalar_enc hi) = (lower, upper)"
  shows "in_window (Some lower) (Some upper) (row_key d r) \<longleftrightarrow> row_between lo hi r"
proof -
  let ?k = "scalar_enc (fst r) @ snd r"
  have lo: "lower \<le> row_key d r \<longleftrightarrow> (\<forall>l. lo = Some l \<longrightarrow> \<not> scalar_less (fst r) l)"
  proof (cases lo)
    case None
    then show ?thesis
      using assms(5) by (auto simp: range_bounds_def row_key_def entry_prefix_def build_entry_key_def sorted_posting_key_def)
  next
    case (Some l)
    then have "lower \<le> row_key d r \<longleftrightarrow> scalar_enc l \<le> ?k"
      using assms(5) by (auto simp: range_bounds_def row_key_def entry_prefix_def build_entry_key_def sorted_posting_key_def)
    with Some assms(1,3) scalarc.le_iff[of l "fst r" "[]" "snd r"] scalarc.lt_total[of l "fst r"]
      scalarc.lt_asym[of l "fst r"] scalarc.lt_irrefl[of l] show ?thesis by (auto)
  qed
  have hi: "row_key d r \<le> upper \<longleftrightarrow> (\<forall>h. hi = Some h \<longrightarrow> \<not> scalar_less h (fst r))"
  proof (cases hi)
    case None
    then have "row_key d r \<le> upper \<longleftrightarrow> ?k \<le> replicate 64 0xFF"
      using assms(5) by (auto simp: range_bounds_def row_key_def entry_prefix_def build_entry_key_def sorted_posting_key_def)
    with None enc_less_FF[OF assms(1), of "snd r"] show ?thesis by (auto)
  next
    case (Some h)
    then have "row_key d r \<le> upper \<longleftrightarrow> ?k \<le> scalar_enc h @ inclusive_hi_suffix"
      using assms(5) by (auto simp: range_bounds_def row_key_def entry_prefix_def build_entry_key_def sorted_posting_key_def)
    with Some assms(1,4) scalarc.le_iff[of "fst r" h "snd r" inclusive_hi_suffix] rid_le_suffix[OF assms(2)]
      scalarc.lt_total[of "fst r" h] scalarc.lt_asym[of "fst r" h] scalarc.lt_irrefl[of h]
    show ?thesis by (auto)
  qed
  show ?thesis using lo hi by (auto simp: in_window_def past_lo_def past_hi_def row_between_def not_less)
qed

lemma range_bounds_prefix:
  assumes "range_bounds p x y = (lower, upper)" and "in_window (Some lower) (Some upper) k"
  shows "prefix p k"
  using assms between_prefix[of p "[]"] between_prefix[of p]
  by (auto simp: range_bounds_def in_window_def past_lo_def past_hi_def not_less split: option.splits)

section \<open>The loops over a stream\<close>

definition ids_of :: "kv list \<Rightarrow> record_id list" where
  "ids_of es = List.map_filter (\<lambda>(k, _). decode_record_id_suffix k) es"

lemma map_filter_append [simp]: "List.map_filter f (xs @ ys) = List.map_filter f xs @ List.map_filter f ys"
  by (simp add: List.map_filter_def)

lemma ids_of_append [simp]: "ids_of (xs @ ys) = ids_of xs @ ids_of ys"
  by (simp add: ids_of_def)

lemma ids_of_Cons: "ids_of (e # es) = (case decode_record_id_suffix (fst e) of None \<Rightarrow> ids_of es | Some rid \<Rightarrow> rid # ids_of es)"
  by (cases e) (simp add: ids_of_def split: option.split)

lemma collect_ids_eq: "collect_ids (map Inr bs) = Inr (ids_of (concat bs))"
  by (induction bs) (simp_all add: ids_of_def)

lemma collect_values_eq:
  "collect_values (map Inr bs) = Inr (List.map_filter (\<lambda>(k, v). map_option (\<lambda>rid. (rid, v)) (decode_record_id_suffix k)) (concat bs))"
  by (induction bs) simp_all

lemma take_ids_spec:
  assumes "length out \<le> k"
  shows "(case take_ids k batch out of Inl res \<Rightarrow> length res = k \<and> res = out @ take (k - length out) (ids_of batch)
    | Inr out' \<Rightarrow> out' = out @ ids_of batch \<and> length out' \<le> k)"
  using assms
proof (induction k batch out rule: take_ids.induct)
  case (2 k e batch out)
  show ?case
  proof (cases "length out = k")
    case False
    then have lt: "length out < k" using 2(3) by simp
    show ?thesis
    proof (cases "decode_record_id_suffix (fst e)")
      case None
      with False 2(1)[OF False None 2(3)] show ?thesis by (simp add: ids_of_Cons split: sum.splits)
    next
      case (Some rid)
      have "k - length out = Suc (k - length (out @ [rid]))" using lt by simp
      with False Some lt 2(2)[OF False Some] show ?thesis by (auto simp: ids_of_Cons split: sum.splits)
    qed
  qed simp
qed (simp add: ids_of_def)

lemma first_k_loop_eq:
  "length out \<le> k \<Longrightarrow> first_k_loop k (map Inr bs) out = Inr (take k (out @ ids_of (concat bs)))"
proof (induction bs arbitrary: out)
  case (Cons b bs)
  show ?case
  proof (cases "take_ids k b out")
    case (Inl res)
    note take_ids_spec[OF Cons.prems, of b, unfolded Inl sum.case]
    then have r: "length res = k" "res = out @ take (k - length out) (ids_of b)" by blast+
    then have "k - length out \<le> length (ids_of b)" using Cons.prems by auto
    with r Inl Cons.prems show ?thesis by (auto simp: take_Cons')
  next
    case (Inr out')
    note take_ids_spec[OF Cons.prems, of b, unfolded Inr sum.case]
    then have r: "out' = out @ ids_of b" "length out' \<le> k" by blast+
    show ?thesis using Inr Cons.IH[OF r(2)] r(1) by simp
  qed
qed (simp add: ids_of_def)

lemma head_id_eq:
  assumes "[] \<notin> set bs" and "\<forall>e \<in> set (concat bs). decode_record_id_suffix (fst e) \<noteq> None"
  shows "head_id (map Inr bs) = Inr (case ids_of (concat bs) of [] \<Rightarrow> None | rid # _ \<Rightarrow> Some rid)"
proof (cases bs)
  case (Cons b bs')
  then obtain e es where "b = e # es" using assms(1) by (cases b) auto
  with Cons assms(2) show ?thesis by (auto simp: head_id_def ids_of_Cons)
qed (simp add: head_id_def ids_of_def)

lemma count_entries_eq: "count_entries (map Inr bs) n = Inr (n + length (concat bs))"
  by (induction bs arbitrary: n) auto

text \<open>The entries a keyset page keeps, and the page itself: the first \<open>k\<close> of them with the physical key
  of the last as the cursor, or all of them and no cursor when there are fewer.\<close>

definition page_keeps :: "bytes \<Rightarrow> nat \<Rightarrow> bytes option \<Rightarrow> record_id option \<Rightarrow> bool \<Rightarrow> bytes \<Rightarrow> bool" where
  "page_keeps seek vstart after_key after_id forward kb =
    (after_key \<noteq> Some kb \<and> \<not> (key_value_slice kb vstart = seek \<and> skip_boundary_row kb after_id forward))"

definition page_of :: "nat \<Rightarrow> bytes list \<Rightarrow> record_id list \<times> bytes option" where
  "page_of k keys = (map (\<lambda>kb. the (decode_record_id_suffix kb)) (take k keys),
     if k \<le> length keys then Some (keys ! (k - 1)) else None)"

lemma page_batch_eq:
  assumes "length out < k" and "\<forall>e \<in> set es. decode_record_id_suffix (fst e) \<noteq> None"
    and "ks = filter (page_keeps seek vs ak ai fw) (map fst es)"
  shows "page_batch seek vs ak ai fw k es out =
    (if k \<le> length out + length ks
     then Inl (out @ fst (page_of (k - length out) ks), ks ! (k - length out - 1))
     else Inr (out @ map (\<lambda>kb. the (decode_record_id_suffix kb)) ks))"
  using assms(1,2) unfolding assms(3)
proof (induction es arbitrary: out)
  case (Cons e es)
  let ?ks = "filter (page_keeps seek vs ak ai fw) (map fst es)"
  obtain rid where rid: "decode_record_id_suffix (fst e) = Some rid" using Cons.prems by auto
  show ?case
  proof (cases "page_keeps seek vs ak ai fw (fst e)")
    case False
    then have "page_batch seek vs ak ai fw k (e # es) out = page_batch seek vs ak ai fw k es out"
      by (auto simp: page_keeps_def Let_def)
    with False Cons.IH[OF Cons.prems(1)] Cons.prems(2) show ?thesis by simp
  next
    case True
    then have step: "page_batch seek vs ak ai fw k (e # es) out =
        (if length (out @ [rid]) = k then Inl (out @ [rid], fst e) else page_batch seek vs ak ai fw k es (out @ [rid]))"
      using rid by (auto simp: page_keeps_def Let_def)
    show ?thesis
    proof (cases "length (out @ [rid]) = k")
      case True': True
      then have "k - length out = 1" by auto
      with True True' rid step show ?thesis by (simp add: page_of_def)
    next
      case False
      then have lt: "length (out @ [rid]) < k" using Cons.prems(1) by simp
      have n: "k - length out = Suc (k - length (out @ [rid]))" "k - length out - 1 = Suc (k - length (out @ [rid]) - 1)"
        using lt by simp_all
      from Cons.IH[OF lt] Cons.prems(2) False step True rid n show ?thesis by (auto simp: page_of_def)
    qed
  qed
qed simp

lemma page_of_prefix: "\<lbrakk>0 < k; k \<le> length xs\<rbrakk> \<Longrightarrow> page_of k (xs @ ys) = (fst (page_of k xs), Some (xs ! (k - 1)))"
  by (auto simp: page_of_def nth_append)

lemma page_of_append:
  assumes "length xs < k"
  shows "page_of k (xs @ ys) = (map (\<lambda>kb. the (decode_record_id_suffix kb)) xs @ fst (page_of (k - length xs) ys),
    snd (page_of (k - length xs) ys))"
proof -
  have "\<not> k - 1 < length xs" "k \<le> length xs + length ys \<longleftrightarrow> k - length xs \<le> length ys"
    "k - 1 - length xs = k - length xs - 1"
    using assms by auto
  with assms show ?thesis by (simp add: page_of_def nth_append)
qed

lemma page_loop_eq:
  assumes "length out < k" and "\<forall>e \<in> set (concat bs). decode_record_id_suffix (fst e) \<noteq> None"
  shows "page_loop seek vs ak ai fw k (map Inr bs) out =
    (let (ids, cursor) = page_of (k - length out) (filter (page_keeps seek vs ak ai fw) (map fst (concat bs)))
     in Inr (out @ ids, cursor))"
  using assms
proof (induction bs arbitrary: out)
  case Nil
  then show ?case by (simp add: page_of_def)
next
  case (Cons b bs)
  let ?ks = "filter (page_keeps seek vs ak ai fw) (map fst b)"
  have pb: "page_batch seek vs ak ai fw k b out =
    (if k \<le> length out + length ?ks
     then Inl (out @ fst (page_of (k - length out) ?ks), ?ks ! (k - length out - 1))
     else Inr (out @ map (\<lambda>kb. the (decode_record_id_suffix kb)) ?ks))"
    using Cons.prems by (intro page_batch_eq[OF _ _ refl]) auto
  show ?case
  proof (cases "k \<le> length out + length ?ks")
    case True
    then have "0 < k - length out" "k - length out \<le> length ?ks" using Cons.prems(1) by linarith+
    with True pb page_of_prefix[OF this] show ?thesis by (simp add: Let_def)
  next
    case False
    then have lt: "length (out @ map (\<lambda>kb. the (decode_record_id_suffix kb)) ?ks) < k" by simp
    have d: "\<forall>e \<in> set (concat bs). decode_record_id_suffix (fst e) \<noteq> None" using Cons.prems by auto
    have "length ?ks < k - length out" "k - length out - length ?ks = k - (length out + length ?ks)" using False by linarith+
    with Cons.IH[OF lt d] False pb page_of_append[OF this(1)] show ?thesis by (simp add: split_beta Let_def)
  qed
qed

section \<open>Lookups over postings that mirror the table\<close>

lemma ids_of_fst: "ids_of es = List.map_filter decode_record_id_suffix (map fst es)"
  by (induction es) (auto simp: ids_of_Cons ids_of_def split: option.split)

lemma map_filter_row_key:
  "\<forall>r \<in> set rs. length (snd r) = 16 \<Longrightarrow> List.map_filter decode_record_id_suffix (map (row_key d) rs) = map snd rs"
  by (induction rs) (auto simp: row_key_def)

lemma strict_sorted_remdups_adj: "sorted xs \<Longrightarrow> sorted_wrt (<) (remdups_adj (xs :: 'a :: linorder list))"
  by (induction xs rule: remdups_adj.induct) (auto simp: less_le)

context ordered_store
begin

lemma rows_exist:
  assumes "mgr_ok inv content t m" and "d \<in> set (indexes m)"
  obtains rows where "filter (prefix (entry_prefix (name_interned d))) (map fst (content (info_store m))) = map (row_key d) rows"
    "set rows = row_set t d" "sorted_wrt row_less rows"
proof -
  let ?keys = "filter (prefix (entry_prefix (name_interned d))) (map fst (content (info_store m)))"
  define rows where "rows = map (inv_into (row_set t d) (row_key d)) ?keys"
  have ok: "ti_ok (content (info_store m))" using assms(1) content_ok by (simp add: mgr_ok_def)
  have "mirrors (\<alpha> (info_store m)) t d" using assms by (simp add: mgr_ok_def index_inv_def)
  then have keys: "set ?keys = row_key d ` row_set t d"
    by (auto simp: mirrors_def postings_of_rows dom_map_of_conv_image_fst)
  have inj: "inj_on (row_key d) (row_set t d)"
    using row_key_inject row_set_indexable by (auto intro!: inj_onI)
  have map: "map (row_key d) rows = ?keys"
    unfolding rows_def map_map using keys
    by (intro map_idI) (simp add: f_inv_into_f)
  have "set rows = inv_into (row_set t d) (row_key d) ` set ?keys" unfolding rows_def by (rule list.set_map)
  then have set: "set rows = row_set t d" unfolding keys by (simp add: inj)
  have "sorted_wrt (<) (map (row_key d) rows)"
    using ok unfolding map ti_ok_def by (rule sorted_wrt_filter)
  then have "sorted_wrt row_less rows"
    unfolding sorted_wrt_map
    by (rule sorted_wrt_mono_rel[rotated]) (use set row_set_indexable row_key_less in blast)
  with map set that show ?thesis by metis
qed

lemma window_rows:
  assumes rows: "filter (prefix (entry_prefix (name_interned d))) (map fst (content (info_store m))) = map (row_key d) rows"
    and pre: "\<And>k. w k \<Longrightarrow> prefix (entry_prefix (name_interned d)) k"
    and Q: "\<And>r. r \<in> set rows \<Longrightarrow> w (row_key d r) \<longleftrightarrow> Q r"
  shows "map fst (filter (\<lambda>e. w (fst e)) (content (info_store m))) = map (row_key d) (filter Q rows)"
proof -
  let ?c = "content (info_store m)"
  have "map fst (filter (\<lambda>e. w (fst e)) ?c) = filter w (map fst ?c)" by (simp add: filter_map o_def)
  also have "\<dots> = filter w (filter (prefix (entry_prefix (name_interned d))) (map fst ?c))"
    by (rule filter_filter_implied[symmetric]) (rule pre)
  also have "\<dots> = map (row_key d) (filter (\<lambda>r. w (row_key d r)) rows)"
    unfolding rows by (simp add: filter_map o_def)
  also have "filter (\<lambda>r. w (row_key d r)) rows = filter Q rows"
    using Q by (rule filter_cong[OF refl])
  finally show ?thesis .
qed

lemma row_facts:
  assumes "mgr_ok inv content t m" and "r \<in> row_set t d"
  shows "indexable (fst r)" "length (snd r) = 16"
  using assms row_set_indexable[of r t d] row_set_length[of t r d] by (simp_all add: mgr_ok_def index_inv_def)

lemma window_ids:
  assumes ok: "mgr_ok inv content t m"
    and rows: "filter (prefix (entry_prefix (name_interned d))) (map fst (content (info_store m))) = map (row_key d) rows"
      "set rows = row_set t d"
    and lohi: "\<forall>l. lo = Some l \<longrightarrow> indexable l" "\<forall>h. hi = Some h \<longrightarrow> indexable h"
    and b: "range_bounds (entry_prefix (name_interned d)) (map_option scalar_enc lo) (map_option scalar_enc hi) = (lower, upper)"
  shows "map fst (filter (\<lambda>e. in_window (Some lower) (Some upper) (fst e)) (content (info_store m)))
      = map (row_key d) (filter (row_between lo hi) rows)"
  by (rule window_rows[OF rows(1) range_bounds_prefix[OF b]])
    (use window_row[OF _ _ lohi b] row_facts[OF ok] rows(2) in blast)+

lemma ids_of_rows:
  assumes "mgr_ok inv content t m" and "set rows \<subseteq> row_set t d" and "map fst es = map (row_key d) rows"
  shows "ids_of es = map snd rows" and "\<forall>e \<in> set es. decode_record_id_suffix (fst e) \<noteq> None"
proof -
  have r: "\<forall>r \<in> set rows. length (snd r) = 16"
    using assms row_set_length[of t _ d] unfolding mgr_ok_def index_inv_def by blast
  show "ids_of es = map snd rows" unfolding ids_of_fst assms(3) using r by (rule map_filter_row_key)
  have "fst e \<in> row_key d ` set rows" if "e \<in> set es" for e
    using that assms(3) by (metis imageI list.set_map)
  then show "\<forall>e \<in> set es. decode_record_id_suffix (fst e) \<noteq> None" using r by (fastforce simp: row_key_def)
qed

lemma lookup_range_spec:
  assumes ok: "mgr_ok inv content t m" and d: "d \<in> set (indexes m)"
    and lohi: "\<forall>l. lo = Some l \<longrightarrow> indexable l" "\<forall>h. hi = Some h \<longrightarrow> indexable h"
  obtains out where "lookup_range D m (name_interned d) (map_option scalar_enc lo) (map_option scalar_enc hi) = Inr out"
    "sorted_wrt (<) out" "set out = snd ` {r \<in> row_set t d. row_between lo hi r}"
proof -
  obtain rows where rows: "filter (prefix (entry_prefix (name_interned d))) (map fst (content (info_store m))) = map (row_key d) rows"
      "set rows = row_set t d" "sorted_wrt row_less rows" using rows_exist[OF ok d] .
  obtain lower upper where b: "range_bounds (entry_prefix (name_interned d)) (map_option scalar_enc lo) (map_option scalar_enc hi) = (lower, upper)"
    by (rule prod.exhaust)
  have "inv (info_store m)" "(0 :: nat) < MAINT_SCAN_BATCH" "reader_open m"
    using ok by (simp_all add: mgr_ok_def MAINT_SCAN_BATCH_def)
  then obtain bs where bs: "ds_range D (info_store m) (Some lower) (Some upper) MAINT_SCAN_BATCH = map Inr bs"
      "concat bs = filter (\<lambda>e. in_window (Some lower) (Some upper) (fst e)) (content (info_store m))"
    using range_spec by metis
  have ids: "ids_of (concat bs) = map snd (filter (row_between lo hi) rows)"
    by (rule ids_of_rows(1)[OF ok, where d = d]) (use rows(2) window_ids[OF ok rows(1,2) lohi b] bs(2) in auto)
  let ?out = "remdups_adj (sort (ids_of (concat bs)))"
  have "lookup_range D m (name_interned d) (map_option scalar_enc lo) (map_option scalar_enc hi) = Inr ?out"
    using \<open>reader_open m\<close> by (simp add: lookup_range_def b bs(1) collect_ids_eq)
  moreover have "sorted_wrt (<) ?out" by (rule strict_sorted_remdups_adj) simp
  moreover have "set ?out = snd ` {r \<in> row_set t d. row_between lo hi r}" using rows(2) by (auto simp: ids)
  ultimately show ?thesis by (rule that)
qed

text \<open>The lookups without a value bound walk all rows in order, from either end.\<close>

lemma ordered_lookups_spec:
  assumes ok: "mgr_ok inv content t m" and d: "d \<in> set (indexes m)"
  obtains rows where "set rows = row_set t d" "sorted_wrt row_less rows"
    "\<And>k. lookup_first_k D m (name_interned d) k = Inr (map snd (take k rows))"
    "\<And>k. lookup_last_k D m (name_interned d) k = Inr (map snd (take k (rev rows)))"
    "lookup_min D m (name_interned d) = Inr (if rows = [] then None else Some (snd (hd rows)))"
    "lookup_max D m (name_interned d) = Inr (if rows = [] then None else Some (snd (last rows)))"
    "entry_count D m (name_interned d) = Inr (length rows)"
proof -
  obtain rows where rows: "filter (prefix (entry_prefix (name_interned d))) (map fst (content (info_store m))) = map (row_key d) rows"
      "set rows = row_set t d" "sorted_wrt row_less rows" using rows_exist[OF ok d] .
  obtain lower upper where b: "range_bounds (entry_prefix (name_interned d)) None None = (lower, upper)"
    by (rule prod.exhaust)
  have all: "filter (row_between None None) rows = rows" by (simp add: row_between_def)
  have w: "map fst (filter (\<lambda>e. in_window (Some lower) (Some upper) (fst e)) (content (info_store m))) = map (row_key d) rows"
    using window_ids[OF ok rows(1,2), of None None lower upper] b by (simp add: all)
  have st: "inv (info_store m)" "reader_open m" using ok by (simp_all add: mgr_ok_def)
  have fwd: "\<exists>bs. ds_range D (info_store m) (Some lower) (Some upper) n = map Inr bs \<and> [] \<notin> set bs
      \<and> ids_of (concat bs) = map snd rows \<and> (\<forall>e \<in> set (concat bs). decode_record_id_suffix (fst e) \<noteq> None)" if "0 < n" for n
    using range_spec[OF st(1) that, of "Some lower" "Some upper"] ids_of_rows[OF ok equalityD1[OF rows(2)] w] by metis
  have bwd: "\<exists>bs. ds_range_rev D (info_store m) (Some lower) (Some upper) n = map Inr bs \<and> [] \<notin> set bs
      \<and> ids_of (concat bs) = map snd (rev rows) \<and> (\<forall>e \<in> set (concat bs). decode_record_id_suffix (fst e) \<noteq> None)" if "0 < n" for n
  proof -
    have "set (rev rows) \<subseteq> row_set t d" using rows(2) by simp
    moreover have "map fst (rev (filter (\<lambda>e. in_window (Some lower) (Some upper) (fst e)) (content (info_store m)))) = map (row_key d) (rev rows)"
      using w by (simp flip: rev_map)
    ultimately show ?thesis
      using range_rev_spec[OF st(1) that, of "Some lower" "Some upper"] ids_of_rows[OF ok] by metis
  qed
  have 1: "lookup_first_k D m (name_interned d) k = Inr (map snd (take k rows))" for k
    using fwd[of "min k MAINT_SCAN_BATCH"] st(2)
    by (cases "k = 0") (auto simp: lookup_first_k_def b first_k_loop_eq MAINT_SCAN_BATCH_def take_map)
  have 2: "lookup_last_k D m (name_interned d) k = Inr (map snd (take k (rev rows)))" for k
    using bwd[of "min k 256"] st(2)
    by (cases "k = 0") (auto simp: lookup_last_k_def b first_k_loop_eq take_map)
  have 3: "lookup_min D m (name_interned d) = Inr (if rows = [] then None else Some (snd (hd rows)))"
    using fwd[of 1] st(2) by (cases rows) (auto simp: lookup_min_def b head_id_eq)
  have 4: "lookup_max D m (name_interned d) = Inr (if rows = [] then None else Some (snd (last rows)))"
    using bwd[of 1] st(2) by (cases rows rule: rev_cases) (auto simp: lookup_max_def b head_id_eq)
  obtain bs where "ds_prefix D (info_store m) (entry_prefix (name_interned d)) 1024 = map Inr bs"
      "concat bs = filter (\<lambda>e. prefix (entry_prefix (name_interned d)) (fst e)) (content (info_store m))"
    using prefix_spec[OF st(1), of 1024 "entry_prefix (name_interned d)"] by auto
  moreover have "length (filter (\<lambda>e. prefix (entry_prefix (name_interned d)) (fst e)) (content (info_store m))) = length rows"
    using arg_cong[OF rows(1), of length] by (simp add: filter_map o_def)
  ultimately have 5: "entry_count D m (name_interned d) = Inr (length rows)"
    using st(2) by (simp add: entry_count_def count_entries_eq)
  show ?thesis using that[OF rows(2,3) 1 2 3 4 5] .
qed

lemma page_rows:
  assumes ok: "mgr_ok inv content t m" and rs: "set rs \<subseteq> row_set t d" and seek: "indexable seek" and k: "0 < k"
    and bs: "\<exists>bs. st = map Inr bs \<and> map fst (concat bs) = map (row_key d) rs"
    and r0: "\<forall>r. after = Some r \<longrightarrow> indexable (fst r)"
  shows "page_loop (scalar_enc seek) 9 (map_option (row_key d) after) ai fw k st [] =
    (let cand = filter (\<lambda>r. after \<noteq> Some r \<and> \<not> (fst r = seek \<and> (case ai of None \<Rightarrow> True | Some a \<Rightarrow> if fw then snd r \<le> a else a \<le> snd r))) rs
     in Inr (map snd (take k cand), if k \<le> length cand then Some (row_key d (cand ! (k - 1))) else None))"
proof -
  obtain bs' where b: "st = map Inr bs'" "map fst (concat bs') = map (row_key d) rs" using bs by blast
  let ?P = "\<lambda>r. after \<noteq> Some r \<and> \<not> (fst r = seek \<and> (case ai of None \<Rightarrow> True | Some a \<Rightarrow> if fw then snd r \<le> a else a \<le> snd r))"
  have rf: "indexable (fst r)" "length (snd r) = 16" if "r \<in> set rs" for r using row_facts[OF ok] rs that by blast+
  have dec: "decode_record_id_suffix (row_key d r) = Some (snd r)" if "r \<in> set rs" for r
    using rf(2)[OF that] by (simp add: row_key_def)
  have keep: "page_keeps (scalar_enc seek) 9 (map_option (row_key d) after) ai fw (row_key d r) \<longleftrightarrow> ?P r" if "r \<in> set rs" for r
  proof -
    have "key_value_slice (row_key d r) 9 = scalar_enc (fst r)" using rf(2)[OF that] by (simp add: row_key_def)
    moreover have "scalar_enc (fst r) = scalar_enc seek \<longleftrightarrow> fst r = seek"
      using scalarc.prefix_free[OF rf(1)[OF that] seek, of "[]" "[]"] by auto
    moreover have "map_option (row_key d) after = Some (row_key d r) \<longleftrightarrow> after = Some r"
      using row_key_inject[OF _ rf(1)[OF that]] r0 by (cases after) auto
    ultimately show ?thesis by (simp add: page_keeps_def skip_boundary_row_def dec[OF that] split: option.split)
  qed
  have "filter (page_keeps (scalar_enc seek) 9 (map_option (row_key d) after) ai fw) (map (row_key d) rs) = map (row_key d) (filter ?P rs)"
    using keep by (simp add: filter_map o_def cong: filter_cong)
  moreover have "\<forall>e \<in> set (concat bs'). decode_record_id_suffix (fst e) \<noteq> None"
    using ids_of_rows(2)[OF ok rs b(2)] .
  ultimately have "page_loop (scalar_enc seek) 9 (map_option (row_key d) after) ai fw k st []
      = Inr (page_of k (map (row_key d) (filter ?P rs)))"
    using page_loop_eq[of "[]" k bs'] k b by (simp add: split_beta Let_def)
  moreover have "map (\<lambda>kb. the (decode_record_id_suffix kb)) (take k (map (row_key d) (filter ?P rs))) = map snd (take k (filter ?P rs))"
    using dec by (auto simp: take_map dest: in_set_takeD)
  ultimately show ?thesis using k by (simp add: page_of_def Let_def)
qed

lemma cursor_window_forward:
  assumes ok: "mgr_ok inv content t m" and r: "r \<in> row_set t d" and r0: "indexable (fst r0)"
  shows "in_window (Some (row_key d r0)) (Some (snd (range_bounds (entry_prefix (name_interned d)) None None))) (row_key d r)
    \<longleftrightarrow> r = r0 \<or> row_less r0 r"
proof -
  note rf = row_facts[OF ok r]
  obtain lower upper where b: "range_bounds (entry_prefix (name_interned d)) None None = (lower, upper)"
    by (rule prod.exhaust)
  have "\<not> past_hi (Some upper) (row_key d r)"
    using window_row[OF rf, of None None d lower upper] b by (simp add: row_between_def in_window_def)
  moreover have "\<not> row_key d r < row_key d r0 \<longleftrightarrow> r = r0 \<or> row_less r0 r"
    using row_key_less[OF r0 rf(1), of d] row_key_inject[OF r0 rf(1), of d] by auto
  ultimately show ?thesis by (simp add: b in_window_def past_lo_def)
qed

lemma cursor_window_backward:
  assumes ok: "mgr_ok inv content t m" and r: "r \<in> row_set t d" and r0: "indexable (fst r0)"
  shows "in_window (Some (entry_prefix (name_interned d))) (Some (row_key d r0)) (row_key d r) \<longleftrightarrow> r = r0 \<or> row_less r r0"
proof -
  note rf = row_facts[OF ok r]
  have "\<not> row_key d r < entry_prefix (name_interned d)"
    by (simp add: row_key_def build_entry_key_def sorted_posting_key_def entry_prefix_def not_less)
  moreover have "\<not> row_key d r0 < row_key d r \<longleftrightarrow> r = r0 \<or> row_less r r0"
    using row_key_less[OF rf(1) r0, of d] row_key_inject[OF r0 rf(1), of d] by auto
  ultimately show ?thesis by (simp add: in_window_def past_lo_def past_hi_def)
qed

lemma row_less_irrefl: "indexable (fst r) \<Longrightarrow> \<not> row_less r r"
  using scalarc.lt_irrefl by (simp add: row_less_def)

lemma page_bounds_spec:
  assumes ok: "mgr_ok inv content t m" and seek: "indexable seek"
    and after: "\<forall>r. after = Some r \<longrightarrow> indexable (fst r)"
    and b: "page_bounds (entry_prefix (name_interned d)) (scalar_enc seek) (map_option (row_key d) after) forward = (lower, upper)"
  shows "\<And>k. in_window (Some lower) (Some upper) k \<Longrightarrow> prefix (entry_prefix (name_interned d)) k"
    and "\<And>r. r \<in> row_set t d \<Longrightarrow> in_window (Some lower) (Some upper) (row_key d r) \<longleftrightarrow> page_walk seek after forward r"
proof -
  let ?p = "entry_prefix (name_interned d)"
  have key: "row_key d r = ?p @ scalar_enc (fst r) @ snd r" for r
    by (simp add: row_key_def build_entry_key_def sorted_posting_key_def entry_prefix_def)
  show "prefix ?p k" if "in_window (Some lower) (Some upper) k" for k
  proof (cases after)
    case None
    with b that range_bounds_prefix show ?thesis by (auto simp: page_bounds_def split: if_splits)
  next
    case (Some r0)
    with b that between_prefix[of ?p _ k] between_prefix[of ?p "[]" k] show ?thesis
      by (auto simp: page_bounds_def range_bounds_def key in_window_def past_lo_def past_hi_def not_less split: if_splits)
  qed
  show "in_window (Some lower) (Some upper) (row_key d r) \<longleftrightarrow> page_walk seek after forward r" if r: "r \<in> row_set t d" for r
  proof (cases after)
    case None
    with b window_row[OF row_facts[OF ok r], of "Some seek" None d lower upper]
      window_row[OF row_facts[OF ok r], of None "Some seek" d lower upper] seek show ?thesis
      by (auto simp: page_bounds_def page_walk_def row_between_def split: if_splits)
  next
    case (Some r0)
    with b cursor_window_forward[OF ok r, of r0] cursor_window_backward[OF ok r, of r0] after show ?thesis
      by (auto simp: page_bounds_def page_walk_def split: if_splits)
  qed
qed

lemma keyset_page_spec:
  assumes ok: "mgr_ok inv content t m" and d: "d \<in> set (indexes m)" and seek: "indexable seek" and k: "0 < k"
    and after: "\<forall>r. after = Some r \<longrightarrow> indexable (fst r)"
  obtains rows where "set rows = row_set t d" "sorted_wrt row_less rows"
    "lookup_range_first_k_page D m (name_interned d) (scalar_enc seek) (map_option (row_key d) after) ai k forward =
      (let cand = filter (page_row seek after ai forward) (if forward then rows else rev rows)
       in Inr (map snd (take k cand), if k \<le> length cand then Some (row_key d (cand ! (k - 1))) else None))"
proof -
  obtain rows where rows: "filter (prefix (entry_prefix (name_interned d))) (map fst (content (info_store m))) = map (row_key d) rows"
      "set rows = row_set t d" "sorted_wrt row_less rows" using rows_exist[OF ok d] .
  obtain lower upper where b: "page_bounds (entry_prefix (name_interned d)) (scalar_enc seek) (map_option (row_key d) after) forward = (lower, upper)"
    by (rule prod.exhaust)
  note pb = page_bounds_spec[OF ok seek after b]
  let ?w = "\<lambda>e. in_window (Some lower) (Some upper) (fst e)" and ?W = "if forward then rows else rev rows"
  have w: "map fst (filter ?w (content (info_store m))) = map (row_key d) (filter (page_walk seek after forward) rows)"
    by (rule window_rows[OF rows(1)]) (use pb rows(2) in blast)+
  have st: "inv (info_store m)" "reader_open m" "0 < min k MAINT_SCAN_BATCH"
    using ok k by (simp_all add: mgr_ok_def MAINT_SCAN_BATCH_def)
  let ?st = "if forward then ds_range D (info_store m) (Some lower) (Some upper) (min k MAINT_SCAN_BATCH)
    else ds_range_rev D (info_store m) (Some lower) (Some upper) (min k MAINT_SCAN_BATCH)"
  have str: "\<exists>bs. ?st = map Inr bs \<and> map fst (concat bs) = map (row_key d) (filter (page_walk seek after forward) ?W)"
  proof (cases forward)
    case True
    with range_spec[OF st(1,3), of "Some lower" "Some upper"] w show ?thesis by auto
  next
    case False
    with range_rev_spec[OF st(1,3), of "Some lower" "Some upper"] w show ?thesis
      by (auto simp flip: rev_map rev_filter)
  qed
  have sub: "set (filter (page_walk seek after forward) ?W) \<subseteq> row_set t d" using rows(2) by auto
  have cand: "filter (\<lambda>r. after \<noteq> Some r \<and> \<not> (fst r = seek \<and> (case ai of None \<Rightarrow> True | Some a \<Rightarrow> if forward then snd r \<le> a else a \<le> snd r)))
      (filter (page_walk seek after forward) ?W) = filter (page_row seek after ai forward) ?W"
    using row_less_irrefl row_facts(1)[OF ok] rows(2) after
    by (auto simp: page_row_def page_walk_def intro!: filter_cong split: option.split)
  have "lookup_range_first_k_page D m (name_interned d) (scalar_enc seek) (map_option (row_key d) after) ai k forward
      = page_loop (scalar_enc seek) 9 (map_option (row_key d) after) ai forward k ?st []"
    using st(2) k by (simp add: lookup_range_first_k_page_def b entry_prefix_def[symmetric] Let_def) (simp add: entry_prefix_def)
  then show ?thesis
    using that[OF rows(2,3)] page_rows[OF ok sub seek k str after, of ai forward] unfolding cand by simp
qed

end

section \<open>Properties\<close>

text \<open>A store without postings of the indexes in it, as after their registration on an empty table.\<close>

definition index_start :: "store \<Rightarrow> index_def list \<Rightarrow> bool" where
  "index_start s ds = (ti_ok s \<and> distinct (map name_interned ds)
     \<and> (\<forall>e \<in> set s. \<forall>d \<in> set ds. \<not> prefix (entry_prefix (name_interned d)) (fst e)))"

lemma index_start_ok:
  assumes "index_start s ds"
  shows "mgr_ok ti_ok (\<lambda>s. s) Map.empty (start_manager s ds)"
proof -
  have "mirrors (map_of s) Map.empty d" if "d \<in> set ds" for d
    using assms that unfolding mirrors_def postings_of_def index_start_def dom_map_of_conv_image_fst by auto
  then show ?thesis
    using assms by (simp add: mgr_ok_def index_inv_def index_start_def start_manager_def table_ok_def)
qed

lemma reachable_mgr_ok:
  assumes "index_start s ds" and "(table_step mp mem_store)\<^sup>*\<^sup>* (Map.empty, start_manager s ds) (t, m)"
  shows "mgr_ok ti_ok (\<lambda>s. s) t m \<and> indexes m = ds"
  using mem.reachable_ok[OF assms(2) index_start_ok[OF assms(1)]] by (simp add: start_manager_def)

text \<open>One index over one field, and the state after one record is created.\<close>

definition sample_index :: index_def where
  "sample_index = \<lparr>name_interned = 3, field_path = [7], included_fields = [], included_fields_interned = [],
     ready_at_version = 0, ix_state = Ready, instance_epoch = 1\<rparr>"

definition sample_record :: inner_value where "sample_record = VMap [(7, VInt 5)]"
definition sample_id :: record_id where "sample_id = replicate 16 1"
definition sample_table :: table where "sample_table = Map.empty(sample_id \<mapsto> sample_record)"

definition sample_manager :: "store sorted_index_manager" where
  "sample_manager = snd (on_record_created (\<lambda>_. None) mem_store sample_id sample_record 9 (start_manager [] [sample_index]))"

lemma sample_start: "index_start [] [sample_index]"
  by (simp add: index_start_def)

lemma sample_run:
  "(table_step (\<lambda>_. None) mem_store)\<^sup>*\<^sup>* (Map.empty, start_manager [] [sample_index]) (sample_table, sample_manager)"
  unfolding sample_table_def sample_manager_def
  by (rule r_into_rtranclp, rule table_step.create) (simp_all add: sample_id_def prod_eq_iff)

lemma sample_scalar: "scalar_at sample_record (field_path sample_index) = Some (Int64 5)"
  by (simp add: sample_record_def sample_index_def scalar_at_def descend_path_def)

lemma sample_mem: "sample_index \<in> set [sample_index]"
  by simp

text \<open>C1: After any sequence of record creations, replacements and deletions through the direct write
  path, the posting keys stored for each sorted index are exactly those of the records the table
  holds, one for each record with an encodable value at the indexed path.\<close>

theorem sorted_index_mirrors_table:
  assumes "index_start s ds" and "(table_step mp mem_store)\<^sup>*\<^sup>* (Map.empty, start_manager s ds) (t, m)"
    and "d \<in> set ds"
  shows "{k \<in> dom (map_of (info_store m)). prefix (sorted_prefix (name_interned d)) k} =
    {sorted_posting_key (name_interned d) enc rid | rid rec enc.
       t rid = Some rec \<and> extract_and_encode (scalar_at rec (field_path d)) = Some enc}"
  using reachable_mgr_ok[OF assms(1,2)] assms(3)
  by (simp add: mgr_ok_def index_inv_def mirrors_def postings_of_def entry_prefix_def build_entry_key_def extract_field_def)

theorem sorted_index_mirrors_table_witness:
  "{k \<in> dom (map_of (info_store sample_manager)). prefix (sorted_prefix 3) k}
    = {sorted_posting_key 3 (encode_i64 [] 5) sample_id}"
  using sorted_index_mirrors_table[OF sample_start sample_run, of sample_index] sample_scalar
  by (auto simp: sample_table_def extract_and_encode.simps sample_index_def split: if_splits)

text \<open>C2: On every reachable state a range lookup returns, in ascending order and without duplicates,
  exactly the ids of the records whose value at the indexed path lies between the two inclusive bounds.\<close>

theorem lookup_range_exact:
  assumes "index_start s ds" and "(table_step mp mem_store)\<^sup>*\<^sup>* (Map.empty, start_manager s ds) (t, m)"
    and "d \<in> set ds" and "\<forall>l. lo = Some l \<longrightarrow> indexable l" and "\<forall>h. hi = Some h \<longrightarrow> indexable h"
  shows "\<exists>out. lookup_range mem_store m (name_interned d) (map_option scalar_enc lo) (map_option scalar_enc hi) = Inr out
    \<and> sorted_wrt (<) out
    \<and> set out = {rid. \<exists>rec sr. t rid = Some rec \<and> scalar_at rec (field_path d) = Some sr \<and> indexable sr
        \<and> (\<forall>l. lo = Some l \<longrightarrow> \<not> scalar_less sr l) \<and> (\<forall>h. hi = Some h \<longrightarrow> \<not> scalar_less h sr)}"
proof -
  have ok: "mgr_ok ti_ok (\<lambda>s. s) t m" "d \<in> set (indexes m)" using reachable_mgr_ok[OF assms(1,2)] assms(3) by simp_all
  have "snd ` {r \<in> row_set t d. row_between lo hi r} = {rid. \<exists>rec sr. t rid = Some rec \<and> scalar_at rec (field_path d) = Some sr
      \<and> indexable sr \<and> (\<forall>l. lo = Some l \<longrightarrow> \<not> scalar_less sr l) \<and> (\<forall>h. hi = Some h \<longrightarrow> \<not> scalar_less h sr)}"
    by (force simp: row_set_def row_between_def image_iff)
  moreover obtain out where
    "lookup_range mem_store m (name_interned d) (map_option scalar_enc lo) (map_option scalar_enc hi) = Inr out"
    "sorted_wrt (<) out" "set out = snd ` {r \<in> row_set t d. row_between lo hi r}"
    by (rule mem.lookup_range_spec[OF ok assms(4,5)])
  ultimately show ?thesis by (intro exI[of _ out]) simp
qed

theorem lookup_range_exact_witness:
  "\<exists>out. lookup_range mem_store sample_manager 3 (Some (encode_i64 [] 4)) None = Inr out \<and> set out = {sample_id}"
proof -
  have "sint (5 :: i64) = 5" "sint (4 :: i64) = 4" by simp_all
  then show ?thesis
    using lookup_range_exact[OF sample_start sample_run, of sample_index "Some (Int64 4)" None] sample_scalar
    by (auto simp: sample_table_def extract_and_encode.simps sample_index_def split: if_splits)
qed

text \<open>C5: On every reachable state there is one enumeration of the indexed records by value, ties by
  record id, of which the first-\<open>k\<close> and last-\<open>k\<close> lookups return the two ends, the minimum and maximum
  lookups the first and the last record, and the entry count the length.\<close>

theorem ordered_lookups_exact:
  assumes "index_start s ds" and "(table_step mp mem_store)\<^sup>*\<^sup>* (Map.empty, start_manager s ds) (t, m)"
    and "d \<in> set ds"
  shows "\<exists>rows. sorted_wrt row_less rows
    \<and> set rows = {(sr, rid). \<exists>rec. t rid = Some rec \<and> scalar_at rec (field_path d) = Some sr \<and> indexable sr}
    \<and> (\<forall>k. lookup_first_k mem_store m (name_interned d) k = Inr (map snd (take k rows)))
    \<and> (\<forall>k. lookup_last_k mem_store m (name_interned d) k = Inr (map snd (take k (rev rows))))
    \<and> lookup_min mem_store m (name_interned d) = Inr (if rows = [] then None else Some (snd (hd rows)))
    \<and> lookup_max mem_store m (name_interned d) = Inr (if rows = [] then None else Some (snd (last rows)))
    \<and> entry_count mem_store m (name_interned d) = Inr (length rows)"
proof -
  have ok: "mgr_ok ti_ok (\<lambda>s. s) t m" "d \<in> set (indexes m)" using reachable_mgr_ok[OF assms(1,2)] assms(3) by simp_all
  show ?thesis unfolding row_set_def[symmetric] by (rule mem.ordered_lookups_spec[OF ok]) blast
qed

theorem ordered_lookups_exact_witness:
  "lookup_min mem_store sample_manager 3 = Inr (Some sample_id)"
proof -
  have set: "{(sr, rid). \<exists>rec. sample_table rid = Some rec \<and> scalar_at rec (field_path sample_index) = Some sr \<and> indexable sr}
      = {(Int64 5, sample_id)}"
    using sample_scalar by (auto simp: sample_table_def split: if_splits)
  obtain rows where rows: "set rows = {(Int64 5, sample_id)}"
      "lookup_min mem_store sample_manager (name_interned sample_index) = Inr (if rows = [] then None else Some (snd (hd rows)))"
    using ordered_lookups_exact[OF sample_start sample_run sample_mem, unfolded set]
    by (elim exE conjE) (rule that)
  have ne: "rows \<noteq> []" using rows(1) by (metis empty_not_insert list.set(1))
  have "hd rows = (Int64 5, sample_id)" using hd_in_set[OF ne] unfolding rows(1) by blast
  with rows(2) ne show ?thesis by (simp add: sample_index_def)
qed

text \<open>C3: A keyset page returns the next \<open>k\<close> records in walk order: on the first page those strictly past
  the seek value and its tie-breaker, on a resumed page those strictly past the cursor's row; the cursor
  it hands out is the physical key of its last record, and no cursor means that no record remains.\<close>

theorem keyset_page_exact:
  assumes "index_start s ds" and "(table_step mp mem_store)\<^sup>*\<^sup>* (Map.empty, start_manager s ds) (t, m)"
    and "d \<in> set ds" and "indexable seek" and "0 < k" and "\<forall>r. after = Some r \<longrightarrow> indexable (fst r)"
  shows "\<exists>rows. sorted_wrt row_less rows
    \<and> set rows = {(sr, rid). \<exists>rec. t rid = Some rec \<and> scalar_at rec (field_path d) = Some sr \<and> indexable sr}
    \<and> lookup_range_first_k_page mem_store m (name_interned d) (scalar_enc seek) (map_option (row_key d) after) after_id k forward =
      (let cand = filter (page_row seek after after_id forward) (if forward then rows else rev rows)
       in Inr (map snd (take k cand), if k \<le> length cand then Some (row_key d (cand ! (k - 1))) else None))"
proof -
  have ok: "mgr_ok ti_ok (\<lambda>s. s) t m" "d \<in> set (indexes m)" using reachable_mgr_ok[OF assms(1,2)] assms(3) by simp_all
  show ?thesis unfolding row_set_def[symmetric]
    by (rule mem.keyset_page_spec[OF ok assms(4-6), of after_id forward]) blast
qed

theorem keyset_page_exact_witness:
  "lookup_range_first_k_page mem_store sample_manager 3 (scalar_enc (Int64 5)) None None 2 True = Inr ([], None)"
proof -
  have set: "{(sr, rid). \<exists>rec. sample_table rid = Some rec \<and> scalar_at rec (field_path sample_index) = Some sr \<and> indexable sr}
      = {(Int64 5, sample_id)}"
    using sample_scalar by (auto simp: sample_table_def split: if_splits)
  have h: "0 < (2 :: nat)" "\<forall>r. None = Some r \<longrightarrow> indexable (fst (r :: scalar_ref \<times> record_id))" by simp_all
  obtain rows where rows: "set rows = {(Int64 5, sample_id)}"
      "lookup_range_first_k_page mem_store sample_manager (name_interned sample_index) (scalar_enc (Int64 5)) None None 2 True =
        (let cand = filter (page_row (Int64 5) None None True) rows
         in Inr (map snd (take 2 cand), if 2 \<le> length cand then Some (row_key sample_index (cand ! (2 - 1))) else None))"
    using keyset_page_exact[OF sample_start sample_run sample_mem indexable_simps(3)[of 5] h, of None True,
        unfolded set option.map(1) if_True]
    by (elim exE conjE) (rule that)
  have "filter (page_row (Int64 5) None None True) rows = []"
    using rows(1) by (auto simp: filter_empty_conv page_row_def)
  with rows(2) show ?thesis by (simp add: sample_index_def)
qed

text \<open>C10: Whenever applying a record change alters, adds or removes a posting, the mutation mark of the
  index that owns the posting is at least the version of the change, so a reader pinned at an earlier
  version sees that the index has moved on.\<close>

theorem mutation_mark_covers_change:
  assumes "ti_ok (info_store m)"
    and "m' \<in> {snd (on_record_created mp mem_store rid new v m), snd (on_record_updated mp mem_store rid old new v m),
      snd (on_record_deleted mem_store rid old v m)}"
    and "map_of (info_store m') k \<noteq> map_of (info_store m) k" and "decode_sorted_index_name k = Some n"
  shows "\<exists>w. last_mutation_version m' n = Some w \<and> v \<le> w"
proof -
  have plans: "\<exists>ops. plan_record_created mp m rid new v = Inr ops" "\<exists>ops. plan_record_updated mp m rid old new v = Inr ops"
      "\<exists>ops. plan_record_deleted m rid old = Inr ops"
    by (simp_all add: plan_record_created_def plan_record_updated_def plan_record_deleted_def)
  obtain ops where m': "m' = snd (apply_ops mem_store ops (bump_touched_indexes ops v m))"
    using assms(2) plans by (auto simp: on_record_created_def on_record_updated_def on_record_deleted_def)
  obtain s where "apply_ops mem_store ops (bump_touched_indexes ops v m) = (Inr (), (bump_touched_indexes ops v m)\<lparr>info_store := s\<rparr>)"
      "map_of s = fold apply_op (kv_ops_of ops) (map_of (info_store m))"
    using mem.apply_ops_eq[of "bump_touched_indexes ops v m" ops] assms(1) by auto
  with m' assms(3,4) bump_covers[of ops "map_of (info_store m)" k n v m] show ?thesis by simp
qed

theorem mutation_mark_covers_change_witness:
  "\<exists>w. last_mutation_version sample_manager 3 = Some w \<and> 9 \<le> w"
proof (rule mutation_mark_covers_change)
  let ?k = "sorted_posting_key 3 (encode_i64 [] 5) sample_id"
  show "sample_manager \<in> {snd (on_record_created (\<lambda>_. None) mem_store sample_id sample_record 9 (start_manager [] [sample_index])),
      snd (on_record_updated (\<lambda>_. None) mem_store sample_id sample_record sample_record 9 (start_manager [] [sample_index])),
      snd (on_record_deleted mem_store sample_id sample_record 9 (start_manager [] [sample_index]))}"
    by (simp add: sample_manager_def)
  have "mirrors (map_of (info_store sample_manager)) sample_table sample_index"
    using reachable_mgr_ok[OF sample_start sample_run] by (simp add: mgr_ok_def index_inv_def)
  moreover have "?k \<in> postings_of sample_table sample_index"
    using sample_scalar
    by (auto simp: postings_of_def extract_field_def extract_and_encode.simps build_entry_key_def sample_table_def sample_index_def)
  ultimately have key: "?k \<in> dom (map_of (info_store sample_manager))" unfolding mirrors_def by blast
  show "map_of (info_store sample_manager) ?k \<noteq> map_of (info_store (start_manager [] [sample_index])) ?k"
    using key by (auto simp: start_manager_def)
  show "decode_sorted_index_name ?k = Some 3"
    using decode_sorted_index_name_key[of 3 "encode_i64 [] 5" sample_id] by (simp add: build_entry_key_def)
qed (simp add: start_manager_def)

end
