(* ===== verification/ReaderGate.thy ===== *)
theory ReaderGate
  imports Prelude
begin

text \<open>
  The reader-versus-drop gate of \<^verbatim>\<open>shamir-index/src/model/runtime/reader_drain_gate.rs\<close>.
  Every atomic access is one step: the gate's shared cells are a record, each
  reader task and the drop task has a program point, and the step relation
  interleaves them freely (all accesses are \<^verbatim>\<open>SeqCst\<close>, so one total order of
  accesses describes every execution).  A drop runs under the table's DDL
  admission lock, so at most one is in progress.
\<close>

section \<open>Shared cells and atomic accesses\<close>

record reader_drain_gate =
  in_flight :: nat
  dropping :: bool
  drain_waits :: nat

definition gate_new :: reader_drain_gate where
  "gate_new = \<lparr>in_flight = 0, dropping = False, drain_waits = 0\<rparr>"

text \<open>\<^verbatim>\<open>enter\<close> increments, then looks at the flag, and undoes the increment when it is raised.\<close>

datatype reader_pc = Outside | Counted | BackingOff | Reading

definition enter_count :: "reader_drain_gate \<Rightarrow> reader_drain_gate \<times> reader_pc" where
  "enter_count g = (g\<lparr>in_flight := in_flight g + 1\<rparr>, Counted)"

definition enter_check :: "reader_drain_gate \<Rightarrow> reader_drain_gate \<times> reader_pc" where
  "enter_check g = (g, if dropping g then BackingOff else Reading)"

definition enter_undo :: "reader_drain_gate \<Rightarrow> reader_drain_gate \<times> reader_pc" where
  "enter_undo g = (g\<lparr>in_flight := in_flight g - 1\<rparr>, Outside)"

definition read_guard_drop :: "reader_drain_gate \<Rightarrow> reader_drain_gate \<times> reader_pc" where
  "read_guard_drop g = (g\<lparr>in_flight := in_flight g - 1\<rparr>, Outside)"

text \<open>The drop task: no drop, draining (with \<^verbatim>\<open>counted_wait\<close>), or sweeping the postings.\<close>

datatype drop_pc = NoDrop | Draining bool | Sweeping

definition begin_drop :: "reader_drain_gate \<Rightarrow> reader_drain_gate \<times> drop_pc" where
  "begin_drop g = (g\<lparr>dropping := True\<rparr>, Draining False)"

text \<open>One turn of the loop of \<^verbatim>\<open>wait_for_drain\<close>.\<close>

definition wait_for_drain :: "bool \<Rightarrow> reader_drain_gate \<Rightarrow> reader_drain_gate \<times> drop_pc" where
  "wait_for_drain counted_wait g =
    (if in_flight g \<noteq> 0
     then (if counted_wait then (g, Draining True) else (g\<lparr>drain_waits := drain_waits g + 1\<rparr>, Draining True))
     else (g, Sweeping))"

definition drop_guard_drop :: "reader_drain_gate \<Rightarrow> reader_drain_gate \<times> drop_pc" where
  "drop_guard_drop g = (g\<lparr>dropping := False\<rparr>, NoDrop)"

lemmas gate_ops = enter_count_def enter_check_def enter_undo_def read_guard_drop_def begin_drop_def
  wait_for_drain_def drop_guard_drop_def

section \<open>Interleavings\<close>

record gate_sys =
  gate :: reader_drain_gate
  readers :: "nat \<Rightarrow> reader_pc"
  dropper :: drop_pc

definition gate_init :: gate_sys where
  "gate_init = \<lparr>gate = gate_new, readers = (\<lambda>_. Outside), dropper = NoDrop\<rparr>"

fun reader_op :: "reader_pc \<Rightarrow> reader_drain_gate \<Rightarrow> reader_drain_gate \<times> reader_pc" where
  "reader_op Outside g = enter_count g"
| "reader_op Counted g = enter_check g"
| "reader_op BackingOff g = enter_undo g"
| "reader_op Reading g = read_guard_drop g"

definition reader_moves :: "nat \<Rightarrow> gate_sys \<Rightarrow> gate_sys" where
  "reader_moves i s =
    (let (g, pc) = reader_op (readers s i) (gate s) in s\<lparr>gate := g, readers := (readers s)(i := pc)\<rparr>)"

definition drop_moves :: "(reader_drain_gate \<Rightarrow> reader_drain_gate \<times> drop_pc) \<Rightarrow> gate_sys \<Rightarrow> gate_sys" where
  "drop_moves f s = (let (g, pc) = f (gate s) in s\<lparr>gate := g, dropper := pc\<rparr>)"

inductive gate_step :: "gate_sys \<Rightarrow> gate_sys \<Rightarrow> bool" where
  reader: "gate_step s (reader_moves i s)"
| raise: "dropper s = NoDrop \<Longrightarrow> gate_step s (drop_moves begin_drop s)"
| wait: "dropper s = Draining c \<Longrightarrow> gate_step s (drop_moves (wait_for_drain c) s)"
| release: "dropper s \<noteq> NoDrop \<Longrightarrow> gate_step s (drop_moves drop_guard_drop s)"

definition inside :: "gate_sys \<Rightarrow> nat set" where
  "inside s = {i. readers s i \<noteq> Outside}"

text \<open>The counter counts the readers that are inside, the flag is up while a drop is in progress,
  and nobody reads during a sweep.\<close>

definition gate_inv :: "gate_sys \<Rightarrow> bool" where
  "gate_inv s = (finite (inside s) \<and> in_flight (gate s) = card (inside s)
    \<and> (dropping (gate s) \<longleftrightarrow> dropper s \<noteq> NoDrop)
    \<and> (dropper s = Sweeping \<longrightarrow> (\<forall>i. readers s i \<noteq> Reading)))"

lemma gate_inv_init: "gate_inv gate_init"
  by (simp add: gate_inv_def gate_init_def inside_def gate_new_def)

lemma inside_upd:
  "inside (s\<lparr>gate := g, readers := (readers s)(i := pc)\<rparr>) = (if pc = Outside then inside s - {i} else insert i (inside s))"
  "inside (s\<lparr>readers := (readers s)(i := pc)\<rparr>) = (if pc = Outside then inside s - {i} else insert i (inside s))"
  by (auto simp: inside_def)

lemma reader_moves_inv:
  assumes "gate_inv s"
  shows "gate_inv (reader_moves i s)"
proof -
  have count: "finite (inside s)" "in_flight (gate s) = card (inside s)" using assms by (simp_all add: gate_inv_def)
  show ?thesis
  proof (cases "readers s i")
    case Outside
    then have "i \<notin> inside s" by (simp add: inside_def)
    with Outside assms count show ?thesis
      by (simp add: gate_inv_def reader_moves_def gate_ops inside_upd)
  next
    case Counted
    then have "i \<in> inside s" by (simp add: inside_def)
    with Counted assms count show ?thesis
      by (auto simp: gate_inv_def reader_moves_def gate_ops inside_upd insert_absorb)
  next
    case BackingOff
    then have "i \<in> inside s" by (simp add: inside_def)
    with BackingOff assms count show ?thesis
      by (simp add: gate_inv_def reader_moves_def gate_ops inside_upd)
  next
    case Reading
    then have "i \<in> inside s" by (simp add: inside_def)
    with Reading assms count show ?thesis
      by (simp add: gate_inv_def reader_moves_def gate_ops inside_upd)
  qed
qed

lemma empty_inside: "gate_inv s \<Longrightarrow> in_flight (gate s) = 0 \<Longrightarrow> readers s i = Outside"
  by (auto simp: gate_inv_def inside_def)

lemma gate_step_inv: "gate_step s t \<Longrightarrow> gate_inv s \<Longrightarrow> gate_inv t"
proof (induction rule: gate_step.induct)
  case (reader s i)
  then show ?case by (rule reader_moves_inv)
next
  case (wait s c)
  show ?case
  proof (cases "in_flight (gate s) = 0")
    case True
    then have "\<forall>i. readers s i = Outside" using wait.prems empty_inside by blast
    with True wait show ?thesis by (simp add: gate_inv_def drop_moves_def gate_ops inside_def)
  next
    case False
    with wait show ?thesis by (simp add: gate_inv_def drop_moves_def gate_ops inside_def)
  qed
qed (simp_all add: gate_inv_def drop_moves_def gate_ops inside_def)

lemma gate_reachable_inv: "gate_step\<^sup>*\<^sup>* gate_init s \<Longrightarrow> gate_inv s"
  by (induction rule: rtranclp_induct) (auto intro: gate_inv_init gate_step_inv)

section \<open>Properties\<close>

text \<open>C14: In every interleaving of readers with a drop, while the drop sweeps the postings no reader
  holds a read guard.\<close>

theorem sweep_excludes_readers:
  assumes "gate_step\<^sup>*\<^sup>* gate_init s" and "dropper s = Sweeping"
  shows "readers s i \<noteq> Reading"
  using gate_reachable_inv[OF assms(1)] assms(2) by (simp add: gate_inv_def)

lemma swept_reachable: "gate_step\<^sup>*\<^sup>* gate_init (drop_moves (wait_for_drain False) (drop_moves begin_drop gate_init))"
proof -
  have "gate_step gate_init (drop_moves begin_drop gate_init)" by (rule gate_step.raise) (simp add: gate_init_def)
  moreover have "gate_step (drop_moves begin_drop gate_init) (drop_moves (wait_for_drain False) (drop_moves begin_drop gate_init))"
    by (rule gate_step.wait) (simp add: drop_moves_def gate_ops)
  ultimately show ?thesis by simp
qed

theorem sweep_excludes_readers_witness:
  "readers (drop_moves (wait_for_drain False) (drop_moves begin_drop gate_init)) 7 \<noteq> Reading"
  by (rule sweep_excludes_readers[OF swept_reachable])
    (simp add: drop_moves_def gate_ops gate_init_def gate_new_def)

text \<open>The readers inside leave by at most two steps each, without a new one entering.\<close>

definition leave_steps :: "reader_pc \<Rightarrow> nat" where
  "leave_steps pc = (case pc of Outside \<Rightarrow> 0 | Counted \<Rightarrow> 2 | BackingOff \<Rightarrow> 1 | Reading \<Rightarrow> 1)"

definition to_leave :: "gate_sys \<Rightarrow> nat" where
  "to_leave s = (\<Sum>i \<in> inside s. leave_steps (readers s i))"

lemma reader_leaves:
  assumes "gate_inv s" and "i \<in> inside s"
  shows "to_leave (reader_moves i s) < to_leave s \<and> dropper (reader_moves i s) = dropper s"
proof -
  let ?t = "reader_moves i s"
  have fin: "finite (inside s)" using assms by (simp add: gate_inv_def)
  have sub: "inside ?t \<subseteq> inside s" using assms(2)
    by (cases "readers s i") (auto simp: reader_moves_def gate_ops inside_def)
  have i: "leave_steps (readers ?t i) < leave_steps (readers s i)" using assms(2)
    by (cases "readers s i") (auto simp: reader_moves_def gate_ops inside_def leave_steps_def)
  have others: "readers ?t j = readers s j" if "j \<noteq> i" for j using that by (simp add: reader_moves_def split: prod.split)
  have "to_leave ?t = (\<Sum>j \<in> inside s. leave_steps (readers ?t j))"
    unfolding to_leave_def
    by (rule sum.mono_neutral_left) (use fin sub in \<open>auto simp: inside_def leave_steps_def\<close>)
  also have "\<dots> < (\<Sum>j \<in> inside s. leave_steps (readers s j))"
  proof -
    have "(\<Sum>j \<in> inside s - {i}. leave_steps (readers ?t j)) = (\<Sum>j \<in> inside s - {i}. leave_steps (readers s j))"
      by (rule sum.cong) (use others in auto)
    with i show ?thesis by (simp only: sum.remove[OF fin assms(2)])
  qed
  finally show ?thesis by (simp add: to_leave_def reader_moves_def split: prod.split)
qed

lemma drain_run:
  "\<lbrakk>gate_inv s; dropper s = Draining c\<rbrakk> \<Longrightarrow> \<exists>t. gate_step\<^sup>*\<^sup>* s t \<and> inside t = {} \<and> dropper t = Draining c \<and> gate_inv t"
proof (induction "to_leave s" arbitrary: s rule: less_induct)
  case less
  show ?case
  proof (cases "inside s = {}")
    case True
    with less.prems show ?thesis by blast
  next
    case False
    then obtain i where i: "i \<in> inside s" by blast
    have t: "to_leave (reader_moves i s) < to_leave s" "dropper (reader_moves i s) = Draining c" "gate_inv (reader_moves i s)"
      using reader_leaves[OF less.prems(1) i] less.prems reader_moves_inv by auto
    then obtain u where "gate_step\<^sup>*\<^sup>* (reader_moves i s) u" "inside u = {}" "dropper u = Draining c" "gate_inv u"
      using less.hyps by blast
    then show ?thesis using gate_step.reader[of s i] by (meson converse_rtranclp_into_rtranclp)
  qed
qed

text \<open>C16: A drop that is draining is never stuck: from every reachable state, once the readers inside
  leave (and no new one is scheduled), the next look at the counter starts the sweep.\<close>

theorem drain_can_finish:
  assumes "gate_step\<^sup>*\<^sup>* gate_init s" and "dropper s = Draining c"
  shows "\<exists>t. gate_step\<^sup>*\<^sup>* s t \<and> dropper t = Sweeping"
proof -
  obtain t where t: "gate_step\<^sup>*\<^sup>* s t" "inside t = {}" "dropper t = Draining c" "gate_inv t"
    using drain_run[OF gate_reachable_inv[OF assms(1)] assms(2)] by blast
  then have "in_flight (gate t) = 0" by (simp add: gate_inv_def)
  then have "dropper (drop_moves (wait_for_drain c) t) = Sweeping" by (simp add: drop_moves_def wait_for_drain_def)
  with t(1) gate_step.wait[OF t(3)] show ?thesis by (meson rtranclp.rtrancl_into_rtrancl)
qed

theorem drain_can_finish_witness:
  "\<exists>t. gate_step\<^sup>*\<^sup>* (drop_moves begin_drop gate_init) t \<and> dropper t = Sweeping"
proof (rule drain_can_finish[where c = False])
  show "gate_step\<^sup>*\<^sup>* gate_init (drop_moves begin_drop gate_init)"
    by (rule r_into_rtranclp, rule gate_step.raise) (simp add: gate_init_def)
qed (simp add: drop_moves_def gate_ops)

end
