(* ===== verification/CompletionTracker.thy ===== *)
theory CompletionTracker
  imports OrderedMap
begin

text \<open>
  The completion tracker of \<^verbatim>\<open>shamir-tx/src/tx/support/core/completion_tracker.rs\<close>: which
  allocated versions are settled, and the watermark up to which all of them
  are, for calls that run one after the other; \<^verbatim>\<open>CompletionProtocol\<close> interleaves
  their atomic accesses.  Versions are natural numbers: the \<^verbatim>\<open>u64\<close> counter grows by one per commit.
\<close>

section \<open>State and atomic accesses\<close>

datatype vstate = Pending | Materialized | Aborted

datatype coverage_event = Settle nat | MemoryCompleted nat

record tracker =
  watermark :: nat
  states :: "(nat \<times> vstate) list"
  waiters :: nat
  abort_coverage :: "coverage_event list option"

definition with_watermark :: "nat \<Rightarrow> tracker" where
  "with_watermark initial = \<lparr>watermark = initial, states = [], waiters = 0, abort_coverage = None\<rparr>"

text \<open>The log of the calls to an installed \<^verbatim>\<open>WalCoverage\<close>; \<^verbatim>\<open>OnceLock::set\<close> keeps the first one.\<close>

definition install_abort_coverage :: "tracker \<Rightarrow> tracker" where
  "install_abort_coverage t = (case abort_coverage t of None \<Rightarrow> t\<lparr>abort_coverage := Some []\<rparr> | Some _ \<Rightarrow> t)"

definition coverage_call :: "coverage_event \<Rightarrow> tracker \<Rightarrow> tracker" where
  "coverage_call e t = t\<lparr>abort_coverage := map_option (\<lambda>es. es @ [e]) (abort_coverage t)\<rparr>"

text \<open>\<^verbatim>\<open>insert_sync\<close> leaves an entry that is already there.\<close>

definition insert_state :: "nat \<Rightarrow> vstate \<Rightarrow> tracker \<Rightarrow> tracker" where
  "insert_state v st t = (if map_of (states t) v = None then t\<lparr>states := (v, st) # states t\<rparr> else t)"

definition remove_state :: "nat \<Rightarrow> tracker \<Rightarrow> tracker" where
  "remove_state v t = t\<lparr>states := filter (\<lambda>e. fst e \<noteq> v) (states t)\<rparr>"

definition completed :: "tracker \<Rightarrow> nat \<Rightarrow> bool" where
  "completed t v = (map_of (states t) v \<in> {Some Materialized, Some Aborted})"

definition bump_watermark :: "tracker \<Rightarrow> tracker" where
  "bump_watermark t = t\<lparr>watermark := watermark t + 1\<rparr>"

lemmas tracker_ops = insert_state_def remove_state_def completed_def bump_watermark_def coverage_call_def

section \<open>One task at a time\<close>

definition advance_once :: "tracker \<Rightarrow> tracker" where
  "advance_once t = (let next = watermark t + 1 in
     remove_state next (coverage_call (MemoryCompleted next) (bump_watermark t)))"

lemma length_filter_key:
  assumes "map_of xs k \<noteq> None"
  shows "length (filter (\<lambda>e. fst e \<noteq> k) xs) < length xs"
proof -
  obtain v where "(k, v) \<in> set xs" using assms by (auto dest: map_of_SomeD)
  then show ?thesis by (intro length_filter_less[of "(k, v)"]) auto
qed

function try_advance :: "tracker \<Rightarrow> tracker" where
  "try_advance t = (if completed t (watermark t + 1) then try_advance (advance_once t) else t)"
  by auto
termination
  by (relation "measure (\<lambda>t. length (states t))")
    (auto simp: advance_once_def tracker_ops Let_def intro!: length_filter_key)

declare try_advance.simps [simp del]

definition mark :: "nat \<Rightarrow> vstate \<Rightarrow> tracker \<Rightarrow> tracker" where
  "mark version st t0 =
    (let t = (if st = Aborted then coverage_call (Settle version) t0 else t0)
     in if version \<le> watermark t then t else try_advance (insert_state version st t))"

text \<open>\<^verbatim>\<open>settle_through\<close>: pending slots become materialized, missing ones aborted.\<close>

definition settle_slot :: "nat \<Rightarrow> tracker \<Rightarrow> tracker" where
  "settle_slot next t =
    (case map_of (states t) next of
       Some Pending \<Rightarrow> t\<lparr>states := (next, Materialized) # filter (\<lambda>e. fst e \<noteq> next) (states t)\<rparr>
     | Some _ \<Rightarrow> t
     | None \<Rightarrow> insert_state next Aborted t)"

definition settle_through :: "nat \<Rightarrow> tracker \<Rightarrow> tracker" where
  "settle_through version t =
    (if version \<le> watermark t then t
     else fold (\<lambda>next t. try_advance (settle_slot next t)) [watermark t + 1 ..< version + 1] t)"

text \<open>Telemetry: the unsettled, pending and missing versions of a window.\<close>

definition unsettled_counts :: "tracker \<Rightarrow> nat \<Rightarrow> nat \<Rightarrow> nat \<times> nat \<times> nat" where
  "unsettled_counts t wm high_water =
    (let span = high_water - wm;
         window = filter (\<lambda>e. wm < fst e \<and> fst e \<le> high_water) (states t);
         pending = length (filter (\<lambda>e. snd e = Pending) window);
         terminal = length (filter (\<lambda>e. snd e \<noteq> Pending) window);
         unsettled = span - terminal;
         pending' = min pending unsettled
     in (unsettled, pending', unsettled - pending'))"

text \<open>
  The set of settled versions is what the tracker stands for.  Between calls
  the entries lie above the watermark and the next version is not settled, so
  the watermark is the last of the settled versions that follow one another.
\<close>

definition settled :: "tracker \<Rightarrow> nat set" where
  "settled t = {v. v \<le> watermark t \<or> completed t v}"

definition tracker_ok :: "tracker \<Rightarrow> bool" where
  "tracker_ok t = ((\<forall>e \<in> set (states t). watermark t < fst e) \<and> \<not> completed t (watermark t + 1))"

lemma completed_simps:
  "completed (coverage_call e t) = completed t" "completed (bump_watermark t) = completed t"
  "completed (remove_state k t) v \<longleftrightarrow> v \<noteq> k \<and> completed t v"
  by (auto simp: tracker_ops fun_eq_iff)

lemma advance_once_simps:
  "watermark (advance_once t) = watermark t + 1"
  "completed (advance_once t) v \<longleftrightarrow> v \<noteq> watermark t + 1 \<and> completed t v"
  "states (advance_once t) = filter (\<lambda>e. fst e \<noteq> watermark t + 1) (states t)"
  by (simp_all add: advance_once_def Let_def completed_simps) (simp_all add: tracker_ops)

lemma try_advance_settles:
  assumes "\<forall>e \<in> set (states t). watermark t < fst e"
  shows "tracker_ok (try_advance t) \<and> settled (try_advance t) = settled t \<and> watermark t \<le> watermark (try_advance t)"
  using assms
proof (induction t rule: try_advance.induct)
  case (1 t)
  show ?case
  proof (cases "completed t (watermark t + 1)")
    case True
    have "\<forall>e \<in> set (states (advance_once t)). watermark (advance_once t) < fst e"
      using "1.prems" by (auto simp: advance_once_simps dest!: bspec)
    moreover have "settled (advance_once t) = settled t"
      using True by (auto simp: settled_def advance_once_simps le_Suc_eq)
    ultimately show ?thesis using "1.IH"[OF True] True by (simp add: try_advance.simps[of t] advance_once_simps)
  next
    case False
    with 1 show ?thesis by (simp add: try_advance.simps[of t] tracker_ok_def)
  qed
qed

lemma ok_prefix: "tracker_ok t \<Longrightarrow> {0 .. watermark t} \<subseteq> settled t \<and> watermark t + 1 \<notin> settled t"
  by (auto simp: tracker_ok_def settled_def)

lemma mark_effect:
  assumes "tracker_ok t" and "st \<noteq> Pending" and "map_of (states t) v \<noteq> Some Pending"
  shows "tracker_ok (mark v st t) \<and> settled (mark v st t) = insert v (settled t) \<and> watermark t \<le> watermark (mark v st t)"
proof -
  define t1 where "t1 = (if st = Aborted then coverage_call (Settle v) t else t)"
  have same: "watermark t1 = watermark t" "states t1 = states t" by (simp_all add: t1_def coverage_call_def)
  then have ok1: "tracker_ok t1" "settled t1 = settled t" using assms(1) by (simp_all add: tracker_ok_def settled_def completed_def)
  show ?thesis
  proof (cases "v \<le> watermark t")
    case True
    then have "mark v st t = t1" by (simp add: mark_def t1_def[symmetric] same Let_def)
    with ok1 True same assms(1) show ?thesis by (auto simp: settled_def tracker_ok_def)
  next
    case False
    then have eq: "mark v st t = try_advance (insert_state v st t1)" by (simp add: mark_def t1_def[symmetric] same Let_def)
    have "\<forall>e \<in> set (states (insert_state v st t1)). watermark (insert_state v st t1) < fst e"
      using ok1(1) False same by (auto simp: insert_state_def tracker_ok_def)
    note run = try_advance_settles[OF this]
    have "settled (insert_state v st t1) = insert v (settled t)"
      using False assms(2,3) same by (cases st) (auto simp: settled_def tracker_ops split: option.splits, (metis vstate.exhaust)+)
    moreover have "watermark (insert_state v st t1) = watermark t" by (simp add: insert_state_def same)
    ultimately show ?thesis using run unfolding eq by simp
  qed
qed

text \<open>What an installed coverage has been told: which versions were aborted.\<close>

definition told_aborted :: "tracker \<Rightarrow> nat set" where
  "told_aborted t = {v. \<exists>es. abort_coverage t = Some es \<and> Settle v \<in> set es}"

lemma try_advance_told: "told_aborted (try_advance t) = told_aborted t \<and> (abort_coverage (try_advance t) = None \<longleftrightarrow> abort_coverage t = None)"
proof (induction t rule: try_advance.induct)
  case (1 t)
  have "told_aborted (advance_once t) = told_aborted t" "abort_coverage (advance_once t) = None \<longleftrightarrow> abort_coverage t = None"
    by (auto simp: told_aborted_def advance_once_def tracker_ops Let_def)
  with 1 show ?case by (subst (1 2) try_advance.simps) auto
qed

lemma mark_told:
  "told_aborted (mark v st t) = told_aborted t \<union> (if st = Aborted \<and> abort_coverage t \<noteq> None then {v} else {})"
  "abort_coverage (mark v st t) = None \<longleftrightarrow> abort_coverage t = None"
proof -
  have "told_aborted (insert_state v st t') = told_aborted t'" "abort_coverage (insert_state v st t') = abort_coverage t'" for t'
    by (simp_all add: told_aborted_def insert_state_def)
  then show "told_aborted (mark v st t) = told_aborted t \<union> (if st = Aborted \<and> abort_coverage t \<noteq> None then {v} else {})"
      "abort_coverage (mark v st t) = None \<longleftrightarrow> abort_coverage t = None"
    by (auto simp: mark_def Let_def try_advance_told) (auto simp: told_aborted_def coverage_call_def)
qed

text \<open>Nothing in the program marks a version pending, so slots hold terminal states only.\<close>

definition tracker_live :: "tracker \<Rightarrow> bool" where
  "tracker_live t = (tracker_ok t \<and> Pending \<notin> snd ` set (states t))"

lemma try_advance_states: "set (states (try_advance t)) \<subseteq> set (states t)"
proof (induction t rule: try_advance.induct)
  case (1 t)
  then show ?case by (subst try_advance.simps) (auto simp: advance_once_simps)
qed

lemma mark_live:
  assumes "tracker_live t" and "st \<noteq> Pending"
  shows "tracker_live (mark v st t)" "settled (mark v st t) = insert v (settled t)" "watermark t \<le> watermark (mark v st t)"
proof -
  have np: "map_of (states t) v \<noteq> Some Pending" using assms(1) by (force simp: tracker_live_def dest: map_of_SomeD)
  have "snd ` set (states (mark v st t)) \<subseteq> insert st (snd ` set (states t))"
    by (rule subset_trans[OF image_mono[of _ "insert (v, st) (set (states t))"]])
      (use try_advance_states[of "insert_state v st t"] try_advance_states[of "insert_state v st (coverage_call (Settle v) t)"]
        in \<open>auto simp: mark_def Let_def tracker_ops split: if_splits\<close>)
  then show "tracker_live (mark v st t)" "settled (mark v st t) = insert v (settled t)" "watermark t \<le> watermark (mark v st t)"
    using assms mark_effect[OF _ assms(2) np] by (auto simp: tracker_live_def)
qed

lemma live_watermark: "tracker_live t \<Longrightarrow> {0 .. n} \<subseteq> settled t \<Longrightarrow> n \<le> watermark t"
  using ok_prefix[of t] by (metis atLeastAtMost_iff le0 not_less_eq_eq subsetD tracker_live_def Suc_eq_plus1)

text \<open>C17: Marking a version settled, alone on a tracker at rest, adds exactly that version to the settled
  ones and leaves the watermark at the end of the contiguous settled prefix.\<close>

theorem mark_settles:
  assumes "tracker_ok t" and "st \<noteq> Pending" and "map_of (states t) v \<noteq> Some Pending"
  shows "settled (mark v st t) = insert v (settled t)
    \<and> {0 .. watermark (mark v st t)} \<subseteq> settled (mark v st t) \<and> watermark (mark v st t) + 1 \<notin> settled (mark v st t)"
  using mark_effect[OF assms] ok_prefix[of "mark v st t"] by simp

theorem mark_settles_witness:
  "settled (mark 7 Aborted (mark 8 Materialized (with_watermark 6))) = {0 .. 8}"
proof -
  have ok: "tracker_ok (with_watermark 6)" by (simp add: with_watermark_def tracker_ok_def completed_def)
  have one: "mark 8 Materialized (with_watermark 6) = (with_watermark 6)\<lparr>states := [(8, Materialized)]\<rparr>"
    by (simp add: mark_def with_watermark_def tracker_ops try_advance.simps)
  have "tracker_ok (mark 8 Materialized (with_watermark 6))"
    unfolding one by (simp add: tracker_ok_def completed_def with_watermark_def)
  moreover have "map_of (states (mark 8 Materialized (with_watermark 6))) 7 \<noteq> Some Pending"
    unfolding one by (simp add: with_watermark_def)
  ultimately have "settled (mark 7 Aborted (mark 8 Materialized (with_watermark 6)))
      = insert 7 (settled (mark 8 Materialized (with_watermark 6)))"
    using mark_settles by blast
  also have "\<dots> = {0 .. 8}"
    unfolding one by (auto simp: settled_def completed_def with_watermark_def split: if_splits)
  finally show ?thesis .
qed

end
