(* ===== verification/CompletionProtocol.thy ===== *)
theory CompletionProtocol
  imports CompletionTracker
begin

text \<open>
  The completion tracker under concurrency: any number of tasks inside
  \<^verbatim>\<open>CompletionTracker::mark\<close> and \<^verbatim>\<open>try_advance\<close>, and any number inside
  \<^verbatim>\<open>RepoTxGate::await_visible\<close> (\<^verbatim>\<open>repo_tx_gate/progress.rs\<close>), interleaved one atomic
  access at a time.  The accesses that matter to the protocol are \<^verbatim>\<open>SeqCst\<close>, so a
  single order of accesses describes an execution.  \<^verbatim>\<open>marks\<close> records the first
  mark each version received; no step reads it.  The slow-wait telemetry of
  \<^verbatim>\<open>await_visible\<close> is left out.
\<close>

section \<open>Program points\<close>

datatype mark_pc = MIdle | MEntered nat vstate | MChecked nat vstate
  | AdvTop | AdvLoaded nat | AdvSeen nat | AdvWon nat | AdvCovered nat | AdvNotify nat | AdvRemove nat

datatype visible_outcome = Visible | ReopenRequired

text \<open>The flag of an enabled \<^verbatim>\<open>Notified\<close> future says whether it has been notified.\<close>

datatype wait_pc = WIdle | WCalled nat | WFloorLow nat | WRegister nat | WLoop nat | WEnabled nat bool
  | WChecked nat bool | WParked nat bool | WReturn nat visible_outcome | WDone nat visible_outcome

record completion_sys =
  trk :: tracker
  marks :: "nat \<rightharpoonup> vstate"
  markers :: "nat \<Rightarrow> mark_pc"
  awaiters :: "nat \<Rightarrow> wait_pc"
  reopen :: bool

definition notify :: "wait_pc \<Rightarrow> wait_pc" where
  "notify pc = (case pc of WEnabled v _ \<Rightarrow> WEnabled v True | WChecked v _ \<Rightarrow> WChecked v True
     | WParked v _ \<Rightarrow> WParked v True | _ \<Rightarrow> pc)"

definition first_mark :: "nat \<Rightarrow> vstate \<Rightarrow> (nat \<rightharpoonup> vstate) \<Rightarrow> (nat \<rightharpoonup> vstate)" where
  "first_mark v st ms = (if ms v = None then ms(v \<mapsto> st) else ms)"

text \<open>The next access of a task in \<^verbatim>\<open>mark\<close> or \<^verbatim>\<open>try_advance\<close>.\<close>

fun mark_access :: "mark_pc \<Rightarrow> completion_sys \<Rightarrow> mark_pc \<times> completion_sys" where
  "mark_access MIdle s = (MIdle, s)"
| "mark_access (MEntered v st) s = (if v \<le> watermark (trk s) then MIdle else MChecked v st, s)"
| "mark_access (MChecked v st) s =
    (AdvTop, s\<lparr>trk := insert_state v st (trk s), marks := first_mark v st (marks s)\<rparr>)"
| "mark_access AdvTop s = (AdvLoaded (watermark (trk s)), s)"
| "mark_access (AdvLoaded current) s = (if completed (trk s) (current + 1) then AdvSeen current else MIdle, s)"
| "mark_access (AdvSeen current) s =
    (if watermark (trk s) = current then (AdvWon (current + 1), s\<lparr>trk := bump_watermark (trk s)\<rparr>)
     else (AdvTop, s))"
| "mark_access (AdvWon next) s = (AdvCovered next, s\<lparr>trk := coverage_call (MemoryCompleted next) (trk s)\<rparr>)"
| "mark_access (AdvCovered next) s = (if 0 < waiters (trk s) then AdvNotify next else AdvRemove next, s)"
| "mark_access (AdvNotify next) s = (AdvRemove next, s\<lparr>awaiters := (\<lambda>i. notify (awaiters s i))\<rparr>)"
| "mark_access (AdvRemove next) s = (AdvTop, s\<lparr>trk := remove_state next (trk s)\<rparr>)"

definition marker_moves :: "nat \<Rightarrow> completion_sys \<Rightarrow> completion_sys" where
  "marker_moves i s = (let (pc, s') = mark_access (markers s i) s in s'\<lparr>markers := (markers s)(i := pc)\<rparr>)"

text \<open>A task calls \<^verbatim>\<open>mark\<close>: an abort is reported to the coverage before anything else.\<close>

definition marker_calls :: "nat \<Rightarrow> nat \<Rightarrow> vstate \<Rightarrow> completion_sys \<Rightarrow> completion_sys" where
  "marker_calls i v st s =
    s\<lparr>trk := (if st = Aborted then coverage_call (Settle v) (trk s) else trk s),
      markers := (markers s)(i := MEntered v st)\<rparr>"

text \<open>The next access of a task in \<^verbatim>\<open>await_visible\<close>; a parked task goes on when it is notified or its
  timer fires.\<close>

fun wait_access :: "wait_pc \<Rightarrow> completion_sys \<Rightarrow> wait_pc \<times> tracker" where
  "wait_access (WCalled v) s = (if v \<le> watermark (trk s) then WDone v Visible else WFloorLow v, trk s)"
| "wait_access (WFloorLow v) s = (if reopen s then WDone v ReopenRequired else WRegister v, trk s)"
| "wait_access (WRegister v) s = (WLoop v, (trk s)\<lparr>waiters := waiters (trk s) + 1\<rparr>)"
| "wait_access (WLoop v) s = (WEnabled v False, trk s)"
| "wait_access (WEnabled v w) s = (if v \<le> watermark (trk s) then WReturn v Visible else WChecked v w, trk s)"
| "wait_access (WChecked v w) s = (if reopen s then WReturn v ReopenRequired else WParked v w, trk s)"
| "wait_access (WParked v w) s = (WLoop v, trk s)"
| "wait_access (WReturn v out) s = (WDone v out, (trk s)\<lparr>waiters := waiters (trk s) - 1\<rparr>)"
| "wait_access WIdle s = (WIdle, trk s)"
| "wait_access (WDone v out) s = (WDone v out, trk s)"

definition waiter_moves :: "nat \<Rightarrow> completion_sys \<Rightarrow> completion_sys" where
  "waiter_moves i s =
    (let (pc, t) = wait_access (awaiters s i) s in s\<lparr>trk := t, awaiters := (awaiters s)(i := pc)\<rparr>)"

fun registered :: "wait_pc \<Rightarrow> bool" where
  "registered (WLoop v) = True" | "registered (WEnabled v w) = True" | "registered (WChecked v w) = True"
| "registered (WParked v w) = True" | "registered (WReturn v out) = True" | "registered _ = False"

text \<open>Dropping the future releases its registration.\<close>

definition waiter_cancels :: "nat \<Rightarrow> completion_sys \<Rightarrow> completion_sys" where
  "waiter_cancels i s =
    s\<lparr>trk := (if registered (awaiters s i) then (trk s)\<lparr>waiters := waiters (trk s) - 1\<rparr> else trk s),
      awaiters := (awaiters s)(i := WIdle)\<rparr>"

inductive completion_step :: "completion_sys \<Rightarrow> completion_sys \<Rightarrow> bool" where
  call_mark: "markers s i = MIdle \<Longrightarrow> completion_step s (marker_calls i v st s)"
| access_mark: "completion_step s (marker_moves i s)"
| spurious: "markers s i = AdvSeen current \<Longrightarrow> completion_step s (s\<lparr>markers := (markers s)(i := AdvTop)\<rparr>)"
| call_wait: "awaiters s i \<in> {WIdle, WDone v' out} \<Longrightarrow> completion_step s (s\<lparr>awaiters := (awaiters s)(i := WCalled v)\<rparr>)"
| access_wait: "completion_step s (waiter_moves i s)"
| cancel: "completion_step s (waiter_cancels i s)"
| fail_stop: "completion_step s (s\<lparr>reopen := True\<rparr>)"

definition completion_init :: "nat \<Rightarrow> completion_sys" where
  "completion_init wm = \<lparr>trk = with_watermark wm, marks = (\<lambda>v. if v \<le> wm then Some Materialized else None),
     markers = (\<lambda>_. MIdle), awaiters = (\<lambda>_. WIdle), reopen = False\<rparr>"

section \<open>Invariants\<close>

abbreviation terminal :: "vstate option \<Rightarrow> bool" where
  "terminal st \<equiv> st \<in> {Some Materialized, Some Aborted}"

text \<open>Marks below the watermark are terminal; above it the map holds the marks; an entry is removed
  only behind the watermark.\<close>

definition marks_inv :: "completion_sys \<Rightarrow> bool" where
  "marks_inv s = ((\<forall>v \<le> watermark (trk s). terminal (marks s v))
    \<and> (\<forall>v > watermark (trk s). map_of (states (trk s)) v = marks s v)
    \<and> (\<forall>i n. markers s i \<in> {AdvWon n, AdvCovered n, AdvNotify n, AdvRemove n} \<longrightarrow> n \<le> watermark (trk s))
    \<and> (\<forall>i n. markers s i = AdvSeen n \<longrightarrow> terminal (marks s (n + 1))))"

text \<open>A task that is still bound to look at the version after the watermark.\<close>

fun responsible :: "nat \<Rightarrow> mark_pc \<Rightarrow> bool" where
  "responsible wm AdvTop = True" | "responsible wm (AdvLoaded n) = (n = wm)" | "responsible wm (AdvSeen n) = True"
| "responsible wm (AdvWon n) = True" | "responsible wm (AdvCovered n) = True" | "responsible wm (AdvNotify n) = True"
| "responsible wm (AdvRemove n) = True" | "responsible wm _ = False"

definition advance_inv :: "completion_sys \<Rightarrow> bool" where
  "advance_inv s = (terminal (marks s (watermark (trk s) + 1))
     \<longrightarrow> (\<exists>i. responsible (watermark (trk s)) (markers s i)))"

fun will_notify :: "mark_pc \<Rightarrow> bool" where
  "will_notify (AdvWon n) = True" | "will_notify (AdvCovered n) = True" | "will_notify (AdvNotify n) = True"
| "will_notify _ = False"

definition reg_set :: "completion_sys \<Rightarrow> nat set" where
  "reg_set s = {i. registered (awaiters s i)}"

definition wait_inv :: "completion_sys \<Rightarrow> bool" where
  "wait_inv s = (finite (reg_set s) \<and> waiters (trk s) = card (reg_set s)
    \<and> (\<forall>i v. awaiters s i \<in> {WChecked v False, WParked v False} \<and> v \<le> watermark (trk s)
         \<longrightarrow> (\<exists>j. will_notify (markers s j)))
    \<and> (\<forall>i v. awaiters s i \<in> {WReturn v Visible, WDone v Visible} \<longrightarrow> v \<le> watermark (trk s)))"

lemma tracker_op_simps [simp]:
  "watermark (insert_state v st t) = watermark t" "watermark (remove_state v t) = watermark t"
  "watermark (coverage_call e t) = watermark t" "watermark (bump_watermark t) = watermark t + 1"
  "waiters (insert_state v st t) = waiters t" "waiters (remove_state v t) = waiters t"
  "waiters (coverage_call e t) = waiters t" "waiters (bump_watermark t) = waiters t"
  "states (coverage_call e t) = states t" "states (bump_watermark t) = states t"
  "map_of (states (remove_state k t)) v = (if v = k then None else map_of (states t) v)"
  "map_of (states (insert_state k st t)) v =
    (if v = k \<and> map_of (states t) k = None then Some st else map_of (states t) v)"
  by (simp_all add: insert_state_def remove_state_def coverage_call_def bump_watermark_def)

lemma marks_inv_marker:
  assumes "marks_inv s"
  shows "marks_inv (marker_moves i s)"
proof (cases "markers s i")
  case (MChecked v st)
  with assms show ?thesis
    by (auto simp: marks_inv_def marker_moves_def first_mark_def) (metis option.distinct(1))
next
  case (AdvSeen n)
  with assms show ?thesis
    by (auto simp: marks_inv_def marker_moves_def le_Suc_eq)
next
  case (AdvLoaded n)
  with assms show ?thesis
    by (auto simp: marks_inv_def marker_moves_def completed_def) (metis Suc_le_eq not_le)+
next
  case (AdvRemove n)
  then have "n \<le> watermark (trk s)" using assms by (simp add: marks_inv_def)
  then have "v \<noteq> n" if "watermark (trk s) < v" for v using that by simp
  with AdvRemove assms show ?thesis by (simp add: marks_inv_def marker_moves_def)
qed (use assms in \<open>auto simp: marks_inv_def marker_moves_def\<close>)

lemma marker_moves_simps:
  "markers (marker_moves i s) = (markers s)(i := fst (mark_access (markers s i) s))"
  "trk (marker_moves i s) = trk (snd (mark_access (markers s i) s))"
  "marks (marker_moves i s) = marks (snd (mark_access (markers s i) s))"
  "awaiters (marker_moves i s) = awaiters (snd (mark_access (markers s i) s))"
  by (simp_all add: marker_moves_def split: prod.split)

lemma advance_inv_marker:
  assumes "marks_inv s" and "advance_inv s"
  shows "advance_inv (marker_moves i s)"
proof (cases "responsible (watermark (trk (marker_moves i s))) (fst (mark_access (markers s i) s))")
  case True
  then show ?thesis unfolding advance_inv_def marker_moves_simps(1) by (intro impI exI[of _ i]) simp
next
  case False
  then have idle: "markers s i = MIdle \<or> (\<exists>v st. markers s i = MEntered v st)
      \<or> (\<exists>n. markers s i = AdvLoaded n \<and> \<not> completed (trk s) (n + 1))"
    by (cases "markers s i") (auto simp: marker_moves_simps split: if_splits)
  then have same: "trk (marker_moves i s) = trk s" "marks (marker_moves i s) = marks s"
    by (auto simp: marker_moves_simps)
  show ?thesis unfolding advance_inv_def same
  proof
    assume t: "terminal (marks s (watermark (trk s) + 1))"
    then obtain j where j: "responsible (watermark (trk s)) (markers s j)" using assms(2) by (auto simp: advance_inv_def)
    have "completed (trk s) (watermark (trk s) + 1)" using assms(1) t by (simp add: marks_inv_def completed_def)
    with idle j have "j \<noteq> i" by auto
    with j show "\<exists>i'. responsible (watermark (trk s)) (markers (marker_moves i s) i')"
      by (intro exI[of _ j]) (simp add: marker_moves_simps)
  qed
qed

lemma reg_set_notify: "reg_set (s\<lparr>awaiters := (\<lambda>i. notify (awaiters s i))\<rparr>) = reg_set s"
proof -
  have "registered (notify pc) = registered pc" for pc by (cases pc) (simp_all add: notify_def)
  then show ?thesis by (simp add: reg_set_def)
qed

lemma no_registration: "wait_inv s \<Longrightarrow> waiters (trk s) = 0 \<Longrightarrow> \<not> registered (awaiters s i)"
  by (auto simp: wait_inv_def reg_set_def)

text \<open>The wait invariant in rule form: what a state must provide to keep it.\<close>

lemma wait_invI:
  assumes "wait_inv s" and "reg_set t = reg_set s" and "waiters (trk t) = waiters (trk s)"
    and "watermark (trk s) \<le> watermark (trk t)"
    and "\<And>i v. awaiters t i \<in> {WReturn v Visible, WDone v Visible} \<Longrightarrow> awaiters t i = awaiters s i"
    and "\<And>i v. \<lbrakk>awaiters t i \<in> {WChecked v False, WParked v False}; v \<le> watermark (trk t)\<rbrakk>
      \<Longrightarrow> \<exists>j. will_notify (markers t j)"
  shows "wait_inv t"
  using assms unfolding wait_inv_def by (metis le_trans)

lemma wait_inv_marker:
  assumes "wait_inv s"
  shows "wait_inv (marker_moves i s)"
proof -
  let ?t = "marker_moves i s"
  have pend: "\<exists>j. will_notify (markers s j)"
    if "awaiters s k \<in> {WChecked v False, WParked v False}" "v \<le> watermark (trk s)" for k v
    using assms that unfolding wait_inv_def by blast
  have keep: "\<exists>j. will_notify (markers ?t j)" if "\<exists>j. will_notify (markers s j)"
      "will_notify (markers s i) \<longrightarrow> will_notify (fst (mark_access (markers s i) s))"
    using that by (metis fun_upd_apply marker_moves_simps(1))
  have now: "\<exists>j. will_notify (markers ?t j)" if "will_notify (fst (mark_access (markers s i) s))"
    using that by (intro exI[of _ i]) (simp add: marker_moves_simps)
  show ?thesis
  proof (cases "markers s i")
    case (AdvSeen n)
    show ?thesis
      by (rule wait_invI[OF assms])
        (use AdvSeen pend keep now in \<open>auto simp: marker_moves_simps reg_set_def split: if_splits\<close>)
  next
    case (AdvCovered n)
    show ?thesis
    proof (cases "waiters (trk s) = 0")
      case True
      then have "awaiters s k \<notin> {WChecked v False, WParked v False}" for k v
        using no_registration[OF assms True, of k] by auto
      with AdvCovered True show ?thesis
        by (intro wait_invI[OF assms]) (auto simp: marker_moves_simps reg_set_def)
    next
      case False
      show ?thesis
        by (rule wait_invI[OF assms]) (use AdvCovered False now in \<open>auto simp: marker_moves_simps reg_set_def\<close>)
    qed
  next
    case (AdvNotify n)
    have "notify (awaiters s k) \<notin> {WChecked v False, WParked v False}" for k v
      by (cases "awaiters s k") (simp_all add: notify_def)
    moreover have "notify (awaiters s k) = awaiters s k" if "notify (awaiters s k) \<in> {WReturn v Visible, WDone v Visible}" for k v
      using that by (cases "awaiters s k") (simp_all add: notify_def)
    ultimately show ?thesis using AdvNotify reg_set_notify[of s]
      by (intro wait_invI[OF assms]) (auto simp: marker_moves_simps reg_set_def)
  qed (rule wait_invI[OF assms]; use pend keep now in \<open>auto simp: marker_moves_simps reg_set_def split: if_splits\<close>)+
qed

text \<open>The two marker invariants only read the tracker's map and watermark, the marks and the markers.\<close>

lemma marker_invs_frame:
  assumes "watermark (trk t) = watermark (trk s)" and "states (trk t) = states (trk s)"
    and "marks t = marks s" and "markers t = markers s"
  shows "marks_inv t = marks_inv s" and "advance_inv t = advance_inv s"
  using assms by (simp_all add: marks_inv_def advance_inv_def)

lemma wait_inv_frame:
  assumes "wait_inv s" and "awaiters t = awaiters s" and "waiters (trk t) = waiters (trk s)"
    and "watermark (trk t) = watermark (trk s)" and "\<And>j. will_notify (markers s j) \<Longrightarrow> \<exists>k. will_notify (markers t k)"
  shows "wait_inv t"
proof -
  have "reg_set t = reg_set s" by (simp add: reg_set_def assms(2))
  then show ?thesis using assms unfolding wait_inv_def by metis
qed

lemma call_mark_invs:
  assumes "marks_inv s" "advance_inv s" "wait_inv s" and "markers s i = MIdle"
  shows "marks_inv (marker_calls i v st s) \<and> advance_inv (marker_calls i v st s) \<and> wait_inv (marker_calls i v st s)"
proof (intro conjI)
  show "marks_inv (marker_calls i v st s)" using assms(1) by (auto simp: marks_inv_def marker_calls_def)
  have j: "j \<noteq> i" if "responsible wm (markers s j) \<or> will_notify (markers s j)" for j wm using that assms(4) by auto
  have "\<exists>k. responsible wm (markers (marker_calls i v st s) k)" if "responsible wm (markers s k)" for k wm
    using that j[of wm k] by (intro exI[of _ k]) (simp add: marker_calls_def)
  moreover have eqs: "watermark (trk (marker_calls i v st s)) = watermark (trk s)" "marks (marker_calls i v st s) = marks s"
    by (simp_all add: marker_calls_def)
  ultimately show "advance_inv (marker_calls i v st s)" using assms(2) unfolding advance_inv_def eqs by blast
  have n: "\<exists>k. will_notify (markers (marker_calls i v st s) k)" if "will_notify (markers s k)" for k
    using that j[of 0 k] by (intro exI[of _ k]) (simp add: marker_calls_def)
  show "wait_inv (marker_calls i v st s)"
    by (rule wait_inv_frame[OF assms(3) _ _ _ n]) (simp_all add: marker_calls_def)
qed

lemma spurious_invs:
  assumes "marks_inv s" "wait_inv s" and "markers s i = AdvSeen n"
  shows "marks_inv (s\<lparr>markers := (markers s)(i := AdvTop)\<rparr>) \<and> advance_inv (s\<lparr>markers := (markers s)(i := AdvTop)\<rparr>)
    \<and> wait_inv (s\<lparr>markers := (markers s)(i := AdvTop)\<rparr>)"
proof (intro conjI)
  let ?t = "s\<lparr>markers := (markers s)(i := AdvTop)\<rparr>"
  show "marks_inv ?t" using assms(1) by (auto simp: marks_inv_def)
  show "advance_inv ?t" unfolding advance_inv_def by (intro impI exI[of _ i]) simp
  have "\<exists>k. will_notify (markers ?t k)" if "will_notify (markers s k)" for k
    using that assms(3) by (intro exI[of _ k]) auto
  from wait_inv_frame[OF assms(2) _ _ _ this] show "wait_inv ?t" by simp
qed

text \<open>A waiter's own step changes its registration, or nothing the other tasks see.\<close>

lemma reg_set_upd:
  "reg_set (s\<lparr>trk := t, awaiters := (awaiters s)(i := pc)\<rparr>) = (if registered pc then insert i (reg_set s) else reg_set s - {i})"
  "reg_set (s\<lparr>awaiters := (awaiters s)(i := pc)\<rparr>) = (if registered pc then insert i (reg_set s) else reg_set s - {i})"
  by (auto simp: reg_set_def)

lemma wait_inv_waiter:
  assumes "wait_inv s"
    and "waiters t = waiters (trk s) + (if registered pc then 1 else 0) - (if registered (awaiters s i) then 1 else 0)"
    and "watermark t = watermark (trk s)"
    and "\<forall>v. pc \<in> {WChecked v False, WParked v False} \<longrightarrow> watermark t < v \<or> awaiters s i = WChecked v False"
    and "\<forall>v. pc \<in> {WReturn v Visible, WDone v Visible} \<longrightarrow> v \<le> watermark t"
  shows "wait_inv (s\<lparr>trk := t, awaiters := (awaiters s)(i := pc)\<rparr>)"
proof -
  have fin: "finite (reg_set s)" "waiters (trk s) = card (reg_set s)" using assms(1) by (simp_all add: wait_inv_def)
  have mem: "registered (awaiters s i) \<longleftrightarrow> i \<in> reg_set s" by (simp add: reg_set_def)
  have card: "waiters t = card (reg_set (s\<lparr>trk := t, awaiters := (awaiters s)(i := pc)\<rparr>))"
    using fin assms(2) mem by (auto simp: reg_set_upd insert_absorb card_insert_if)
  have pend: "\<exists>j. will_notify (markers s j)" if "awaiters s k \<in> {WChecked v False, WParked v False}" "v \<le> watermark (trk s)" for k v
    using assms(1) that unfolding wait_inv_def by blast
  have vis: "v \<le> watermark (trk s)" if "awaiters s k \<in> {WReturn v Visible, WDone v Visible}" for k v
    using assms(1) that unfolding wait_inv_def by blast
  show ?thesis
    unfolding wait_inv_def using card fin(1) pend vis assms(3-5)
    by (auto simp: reg_set_upd) (meson not_le)+
qed

lemma waiter_moves_inv:
  assumes "wait_inv s"
  shows "wait_inv (waiter_moves i s)"
proof -
  let ?pc = "fst (wait_access (awaiters s i) s)" and ?t = "snd (wait_access (awaiters s i) s)"
  have reg: "waiters (trk s) \<noteq> 0" if "registered (awaiters s i)" using no_registration[OF assms] that by blast
  have "wait_inv (s\<lparr>trk := ?t, awaiters := (awaiters s)(i := ?pc)\<rparr>)"
  proof (rule wait_inv_waiter[OF assms])
    show "waiters ?t = waiters (trk s) + (if registered ?pc then 1 else 0) - (if registered (awaiters s i) then 1 else 0)"
      by (cases "awaiters s i") auto
    show "watermark ?t = watermark (trk s)" by (cases "awaiters s i") auto
    show "\<forall>v. ?pc \<in> {WChecked v False, WParked v False} \<longrightarrow> watermark ?t < v \<or> awaiters s i = WChecked v False"
      by (cases "awaiters s i") (auto split: if_splits)
    show "\<forall>v. ?pc \<in> {WReturn v Visible, WDone v Visible} \<longrightarrow> v \<le> watermark ?t"
      using assms by (cases "awaiters s i") (auto simp: wait_inv_def)
  qed
  then show ?thesis by (simp add: waiter_moves_def case_prod_beta)
qed

lemma waiter_moves_frame:
  "watermark (trk (waiter_moves i s)) = watermark (trk s)" "states (trk (waiter_moves i s)) = states (trk s)"
  "marks (waiter_moves i s) = marks s" "markers (waiter_moves i s) = markers s"
  by (cases "awaiters s i"; simp add: waiter_moves_def)+

definition completion_inv :: "completion_sys \<Rightarrow> bool" where
  "completion_inv s = (marks_inv s \<and> advance_inv s \<and> wait_inv s)"

lemma completion_step_inv: "completion_step s t \<Longrightarrow> completion_inv s \<Longrightarrow> completion_inv t"
proof (induction rule: completion_step.induct)
  case (call_mark s i v st)
  then show ?case using call_mark_invs[of s i v st] by (simp add: completion_inv_def)
next
  case (access_mark s i)
  then show ?case
    using marks_inv_marker[of s i] advance_inv_marker[of s i] wait_inv_marker[of s i] by (simp add: completion_inv_def)
next
  case (spurious s i n)
  then show ?case using spurious_invs[of s i n] by (simp add: completion_inv_def)
next
  case (call_wait s i v' out v)
  have "wait_inv (s\<lparr>trk := trk s, awaiters := (awaiters s)(i := WCalled v)\<rparr>)"
    by (rule wait_inv_waiter) (use call_wait in \<open>auto simp: completion_inv_def\<close>)
  with call_wait show ?case
    using marker_invs_frame[of "s\<lparr>awaiters := (awaiters s)(i := WCalled v)\<rparr>" s] by (simp add: completion_inv_def)
next
  case (access_wait s i)
  then show ?case
    using waiter_moves_inv[of s i] marker_invs_frame[OF waiter_moves_frame[of i s]] by (simp add: completion_inv_def)
next
  case (cancel s i)
  have "wait_inv (waiter_cancels i s)" unfolding waiter_cancels_def
    by (rule wait_inv_waiter) (use cancel in \<open>auto simp: completion_inv_def\<close>)
  with cancel show ?case using marker_invs_frame[of "waiter_cancels i s" s] by (simp add: completion_inv_def waiter_cancels_def)
next
  case (fail_stop s)
  then show ?case
    using marker_invs_frame[of "s\<lparr>reopen := True\<rparr>" s] wait_inv_frame[of s "s\<lparr>reopen := True\<rparr>"]
    by (auto simp: completion_inv_def)
qed

lemma completion_reachable_inv: "completion_step\<^sup>*\<^sup>* (completion_init wm) s \<Longrightarrow> completion_inv s"
proof (induction rule: rtranclp_induct)
  case base
  show ?case by (simp add: completion_inv_def marks_inv_def advance_inv_def wait_inv_def reg_set_def
      completion_init_def with_watermark_def)
next
  case (step s t)
  then show ?case by (simp add: completion_step_inv)
qed

text \<open>A run in which one waiter parks for version 1 and one task marks it, for the examples.\<close>

definition sample_parked :: completion_sys where
  "sample_parked = (marker_moves 0 ^^ 5) (marker_calls 0 1 Materialized
     ((waiter_moves 0 ^^ 6) ((completion_init 0)\<lparr>awaiters := (\<lambda>_. WIdle)(0 := WCalled 1)\<rparr>)))"

definition sample_quiet :: completion_sys where
  "sample_quiet = (marker_moves 0 ^^ 6) sample_parked"

lemma moves_reachable:
  "completion_step\<^sup>*\<^sup>* s ((marker_moves i ^^ n) s)" "completion_step\<^sup>*\<^sup>* s ((waiter_moves i ^^ n) s)"
  by (induction n) (auto intro: rtranclp.rtrancl_into_rtrancl completion_step.access_mark completion_step.access_wait)

lemma sample_waiting:
  "(waiter_moves 0 ^^ 6) ((completion_init 0)\<lparr>awaiters := (\<lambda>_. WIdle)(0 := WCalled 1)\<rparr>)
    = (completion_init 0)\<lparr>trk := (with_watermark 0)\<lparr>waiters := 1\<rparr>, awaiters := (\<lambda>_. WIdle)(0 := WParked 1 False)\<rparr>"
  by (simp add: eval_nat_numeral waiter_moves_def completion_init_def with_watermark_def fun_upd_idem_iff)

lemma sample_parked_reachable: "completion_step\<^sup>*\<^sup>* (completion_init 0) sample_parked"
proof -
  let ?w = "(completion_init 0)\<lparr>awaiters := (\<lambda>_. WIdle)(0 := WCalled 1)\<rparr>"
  have "completion_step (completion_init 0) ?w"
    using completion_step.call_wait[of "completion_init 0" 0 0 Visible 1] by (simp add: completion_init_def)
  moreover have "completion_step\<^sup>*\<^sup>* ?w ((waiter_moves 0 ^^ 6) ?w)" by (rule moves_reachable)
  moreover have "completion_step ((waiter_moves 0 ^^ 6) ?w) (marker_calls 0 1 Materialized ((waiter_moves 0 ^^ 6) ?w))"
    unfolding sample_waiting by (rule completion_step.call_mark) (simp add: completion_init_def)
  ultimately show ?thesis
    unfolding sample_parked_def using moves_reachable(1) by (meson rtranclp.rtrancl_into_rtrancl converse_rtranclp_into_rtranclp rtranclp_trans)
qed

lemma sample_quiet_reachable: "completion_step\<^sup>*\<^sup>* (completion_init 0) sample_quiet"
  unfolding sample_quiet_def using sample_parked_reachable moves_reachable(1) by (meson rtranclp_trans)

lemma sample_parked_eq:
  "trk sample_parked = (with_watermark 0)\<lparr>watermark := 1, states := [(1, Materialized)], waiters := 1\<rparr>"
  "markers sample_parked 0 = AdvWon 1" "awaiters sample_parked 0 = WParked 1 False"
  unfolding sample_parked_def sample_waiting
  by (simp_all add: eval_nat_numeral marker_calls_def marker_moves_def completion_init_def with_watermark_def tracker_ops)

lemma sample_quiet_eq: "watermark (trk sample_quiet) = 1"
  unfolding sample_quiet_def
  by (simp add: eval_nat_numeral marker_moves_def sample_parked_eq with_watermark_def tracker_ops)

section \<open>Properties\<close>

text \<open>C13: However marks from many tasks interleave, the watermark never passes a version that is not
  marked materialized or aborted, and once no task is inside \<^verbatim>\<open>mark\<close> it stands exactly at the end of the
  contiguous marked prefix: no advance is lost.\<close>

theorem concurrent_watermark_exact:
  assumes "completion_step\<^sup>*\<^sup>* (completion_init wm) s"
  shows "(\<forall>v \<le> watermark (trk s). marks s v \<in> {Some Materialized, Some Aborted})
    \<and> ((\<forall>i. markers s i = MIdle) \<longrightarrow> marks s (watermark (trk s) + 1) \<notin> {Some Materialized, Some Aborted})"
proof -
  have inv: "marks_inv s" "advance_inv s" using completion_reachable_inv[OF assms] by (simp_all add: completion_inv_def)
  have "\<not> responsible n MIdle" for n by simp
  then show ?thesis using inv unfolding marks_inv_def advance_inv_def by metis
qed

theorem concurrent_watermark_exact_witness:
  "marks sample_quiet 1 \<in> {Some Materialized, Some Aborted}"
  using concurrent_watermark_exact[OF sample_quiet_reachable] by (simp add: sample_quiet_eq)

text \<open>C12: No wake-up of a visibility wait is lost: a waiter parked without a notification whose version
  has become visible has a task on its way to notify it, and a wait that returned visible is right.\<close>

theorem no_lost_wakeup:
  assumes "completion_step\<^sup>*\<^sup>* (completion_init wm) s"
  shows "(awaiters s i = WParked v False \<and> v \<le> watermark (trk s)
      \<longrightarrow> (\<exists>j n. markers s j \<in> {AdvWon n, AdvCovered n, AdvNotify n}))
    \<and> (awaiters s i = WDone v Visible \<longrightarrow> v \<le> watermark (trk s))"
proof -
  have inv: "wait_inv s" using completion_reachable_inv[OF assms] by (simp add: completion_inv_def)
  have "\<exists>n. pc \<in> {AdvWon n, AdvCovered n, AdvNotify n}" if "will_notify pc" for pc using that by (cases pc) auto
  with inv show ?thesis unfolding wait_inv_def by blast
qed

theorem no_lost_wakeup_witness:
  "\<exists>j n. markers sample_parked j \<in> {AdvWon n, AdvCovered n, AdvNotify n}"
  using no_lost_wakeup[OF sample_parked_reachable, of 0 1] by (simp add: sample_parked_eq)

end
