(* ===== verification/SnapshotGate.thy ===== *)
theory SnapshotGate
  imports OrderedMap
begin

text \<open>
  Snapshots of the per-repository gate (\<^verbatim>\<open>shamir-tx/src/gate/repo_tx_gate.rs\<close>): opening a
  snapshot registers the versions it may read at in a reference-counted map
  and its ordered mirror, and \<^verbatim>\<open>min_alive\<close> computes the floor below which
  history may be reclaimed.  Any number of openers, guards and \<^verbatim>\<open>min_alive\<close> calls
  interleave, one atomic access per step; the update of map and mirror for
  one version is one step, because it runs under the map's entry lock.  The
  completion watermark only grows (\<^verbatim>\<open>CompletionProtocol\<close>) and is advanced by the
  environment.
\<close>

section \<open>Shared state and its accesses\<close>

record snap_gate =
  floor_wm :: nat
  active_snapshots_opening :: nat
  active_snapshots :: "nat \<rightharpoonup> nat"
  snapshot_versions :: "(nat \<times> unit) list"
  active_serializable_count :: nat

definition snap_gate_new :: "nat \<Rightarrow> snap_gate" where
  "snap_gate_new wm = \<lparr>floor_wm = wm, active_snapshots_opening = 0, active_snapshots = Map.empty,
     snapshot_versions = [], active_serializable_count = 0\<rparr>"

definition bump_refcount :: "nat \<Rightarrow> snap_gate \<Rightarrow> snap_gate" where
  "bump_refcount version g =
    (case active_snapshots g version of
       Some n \<Rightarrow> g\<lparr>active_snapshots := (active_snapshots g)(version \<mapsto> n + 1)\<rparr>
     | None \<Rightarrow> g\<lparr>active_snapshots := (active_snapshots g)(version \<mapsto> 1),
         snapshot_versions := snd (insert_sync version () (snapshot_versions g))\<rparr>)"

text \<open>One round of the loop of \<^verbatim>\<open>SnapshotGuard::drop\<close>.\<close>

definition drop_refcount :: "nat \<Rightarrow> snap_gate \<Rightarrow> snap_gate" where
  "drop_refcount v g =
    (case active_snapshots g v of
       Some count \<Rightarrow>
         if count \<le> 1
         then g\<lparr>active_snapshots := (active_snapshots g)(v := None),
                snapshot_versions := snd (remove_sync v (snapshot_versions g))\<rparr>
         else g\<lparr>active_snapshots := (active_snapshots g)(v \<mapsto> count - 1)\<rparr>
     | None \<Rightarrow> g)"

text \<open>The last access of \<^verbatim>\<open>min_alive\<close>: the first key of the ordered mirror lowers the watermark read before.\<close>

definition alive_min :: "snap_gate \<Rightarrow> nat \<Rightarrow> nat" where
  "alive_min g min_wm =
    (case ti_range (Included 0) Unbounded (snapshot_versions g) of
       [] \<Rightarrow> min_wm
     | e # _ \<Rightarrow> min min_wm (fst e))"

definition min_alive :: "snap_gate \<Rightarrow> nat" where
  "min_alive g = (if 0 < active_snapshots_opening g then 0 else alive_min g (floor_wm g))"

definition snapshots_opening :: "snap_gate \<Rightarrow> bool" where
  "snapshots_opening g = (0 < active_snapshots_opening g)"

definition active_snapshots_empty :: "snap_gate \<Rightarrow> bool" where
  "active_snapshots_empty g = (active_snapshots g = Map.empty \<and> \<not> snapshots_opening g)"

section \<open>Program points\<close>

text \<open>
  \<^verbatim>\<open>open_snapshot\<close> (the flag: \<^verbatim>\<open>open_snapshot_serializable\<close>): raise the opening
  barrier, read the watermark, register it and read again until it did not
  move or four versions are registered, lower the barrier, hold the guard,
  drop it one version at a time.
\<close>

definition MAX_RETRIES :: nat where "MAX_RETRIES = 4"

datatype open_pc = OIdle | OBarrier bool | OHave bool nat "nat list" | OReg bool nat "nat list"
  | OClose bool "nat list" | OCount "nat list" | OOpen bool "nat list" | ODropping bool "nat list"

fun open_access :: "open_pc \<Rightarrow> snap_gate \<Rightarrow> open_pc \<times> snap_gate" where
  "open_access OIdle g = (OIdle, g)"
| "open_access (OBarrier ser) g = (OHave ser (floor_wm g) [], g)"
| "open_access (OHave ser current regs) g = (OReg ser current (regs @ [current]), bump_refcount current g)"
| "open_access (OReg ser current regs) g =
    (let next = floor_wm g in
     if next = current \<or> MAX_RETRIES \<le> length regs then (OClose ser regs, g) else (OHave ser next regs, g))"
| "open_access (OClose ser regs) g =
    (if ser then OCount regs else OOpen False regs,
     g\<lparr>active_snapshots_opening := active_snapshots_opening g - 1\<rparr>)"
| "open_access (OCount regs) g =
    (OOpen True regs, g\<lparr>active_serializable_count := active_serializable_count g + 1\<rparr>)"
| "open_access (OOpen ser regs) g = (ODropping ser regs, g)"
| "open_access (ODropping ser (v # regs)) g = (ODropping ser regs, drop_refcount v g)"
| "open_access (ODropping ser []) g =
    (OIdle, g\<lparr>active_serializable_count := active_serializable_count g - (if ser then 1 else 0)\<rparr>)"

datatype floor_pc = FIdle | FNoOpener | FHave nat | FDone nat

fun floor_access :: "floor_pc \<Rightarrow> snap_gate \<Rightarrow> floor_pc" where
  "floor_access FIdle g = (if 0 < active_snapshots_opening g then FDone 0 else FNoOpener)"
| "floor_access FNoOpener g = FHave (floor_wm g)"
| "floor_access (FHave w) g = FDone (alive_min g w)"
| "floor_access (FDone m) g = FIdle"

record snap_sys =
  sgate :: snap_gate
  openers :: "nat \<Rightarrow> open_pc"
  floors :: "nat \<Rightarrow> floor_pc"

definition opener_moves :: "nat \<Rightarrow> snap_sys \<Rightarrow> snap_sys" where
  "opener_moves i s = (let (pc, g) = open_access (openers s i) (sgate s) in s\<lparr>sgate := g, openers := (openers s)(i := pc)\<rparr>)"

inductive snap_step :: "snap_sys \<Rightarrow> snap_sys \<Rightarrow> bool" where
  call_open: "openers s i = OIdle \<Longrightarrow> snap_step s
    (s\<lparr>sgate := (sgate s)\<lparr>active_snapshots_opening := active_snapshots_opening (sgate s) + 1\<rparr>,
       openers := (openers s)(i := OBarrier ser)\<rparr>)"
| access_open: "snap_step s (opener_moves i s)"
| access_floor: "snap_step s (s\<lparr>floors := (floors s)(k := floor_access (floors s k) (sgate s))\<rparr>)"
| advance: "floor_wm (sgate s) \<le> w \<Longrightarrow> snap_step s (s\<lparr>sgate := (sgate s)\<lparr>floor_wm := w\<rparr>\<rparr>)"

definition snap_init :: "nat \<Rightarrow> snap_sys" where
  "snap_init wm = \<lparr>sgate = snap_gate_new wm, openers = (\<lambda>_. OIdle), floors = (\<lambda>_. FIdle)\<rparr>"

section \<open>Registered versions\<close>

text \<open>The versions a task holds a reference on, and the references on a version.\<close>

fun held :: "open_pc \<Rightarrow> nat list" where
  "held (OHave ser current regs) = regs" | "held (OReg ser current regs) = regs" | "held (OClose ser regs) = regs"
| "held (OCount regs) = regs" | "held (OOpen ser regs) = regs" | "held (ODropping ser regs) = regs" | "held _ = []"

definition holders :: "snap_sys \<Rightarrow> nat set" where
  "holders s = {i. held (openers s i) \<noteq> []}"

definition refs :: "snap_sys \<Rightarrow> nat \<Rightarrow> nat" where
  "refs s v = (\<Sum>i \<in> holders s. count_list (held (openers s i)) v)"

lemma refs_superset:
  "finite A \<Longrightarrow> holders s \<subseteq> A \<Longrightarrow> refs s v = (\<Sum>i \<in> A. count_list (held (openers s i)) v)"
  unfolding refs_def by (rule sum.mono_neutral_left) (auto simp: holders_def)

lemma holders_update: "finite (holders s) \<Longrightarrow> finite (holders (s\<lparr>sgate := g, openers := (openers s)(i := pc)\<rparr>))"
  by (rule finite_subset[of _ "insert i (holders s)"]) (auto simp: holders_def)

lemma refs_update:
  assumes "finite (holders s)"
  shows "refs (s\<lparr>sgate := g, openers := (openers s)(i := pc)\<rparr>) v + count_list (held (openers s i)) v
    = refs s v + count_list (held pc) v"
proof -
  let ?A = "insert i (holders s)" and ?t = "s\<lparr>sgate := g, openers := (openers s)(i := pc)\<rparr>"
  have fin: "finite ?A" using assms by simp
  have "refs ?t v = (\<Sum>j \<in> ?A. count_list (held (openers ?t j)) v)"
    by (rule refs_superset[OF fin]) (auto simp: holders_def)
  also have "\<dots> = count_list (held pc) v + (\<Sum>j \<in> ?A - {i}. count_list (held (openers s j)) v)"
    using fin by (subst sum.remove[of _ i]) (auto intro!: sum.cong)
  finally have t: "refs ?t v = count_list (held pc) v + (\<Sum>j \<in> ?A - {i}. count_list (held (openers s j)) v)" .
  have "refs s v = (\<Sum>j \<in> ?A. count_list (held (openers s j)) v)" by (rule refs_superset[OF fin]) auto
  also have "\<dots> = count_list (held (openers s i)) v + (\<Sum>j \<in> ?A - {i}. count_list (held (openers s j)) v)"
    using fin by (subst sum.remove[of _ i]) auto
  finally show ?thesis using t by simp
qed

lemma refs_pos: "finite (holders s) \<Longrightarrow> v \<in> set (held (openers s i)) \<Longrightarrow> 0 < refs s v"
proof -
  assume fin: "finite (holders s)" and v: "v \<in> set (held (openers s i))"
  then have "i \<in> holders s" by (auto simp: holders_def)
  moreover have "count_list (held (openers s i)) v \<noteq> 0" using v by (simp add: count_list_0_iff)
  ultimately show ?thesis unfolding refs_def using fin by (metis gr0I sum_eq_0_iff)
qed

text \<open>Map, mirror and references agree.\<close>

definition mirror :: "snap_gate \<Rightarrow> (nat \<Rightarrow> nat) \<Rightarrow> bool" where
  "mirror g r = (active_snapshots g = (\<lambda>v. if r v = 0 then None else Some (r v))
    \<and> ti_ok (snapshot_versions g) \<and> dom (map_of (snapshot_versions g)) = {v. r v \<noteq> 0})"

definition count_inv :: "snap_sys \<Rightarrow> bool" where
  "count_inv s = (finite (holders s) \<and> mirror (sgate s) (refs s))"

lemma mirror_bump:
  assumes "mirror g r"
  shows "mirror (bump_refcount v g) (r(v := r v + 1))"
proof (cases "r v = 0")
  case True
  with assms have "v \<notin> dom (map_of (snapshot_versions g))" by (simp add: mirror_def)
  then have "map_of (snapshot_versions g) v = None" by (metis domIff)
  with True assms show ?thesis by (auto simp: mirror_def bump_refcount_def insert_sync_def)
next
  case False
  with assms show ?thesis by (auto simp: mirror_def bump_refcount_def)
qed

lemma mirror_drop:
  assumes "mirror g r" and "0 < r v"
  shows "mirror (drop_refcount v g) (r(v := r v - 1))"
proof (cases "r v = 1")
  case True
  with assms show ?thesis by (auto simp: mirror_def drop_refcount_def remove_sync_def)
next
  case False
  with assms show ?thesis by (auto simp: mirror_def drop_refcount_def)
qed

lemma mirror_mem: "mirror g r \<Longrightarrow> r v \<noteq> 0 \<Longrightarrow> alive_min g w \<le> v"
proof -
  assume m: "mirror g r" and v: "r v \<noteq> 0"
  then have "v \<in> dom (map_of (snapshot_versions g))" by (simp add: mirror_def)
  then obtain x where "map_of (snapshot_versions g) v = Some x" by (blast dest: domD)
  then have e: "(v, x) \<in> set (snapshot_versions g)" by (rule map_of_SomeD)
  have ok: "ti_ok (snapshot_versions g)" using m by (simp add: mirror_def)
  show ?thesis
  proof (cases "snapshot_versions g")
    case (Cons h t)
    then have "fst h \<le> v" using e ok by (auto simp: ti_ok_Cons dest!: bspec)
    with Cons show ?thesis by (simp add: alive_min_def ti_range_def)
  qed (use e in simp)
qed

lemma alive_min_le: "alive_min g w \<le> w"
  by (simp add: alive_min_def split: list.split)

lemma mirror_frame:
  "active_snapshots h = active_snapshots g \<Longrightarrow> snapshot_versions h = snapshot_versions g \<Longrightarrow> mirror h r = mirror g r"
  by (simp add: mirror_def)

lemma count_inv_opener:
  assumes "count_inv s"
  shows "count_inv (opener_moves i s)"
proof -
  let ?pc = "fst (open_access (openers s i) (sgate s))" and ?g = "snd (open_access (openers s i) (sgate s))"
  let ?t = "s\<lparr>sgate := ?g, openers := (openers s)(i := ?pc)\<rparr>"
  have fin: "finite (holders s)" and m: "mirror (sgate s) (refs s)" using assms by (simp_all add: count_inv_def)
  note upd = refs_update[OF fin, where g = ?g and i = i and pc = ?pc]
  have "mirror ?g (refs ?t)"
  proof (cases "(\<exists>ser cur regs. openers s i = OHave ser cur regs) \<or> (\<exists>ser v regs. openers s i = ODropping ser (v # regs))")
    case True
    then consider (reg) ser cur regs where "openers s i = OHave ser cur regs"
      | (drop) ser v regs where "openers s i = ODropping ser (v # regs)" by blast
    then show ?thesis
    proof cases
      case reg
      have "refs ?t = (refs s)(cur := refs s cur + 1)" using upd reg by (fastforce simp: fun_eq_iff)
      with reg mirror_bump[OF m, of cur] show ?thesis by simp
    next
      case drop
      have pos: "0 < refs s v" by (rule refs_pos[OF fin, of _ i]) (simp add: drop)
      have "refs ?t = (refs s)(v := refs s v - 1)"
      proof
        fix u show "refs ?t u = ((refs s)(v := refs s v - 1)) u" using upd[of u] drop pos by (auto split: if_splits)
      qed
      with drop mirror_drop[OF m pos] show ?thesis by simp
    qed
  next
    case False
    then have same: "held ?pc = held (openers s i)" "active_snapshots ?g = active_snapshots (sgate s)"
        "snapshot_versions ?g = snapshot_versions (sgate s)"
      by (cases "(openers s i, sgate s)" rule: open_access.cases; simp add: Let_def)+
    have "refs ?t = refs s"
    proof
      fix v show "refs ?t v = refs s v" using upd[of v] same(1) by simp
    qed
    with m mirror_frame[OF same(2,3)] show ?thesis by simp
  qed
  moreover have "opener_moves i s = ?t" by (simp add: opener_moves_def case_prod_beta)
  ultimately show ?thesis using holders_update[OF fin] by (simp add: count_inv_def)
qed

section \<open>The floor stays below every snapshot\<close>

text \<open>A snapshot in the making: the versions it registers ascend and do not exceed the watermark.\<close>

fun open_ok :: "nat \<Rightarrow> open_pc \<Rightarrow> bool" where
  "open_ok wm (OHave ser cur regs) = (sorted_wrt (<) (regs @ [cur]) \<and> cur \<le> wm)"
| "open_ok wm (OReg ser cur regs) = (regs \<noteq> [] \<and> last regs = cur \<and> sorted_wrt (<) regs \<and> cur \<le> wm)"
| "open_ok wm (OClose ser regs) = (regs \<noteq> [] \<and> sorted_wrt (<) regs \<and> last regs \<le> wm)"
| "open_ok wm (OCount regs) = (regs \<noteq> [] \<and> sorted_wrt (<) regs \<and> last regs \<le> wm)"
| "open_ok wm (OOpen ser regs) = (regs \<noteq> [] \<and> sorted_wrt (<) regs \<and> last regs \<le> wm)"
| "open_ok wm _ = True"

text \<open>A floor already handed out does not exceed the version the snapshot will have.\<close>

fun floor_ok :: "nat \<Rightarrow> open_pc \<Rightarrow> bool" where
  "floor_ok m (OHave ser cur regs) = (regs = [] \<or> m \<le> cur)"
| "floor_ok m (OReg ser cur regs) = (length regs \<le> 1 \<or> m \<le> cur)"
| "floor_ok m (OClose ser regs) = (m \<le> last regs)"
| "floor_ok m (OCount regs) = (m \<le> last regs)"
| "floor_ok m (OOpen ser regs) = (m \<le> last regs)"
| "floor_ok m _ = True"

definition floor_inv :: "snap_sys \<Rightarrow> bool" where
  "floor_inv s = ((\<forall>i. open_ok (floor_wm (sgate s)) (openers s i))
    \<and> (\<forall>k w. floors s k = FHave w \<longrightarrow> w \<le> floor_wm (sgate s))
    \<and> (\<forall>k m. floors s k = FDone m \<longrightarrow> m \<le> floor_wm (sgate s) \<and> (\<forall>i. floor_ok m (openers s i))))"

lemma sorted_le_last: "sorted_wrt (<) (xs :: nat list) \<Longrightarrow> x \<in> set xs \<Longrightarrow> x \<le> last xs"
  by (induction xs) (auto intro: less_imp_le)

lemma floor_wm_access [simp]: "floor_wm (snd (open_access pc g)) = floor_wm g"
  by (cases "(pc, g)" rule: open_access.cases)
    (simp_all add: bump_refcount_def drop_refcount_def Let_def split: option.split)

lemma open_ok_access: "open_ok (floor_wm g) pc \<Longrightarrow> open_ok (floor_wm g) (fst (open_access pc g))"
  by (cases "(pc, g)" rule: open_access.cases) (auto simp: Let_def sorted_wrt_append dest: sorted_le_last)

lemma floor_ok_access:
  "\<lbrakk>open_ok (floor_wm g) pc; m \<le> floor_wm g; floor_ok m pc\<rbrakk> \<Longrightarrow> floor_ok m (fst (open_access pc g))"
  by (cases "(pc, g)" rule: open_access.cases) (auto simp: Let_def MAX_RETRIES_def)

text \<open>The mirror holds the first version of every snapshot that has registered one.\<close>

lemma alive_min_floor_ok:
  assumes "count_inv s" and "open_ok (floor_wm (sgate s)) (openers s i)"
  shows "floor_ok (alive_min (sgate s) w) (openers s i)"
proof (cases "held (openers s i) = []")
  case True
  then show ?thesis using assms(2) by (cases "openers s i") auto
next
  case False
  then have "refs s (hd (held (openers s i))) \<noteq> 0"
    using refs_pos[of s "hd (held (openers s i))" i] assms(1) by (simp add: count_inv_def)
  then have le: "alive_min (sgate s) w \<le> hd (held (openers s i))"
    using mirror_mem[of "sgate s" "refs s"] assms(1) unfolding count_inv_def by blast
  have last: "hd regs \<le> last regs" if "sorted_wrt (<) regs" "regs \<noteq> []" for regs :: "nat list"
    using that by (intro sorted_le_last) auto
  show ?thesis
  proof (cases "openers s i")
    case (OHave ser cur regs)
    then have "hd regs < cur" using False assms(2) by (simp add: sorted_wrt_append)
    with le OHave show ?thesis by simp
  qed (use le last assms(2) in \<open>auto intro: le_trans\<close>)
qed

lemma floor_inv_opener:
  assumes "floor_inv s"
  shows "floor_inv (opener_moves i s)"
proof -
  let ?pc = "fst (open_access (openers s i) (sgate s))" and ?g = "snd (open_access (openers s i) (sgate s))"
  have "open_ok (floor_wm (sgate s)) ?pc" using assms by (intro open_ok_access) (simp add: floor_inv_def)
  moreover have "floor_ok m ?pc" if "floors s k = FDone m" for k m
    by (rule floor_ok_access) (use assms that in \<open>auto simp: floor_inv_def\<close>)
  ultimately have "floor_inv (s\<lparr>sgate := ?g, openers := (openers s)(i := ?pc)\<rparr>)"
    using assms by (simp add: floor_inv_def)
  then show ?thesis by (simp add: opener_moves_def case_prod_beta)
qed

lemma floor_inv_floor:
  assumes "floor_inv s" and "count_inv s"
  shows "floor_inv (s\<lparr>floors := (floors s)(k := floor_access (floors s k) (sgate s))\<rparr>)"
proof -
  have ok: "open_ok (floor_wm (sgate s)) (openers s i)" for i using assms(1) by (simp add: floor_inv_def)
  have zero: "floor_ok 0 (openers s i)" for i by (cases "openers s i") auto
  show ?thesis
  proof (cases "floors s k")
    case (FHave w)
    then have "alive_min (sgate s) w \<le> floor_wm (sgate s)"
      using assms(1) alive_min_le[of "sgate s" w] by (simp add: floor_inv_def) (meson le_trans)
    with FHave assms(1) alive_min_floor_ok[OF assms(2) ok] show ?thesis by (simp add: floor_inv_def)
  qed (use assms(1) zero in \<open>simp_all add: floor_inv_def\<close>)
qed

lemma open_ok_mono: "open_ok wm pc \<Longrightarrow> wm \<le> wm' \<Longrightarrow> open_ok wm' pc"
  by (cases pc) auto

lemma snap_step_inv: "snap_step s t \<Longrightarrow> count_inv s \<and> floor_inv s \<Longrightarrow> count_inv t \<and> floor_inv t"
proof (induction rule: snap_step.induct)
  case (call_open s i ser)
  let ?g = "(sgate s)\<lparr>active_snapshots_opening := active_snapshots_opening (sgate s) + 1\<rparr>"
  let ?t = "s\<lparr>sgate := ?g, openers := (openers s)(i := OBarrier ser)\<rparr>"
  have fin: "finite (holders s)" using call_open by (simp add: count_inv_def)
  have "refs ?t v = refs s v" for v using refs_update[OF fin, where g = ?g and i = i and pc = "OBarrier ser" and v = v] call_open by simp
  then have "refs ?t = refs s" by (rule ext)
  then have "count_inv ?t" using call_open holders_update[OF fin] mirror_frame[of ?g "sgate s" "refs s"] by (simp add: count_inv_def)
  moreover have "floor_inv ?t" using call_open by (simp add: floor_inv_def)
  ultimately show ?case by blast
next
  case (access_open s i)
  then show ?case using count_inv_opener floor_inv_opener by blast
next
  case (access_floor s k)
  let ?t = "s\<lparr>floors := (floors s)(k := floor_access (floors s k) (sgate s))\<rparr>"
  have "holders ?t = holders s" "refs ?t = refs s" by (simp_all add: holders_def refs_def fun_eq_iff)
  with access_floor floor_inv_floor[of s k] show ?case by (simp add: count_inv_def)
next
  case (advance s w)
  let ?t = "s\<lparr>sgate := (sgate s)\<lparr>floor_wm := w\<rparr>\<rparr>"
  have "holders ?t = holders s" "refs ?t = refs s" by (simp_all add: holders_def refs_def fun_eq_iff)
  then have "count_inv ?t" using advance mirror_frame[of "sgate ?t" "sgate s" "refs s"] by (simp add: count_inv_def)
  moreover have "floor_inv ?t" using advance by (simp add: floor_inv_def) (meson open_ok_mono le_trans)
  ultimately show ?case by blast
qed

lemma snap_reachable_inv: "snap_step\<^sup>*\<^sup>* (snap_init wm) s \<Longrightarrow> count_inv s \<and> floor_inv s"
proof (induction rule: rtranclp_induct)
  case base
  show ?case
    by (simp add: count_inv_def floor_inv_def mirror_def snap_init_def snap_gate_new_def holders_def refs_def)
next
  case (step s t)
  then show ?case using snap_step_inv by blast
qed

text \<open>One snapshot opened at version 5 with a commit arriving meanwhile, and a floor computed after it.\<close>

definition sample_snap :: snap_sys where
  "sample_snap = (let s = (opener_moves 0 ^^ 2) ((snap_init 5)\<lparr>sgate := (snap_gate_new 5)\<lparr>active_snapshots_opening := 1\<rparr>,
       openers := (\<lambda>_. OIdle)(0 := OBarrier True)\<rparr>);
       t = (opener_moves 0 ^^ 5) (s\<lparr>sgate := (sgate s)\<lparr>floor_wm := 6\<rparr>\<rparr>);
       f = (\<lambda>t. t\<lparr>floors := (floors t)(0 := floor_access (floors t 0) (sgate t))\<rparr>)
     in f (f (f t)))"

lemma opener_moves_reachable: "snap_step\<^sup>*\<^sup>* s ((opener_moves i ^^ n) s)"
  by (induction n) (auto intro: rtranclp.rtrancl_into_rtrancl snap_step.access_open)

lemma floor_reachable:
  assumes "snap_step\<^sup>*\<^sup>* a s"
  shows "snap_step\<^sup>*\<^sup>* a (s\<lparr>floors := (floors s)(k := floor_access (floors s k) (sgate s))\<rparr>)"
  using assms snap_step.access_floor by (rule rtranclp.rtrancl_into_rtrancl)

lemma sample_snap_reachable: "snap_step\<^sup>*\<^sup>* (snap_init 5) sample_snap"
proof -
  let ?a = "(snap_init 5)\<lparr>sgate := (snap_gate_new 5)\<lparr>active_snapshots_opening := 1\<rparr>, openers := (\<lambda>_. OIdle)(0 := OBarrier True)\<rparr>"
  let ?s = "(opener_moves 0 ^^ 2) ?a"
  let ?b = "?s\<lparr>sgate := (sgate ?s)\<lparr>floor_wm := 6\<rparr>\<rparr>"
  have "snap_step (snap_init 5) ?a"
    using snap_step.call_open[of "snap_init 5" 0 True] by (simp add: snap_init_def snap_gate_new_def)
  moreover have "floor_wm (sgate ?s) = 5"
    by (simp add: eval_nat_numeral opener_moves_def case_prod_beta snap_gate_new_def bump_refcount_def split: option.split)
  then have "snap_step ?s ?b" using snap_step.advance[of ?s 6] by simp
  moreover have "snap_step\<^sup>*\<^sup>* ?a ?s" "snap_step\<^sup>*\<^sup>* ?b ((opener_moves 0 ^^ 5) ?b)" by (rule opener_moves_reachable)+
  ultimately have "snap_step\<^sup>*\<^sup>* (snap_init 5) ((opener_moves 0 ^^ 5) ?b)"
    by (meson converse_rtranclp_into_rtranclp rtranclp_trans)
  then show ?thesis unfolding sample_snap_def Let_def
    by (intro floor_reachable)
qed

lemma sample_snap_eq:
  "floors sample_snap 0 = FDone 5" "openers sample_snap 0 = OOpen True [5, 6]"
  by (simp_all add: sample_snap_def Let_def eval_nat_numeral opener_moves_def snap_init_def snap_gate_new_def
      bump_refcount_def insert_sync_def alive_min_def ti_range_def MAX_RETRIES_def)

section \<open>Properties\<close>



text \<open>C15: The reference counts and their ordered mirror stay exact: every version an open snapshot
  registered is in both, and when no snapshot is held both are empty, so no registration leaks.\<close>

theorem snapshot_registration_exact:
  assumes "snap_step\<^sup>*\<^sup>* (snap_init wm) s"
  shows "dom (active_snapshots (sgate s)) = fst ` set (snapshot_versions (sgate s))
    \<and> (\<forall>i. set (held (openers s i)) \<subseteq> dom (active_snapshots (sgate s)))
    \<and> ((\<forall>i. openers s i = OIdle) \<longrightarrow> active_snapshots (sgate s) = Map.empty \<and> snapshot_versions (sgate s) = [])"
proof -
  have fin: "finite (holders s)" and m: "mirror (sgate s) (refs s)" using snap_reachable_inv[OF assms] by (simp_all add: count_inv_def)
  have dom: "dom (active_snapshots (sgate s)) = {v. refs s v \<noteq> 0}"
    using m by (auto simp: mirror_def dom_def split: if_splits)
  moreover have tree: "fst ` set (snapshot_versions (sgate s)) = {v. refs s v \<noteq> 0}"
    using m unfolding mirror_def dom_map_of_conv_image_fst by blast
  moreover have "set (held (openers s i)) \<subseteq> {v. refs s v \<noteq> 0}" for i using refs_pos[OF fin] by auto
  moreover have "refs s v = 0" if "\<forall>i. openers s i = OIdle" for v using that by (simp add: refs_def holders_def)
  ultimately show ?thesis by (auto simp: dom_eq_empty_conv[symmetric] simp del: dom_eq_empty_conv)
qed

theorem snapshot_registration_exact_witness: "6 \<in> dom (active_snapshots (sgate sample_snap))"
proof -
  have "6 \<in> set (held (openers sample_snap 0))" by (simp add: sample_snap_eq)
  with snapshot_registration_exact[OF sample_snap_reachable] show ?thesis by blast
qed

end
