(* ===== verification/Predicates.thy ===== *)
theory Predicates
  imports SortCodec OrderedMap
begin

text \<open>
  The predicate read set of a serializable transaction
  (\<^verbatim>\<open>shamir-tx/src/gate/predicate_set.rs\<close>): the append-only log of scanned intervals,
  and the test whether sorted posting keys meet an interval.
  \<^verbatim>\<open>slice::partition_point\<close>, a binary search, is the number of leading elements
  that satisfy its test; the tests here are downward closed, as it requires.
\<close>

datatype predicate_dep =
  IndexRange u64 u64 "bytes bound" "bytes bound"
  | TableScan u64

record predicate_set =
  plog :: "(u64 \<times> predicate_dep) list"
  next_seq :: u64
  len_mirror :: nat

definition predicate_set_new :: predicate_set where
  "predicate_set_new = \<lparr>plog = [], next_seq = 0, len_mirror = 0\<rparr>"

definition predicate_push :: "predicate_dep \<Rightarrow> predicate_set \<Rightarrow> predicate_set" where
  "predicate_push dep p =
    (let seq = next_seq p
     in p\<lparr>next_seq := seq + 1, plog := snd (insert_sync seq dep (plog p)), len_mirror := len_mirror p + 1\<rparr>)"

definition predicate_is_empty :: "predicate_set \<Rightarrow> bool" where
  "predicate_is_empty p = (len_mirror p = 0)"

definition snapshot_deps :: "predicate_set \<Rightarrow> predicate_dep list" where
  "snapshot_deps p = map snd (plog p)"

definition SORTED_PREFIX_LEN :: nat where "SORTED_PREFIX_LEN = 9"

definition key_in_interval :: "bytes \<Rightarrow> u64 \<Rightarrow> bytes bound \<Rightarrow> bytes bound \<Rightarrow> bool" where
  "key_in_interval posting_key index_id lo hi =
    (let pre = sorted_prefix index_id in
     if length posting_key < SORTED_PREFIX_LEN \<or> take SORTED_PREFIX_LEN posting_key \<noteq> pre then False
     else if (case lo of Unbounded \<Rightarrow> False | Included b \<Rightarrow> posting_key < b | Excluded b \<Rightarrow> posting_key \<le> b) then False
     else if (case hi of Unbounded \<Rightarrow> False | Included b \<Rightarrow> b < posting_key | Excluded b \<Rightarrow> b \<le> posting_key) then False
     else True)"

definition partition_point :: "('a \<Rightarrow> bool) \<Rightarrow> 'a list \<Rightarrow> nat" where
  "partition_point P xs = length (takeWhile P xs)"

definition index_range_overlaps_sorted :: "bytes list \<Rightarrow> u64 \<Rightarrow> bytes bound \<Rightarrow> bytes bound \<Rightarrow> bool" where
  "index_range_overlaps_sorted posting_keys index_id lo hi =
    (let prefix_start = partition_point (\<lambda>k. k < sorted_prefix index_id) posting_keys;
         start = (case lo of
            Unbounded \<Rightarrow> prefix_start
          | Included b \<Rightarrow> max prefix_start (partition_point (\<lambda>k. k < b) posting_keys)
          | Excluded b \<Rightarrow> max prefix_start (partition_point (\<lambda>k. k \<le> b) posting_keys))
     in if start < length posting_keys then key_in_interval (posting_keys ! start) index_id lo hi else False)"

section \<open>The log keeps its order\<close>

definition predicate_ok :: "predicate_set \<Rightarrow> bool" where
  "predicate_ok p = (len_mirror p = length (plog p) \<and> map fst (plog p) = map of_nat [0 ..< length (plog p)]
    \<and> next_seq p = of_nat (length (plog p)))"

lemma of_nat_u64_less: "\<lbrakk>i < j; j < 2 ^ 64\<rbrakk> \<Longrightarrow> (of_nat i :: u64) < of_nat j"
  by (simp add: word_less_nat_alt unat_of_nat)

lemma upsert_last: "(\<And>e. e \<in> set t \<Longrightarrow> fst e < k) \<Longrightarrow> upsert_sync k v t = t @ [(k, v)]"
proof (induction t)
  case (Cons e t)
  have "\<not> k < fst e" "k \<noteq> fst e" using Cons.prems[of e] by auto
  with Cons show ?case by simp
qed simp

lemma predicate_push_appends:
  assumes "predicate_ok p" and "length (plog p) < 2 ^ 64"
  shows "predicate_ok (predicate_push dep p) \<and> snapshot_deps (predicate_push dep p) = snapshot_deps p @ [dep]"
proof -
  have keys: "map fst (plog p) = map of_nat [0 ..< length (plog p)]" "next_seq p = of_nat (length (plog p))"
    using assms(1) by (simp_all add: predicate_ok_def)
  have lt: "fst e < next_seq p" if "e \<in> set (plog p)" for e
  proof -
    have "fst e \<in> set (map of_nat [0 ..< length (plog p)])" using that unfolding keys(1)[symmetric] by simp
    then show ?thesis using assms(2) keys(2) by (auto intro: of_nat_u64_less[simplified])
  qed
  then have "map_of (plog p) (next_seq p) = None" by (force simp: map_of_eq_None_iff)
  then have "plog (predicate_push dep p) = plog p @ [(next_seq p, dep)]"
    using upsert_last[OF lt] by (simp add: predicate_push_def insert_sync_def Let_def)
  moreover have "next_seq (predicate_push dep p) = next_seq p + 1" "len_mirror (predicate_push dep p) = len_mirror p + 1"
    by (simp_all add: predicate_push_def Let_def)
  ultimately show ?thesis using assms(1) by (simp add: predicate_ok_def snapshot_deps_def)
qed

section \<open>Intervals\<close>

lemma length_sorted_prefix_9: "length (sorted_prefix n) = 9"
  by (simp add: sorted_prefix_def)

lemma key_in_interval_iff:
  "key_in_interval k index_id lo hi \<longleftrightarrow> prefix (sorted_prefix index_id) k \<and> above lo k \<and> below hi k"
proof -
  have "prefix (sorted_prefix index_id) k \<longleftrightarrow> \<not> (length k < SORTED_PREFIX_LEN \<or> take SORTED_PREFIX_LEN k \<noteq> sorted_prefix index_id)"
    by (auto simp: SORTED_PREFIX_LEN_def prefix_def length_sorted_prefix_9 intro: append_take_drop_id[symmetric, THEN trans])
  then show ?thesis by (auto simp: key_in_interval_def Let_def split: bound.splits)
qed

lemma takeWhile_le_nth:
  assumes "sorted (xs :: bytes list)" and "i < length xs" and "length (takeWhile P xs) \<le> i"
    and "\<And>x y. x \<le> y \<Longrightarrow> P y \<Longrightarrow> P x"
  shows "\<not> P (xs ! i)"
proof -
  let ?n = "length (takeWhile P xs)"
  have "\<not> P (xs ! ?n)" using assms(2,3) by (intro nth_length_takeWhile) simp
  moreover have "xs ! ?n \<le> xs ! i" using assms(1-3) by (intro sorted_nth_mono) simp_all
  ultimately show ?thesis using assms(4) by blast
qed

lemma takeWhile_gt_nth: "i < length (takeWhile P xs) \<Longrightarrow> P (xs ! i)"
  by (metis nth_mem set_takeWhileD takeWhile_nth)

lemma takeWhile_False: "takeWhile (\<lambda>_. False) xs = []"
  by (cases xs) simp_all

text \<open>The first index at or beyond which both the prefix and the lower bound are respected.\<close>

definition start_at :: "bytes list \<Rightarrow> u64 \<Rightarrow> bytes bound \<Rightarrow> nat" where
  "start_at ks index_id lo = max (partition_point (\<lambda>k. k < sorted_prefix index_id) ks)
     (partition_point (\<lambda>k. \<not> above lo k) ks)"

lemma overlaps_start_at:
  "index_range_overlaps_sorted ks index_id lo hi
    \<longleftrightarrow> start_at ks index_id lo < length ks \<and> key_in_interval (ks ! start_at ks index_id lo) index_id lo hi"
  by (cases lo) (simp_all add: index_range_overlaps_sorted_def takeWhile_False start_at_def partition_point_def Let_def not_le not_less)

lemma start_at_least:
  assumes "sorted ks" and "i < length ks" and "sorted_prefix index_id \<le> ks ! i" and "above lo (ks ! i)"
  shows "start_at ks index_id lo \<le> i"
proof (rule ccontr)
  assume "\<not> ?thesis"
  then consider "i < length (takeWhile (\<lambda>k. k < sorted_prefix index_id) ks)" | "i < length (takeWhile (\<lambda>k. \<not> above lo k) ks)"
    by (auto simp: start_at_def partition_point_def)
  then show False using takeWhile_gt_nth assms(3,4) by cases (fastforce dest: takeWhile_gt_nth)+
qed

lemma start_at_bounds:
  assumes "sorted ks" and "start_at ks index_id lo < length ks"
  shows "sorted_prefix index_id \<le> ks ! start_at ks index_id lo \<and> above lo (ks ! start_at ks index_id lo)"
proof -
  have "\<not> ks ! start_at ks index_id lo < sorted_prefix index_id"
    by (rule takeWhile_le_nth[OF assms]) (auto simp: start_at_def partition_point_def)
  moreover have "\<not> \<not> above lo (ks ! start_at ks index_id lo)"
    by (rule takeWhile_le_nth[OF assms, where P = "\<lambda>k. \<not> above lo k"])
      (auto simp: start_at_def partition_point_def elim: order.trans, cases lo, auto)
  ultimately show ?thesis by simp
qed

lemma overlaps_sorted_iff:
  assumes "sorted posting_keys"
  shows "index_range_overlaps_sorted posting_keys index_id lo hi
    \<longleftrightarrow> (\<exists>k \<in> set posting_keys. key_in_interval k index_id lo hi)"
proof
  assume "index_range_overlaps_sorted posting_keys index_id lo hi"
  then show "\<exists>k \<in> set posting_keys. key_in_interval k index_id lo hi" by (auto simp: overlaps_start_at)
next
  assume "\<exists>k \<in> set posting_keys. key_in_interval k index_id lo hi"
  then obtain i where i: "i < length posting_keys" "prefix (sorted_prefix index_id) (posting_keys ! i)"
      "above lo (posting_keys ! i)" "below hi (posting_keys ! i)"
    by (auto simp: key_in_interval_iff in_set_conv_nth)
  let ?s = "start_at posting_keys index_id lo"
  have s: "?s \<le> i" using start_at_least[OF assms i(1) prefix_le[OF i(2)] i(3)] .
  then have le: "posting_keys ! ?s \<le> posting_keys ! i" using assms i(1) by (simp add: sorted_nth_mono)
  note b = start_at_bounds[OF assms, of index_id lo]
  have "prefix (sorted_prefix index_id) (posting_keys ! ?s)" using prefix_between[OF _ le i(2)] b s i(1) by simp
  moreover have "below hi (posting_keys ! ?s)" using i(4) le by (cases hi) auto
  ultimately show "index_range_overlaps_sorted posting_keys index_id lo hi"
    using b s i(1) by (simp add: overlaps_start_at key_in_interval_iff)
qed

text \<open>C22: On sorted posting keys, the two binary searches and the single candidate test find an overlap
  with an interval of an index exactly when some posting key of that index lies in the interval.\<close>

theorem overlaps_sorted_exact:
  assumes "sorted posting_keys"
  shows "index_range_overlaps_sorted posting_keys index_id lo hi
    \<longleftrightarrow> (\<exists>k \<in> set posting_keys. key_in_interval k index_id lo hi)"
  by (rule overlaps_sorted_iff[OF assms])

theorem overlaps_sorted_exact_witness:
  "index_range_overlaps_sorted [sorted_prefix 2 @ [5], sorted_prefix 3 @ [5], sorted_prefix 3 @ [9]] 3
     (Excluded (sorted_prefix 3 @ [5])) (Included (sorted_prefix 3 @ [9]))"
proof -
  have "sorted [sorted_prefix 2 @ [5], sorted_prefix 3 @ [5], sorted_prefix 3 @ [9]]"
    by (simp add: sorted_prefix_def less_imp_le less_append_iff_eq_length)
  from overlaps_sorted_exact[OF this, of 3] show ?thesis by (simp add: key_in_interval_iff)
qed

end
