(* ===== verification/HashMap.thy ===== *)
theory HashMap
  imports Prelude
begin

text \<open>
  The hash maps and sets the sources take from libraries (\<^verbatim>\<open>scc::HashMap\<close>,
  \<^verbatim>\<open>TFxMap\<close>, \<^verbatim>\<open>IndexMap\<close>, \<^verbatim>\<open>TFxSet\<close>), held as the list of their entries in iteration
  order with distinct keys.  For \<^verbatim>\<open>IndexMap\<close> that order is the order of first
  insertion, which the code relies on; for the others no result below depends
  on it.  \<^verbatim>\<open>saturating_add\<close> on \<^verbatim>\<open>usize\<close> is addition capped at its largest value.
\<close>

named_theorems hm_simps \<open>hash maps seen through \<^const>\<open>map_of\<close>\<close>

definition hm_ok :: "('k \<times> 'v) list \<Rightarrow> bool" where
  "hm_ok m = distinct (map fst m)"

fun position :: "'k \<Rightarrow> ('k \<times> 'v) list \<Rightarrow> nat option" where
  "position k [] = None"
| "position k (e # m) = (if fst e = k then Some 0 else map_option Suc (position k m))"

text \<open>\<^verbatim>\<open>IndexMap::insert_full\<close>: the slot of the key, the value it had, the new map.\<close>

definition insert_full :: "'k \<Rightarrow> 'v \<Rightarrow> ('k \<times> 'v) list \<Rightarrow> nat \<times> 'v option \<times> ('k \<times> 'v) list" where
  "insert_full k v m =
    (case position k m of
       Some i \<Rightarrow> (i, Some (snd (m ! i)), m[i := (k, v)])
     | None \<Rightarrow> (length m, None, m @ [(k, v)]))"

definition hm_put :: "'k \<Rightarrow> 'v \<Rightarrow> ('k \<times> 'v) list \<Rightarrow> ('k \<times> 'v) list" where
  "hm_put k v m = snd (snd (insert_full k v m))"

text \<open>\<^verbatim>\<open>entry(k).or_insert(v)\<close>, and \<^verbatim>\<open>entry(k).or_insert(d)\<close> followed by an update in place.\<close>

definition or_insert :: "'k \<Rightarrow> 'v \<Rightarrow> ('k \<times> 'v) list \<Rightarrow> ('k \<times> 'v) list" where
  "or_insert k v m = (if map_of m k = None then m @ [(k, v)] else m)"

definition hm_entry :: "'k \<Rightarrow> 'v \<Rightarrow> ('v \<Rightarrow> 'v) \<Rightarrow> ('k \<times> 'v) list \<Rightarrow> ('k \<times> 'v) list" where
  "hm_entry k d f m = hm_put k (f (case map_of m k of Some v \<Rightarrow> v | None \<Rightarrow> d)) m"

lemma position_None [hm_simps]: "position k m = None \<longleftrightarrow> map_of m k = None"
  by (induction m) auto

lemma position_Some: "position k m = Some i \<Longrightarrow> i < length m \<and> fst (m ! i) = k \<and> map_of m k = Some (snd (m ! i))"
  by (induction m arbitrary: i) (auto split: if_splits)

lemma position_in_set: "k \<in> fst ` set m \<Longrightarrow> \<exists>i. position k m = Some i"
  by (induction m) auto

lemma map_of_update_at: "position k m = Some i \<Longrightarrow> map_of (m[i := (k, v)]) = (map_of m)(k \<mapsto> v)"
proof (induction m arbitrary: i)
  case (Cons e m)
  then show ?case by (cases e) (auto split: if_splits)
qed simp

lemma map_of_snoc: "map_of m k = None \<Longrightarrow> map_of (m @ [(k, v)]) = (map_of m)(k \<mapsto> v)"
  by (auto simp: map_add_def fun_eq_iff split: option.splits)

lemma map_of_hm_put [simp, hm_simps]: "map_of (hm_put k v m) = (map_of m)(k \<mapsto> v)"
proof (cases "position k m")
  case None
  then show ?thesis using map_of_snoc[of m k v] by (simp add: hm_put_def insert_full_def position_None[symmetric])
next
  case (Some i)
  then show ?thesis by (simp add: hm_put_def insert_full_def map_of_update_at)
qed

lemma map_fst_update_at: "position k m = Some i \<Longrightarrow> map fst (m[i := (k, v)]) = map fst m"
  using position_Some[of k m i] by (simp add: map_update list_update_same_conv)

lemma hm_ok_put [simp]: "hm_ok m \<Longrightarrow> hm_ok (hm_put k v m)"
proof (cases "position k m")
  case None
  moreover assume "hm_ok m"
  ultimately show ?thesis
    using position_in_set[of k m] by (auto simp: hm_put_def insert_full_def hm_ok_def)
next
  case (Some i)
  moreover assume "hm_ok m"
  ultimately show ?thesis by (simp add: hm_put_def insert_full_def hm_ok_def map_fst_update_at)
qed

lemma hm_ok_or_insert [simp]: "hm_ok m \<Longrightarrow> hm_ok (or_insert k v m)"
  by (auto simp: or_insert_def hm_ok_def map_of_eq_None_iff)

lemma map_of_or_insert [simp, hm_simps]:
  "map_of (or_insert k v m) = (if map_of m k = None then (map_of m)(k \<mapsto> v) else map_of m)"
  using map_of_snoc[of m k v] by (simp add: or_insert_def)

lemma hm_ok_entry [simp]: "hm_ok m \<Longrightarrow> hm_ok (hm_entry k d f m)"
  by (simp add: hm_entry_def)

lemma map_of_hm_entry [simp, hm_simps]:
  "map_of (hm_entry k d f m) = (map_of m)(k \<mapsto> f (case map_of m k of Some v \<Rightarrow> v | None \<Rightarrow> d))"
  by (simp add: hm_entry_def)

lemma hm_ok_Nil [simp]: "hm_ok []"
  by (simp add: hm_ok_def)

lemma hm_mem_iff: "hm_ok m \<Longrightarrow> map_of m k = Some v \<longleftrightarrow> (k, v) \<in> set m"
  by (simp add: hm_ok_def)

lemma hm_put_ne [simp]: "hm_put k v m \<noteq> []"
  by (auto simp: hm_put_def insert_full_def split: option.split dest: position_Some)

lemma hm_put_keys: "fst ` set (hm_put k v m) = insert k (fst ` set m)"
  by (simp flip: dom_map_of_conv_image_fst)

section \<open>Saturating sizes\<close>

definition USIZE_MAX :: nat where "USIZE_MAX = 2 ^ 64 - 1"

definition sat_add :: "nat \<Rightarrow> nat \<Rightarrow> nat" where
  "sat_add a b = min USIZE_MAX (a + b)"

definition sat_mul :: "nat \<Rightarrow> nat \<Rightarrow> nat" where
  "sat_mul a b = min USIZE_MAX (a * b)"

lemma sat_add_cap [simp]: "sat_add (min USIZE_MAX a) b = min USIZE_MAX (a + b)"
  by (simp add: sat_add_def)

lemma sat_add_cap_right [simp]: "sat_add a (min USIZE_MAX b) = min USIZE_MAX (a + b)"
  by (simp add: sat_add_def)

lemma sat_fold_eq:
  assumes "\<And>a x. x \<in> set xs \<Longrightarrow> g x (min USIZE_MAX a) = min USIZE_MAX (a + w x)"
  shows "fold g xs (min USIZE_MAX a) = min USIZE_MAX (a + sum_list (map w xs))"
  using assms
proof (induction xs arbitrary: a)
  case (Cons x xs)
  then show ?case by (simp add: add.assoc)
qed simp

end
