(* ===== verification/StagingStore.thy ===== *)
theory StagingStore
  imports KvStore RecordValue HashMap
begin

text \<open>
  The write buffer of one transaction (\<^verbatim>\<open>shamir-tx/src/tx/staging_store.rs\<close>) over a
  base store, and the field index it keeps for probing its own writes
  (\<^verbatim>\<open>tx/support/staged_field_index.rs\<close>).  The buffer is an \<^verbatim>\<open>IndexMap\<close>, so a key keeps
  the slot of its first write and the field index refers to slots.  Decoding
  of a stored record (\<^verbatim>\<open>InnerValue::from_bytes\<close>, MessagePack) is the parameter
  \<^verbatim>\<open>decode\<close>; the keys of a scalar (\<^verbatim>\<open>ProbeKey::for_scalar\<close>) are the parameter \<^verbatim>\<open>for_scalar\<close>.
\<close>

section \<open>State\<close>

datatype staged_op = StagedSet bytes bool | StagedRemove

datatype staged_kind = KindSet bytes | KindRemoved

record 'p field_index =
  walked :: nat
  overwrites_seen :: nat
  postings :: "('p \<times> nat list) list"
  undecodable :: "nat list"

record ('s, 'p) staging_store =
  base :: 's
  writes :: "(record_key \<times> staged_op) list"
  probe_index :: "(u64 \<times> 'p field_index) list"
  overwritten :: "nat list"
  probe_built :: bool
  last_set :: "nat list"

definition staging_new :: "'s \<Rightarrow> ('s, 'p) staging_store" where
  "staging_new b = \<lparr>base = b, writes = [], probe_index = [], overwritten = [], probe_built = False, last_set = []\<rparr>"

section \<open>Writes and reads\<close>

definition staging_get :: "'s dyn_store \<Rightarrow> ('s, 'p) staging_store \<Rightarrow> record_key \<Rightarrow> bytes db_result" where
  "staging_get D st k =
    (case map_of (writes st) k of
       Some (StagedSet row _) \<Rightarrow> Inr row
     | Some StagedRemove \<Rightarrow> Inl (NotFound k)
     | None \<Rightarrow> ds_get D (base st) k)"

definition staged_op_at :: "('s, 'p) staging_store \<Rightarrow> record_key \<Rightarrow> staged_kind option" where
  "staged_op_at st k =
    map_option (\<lambda>op. case op of StagedSet row _ \<Rightarrow> KindSet row | StagedRemove \<Rightarrow> KindRemoved) (map_of (writes st) k)"

text \<open>The body shared by the writers: insert, and note an overwritten slot once a field index exists.\<close>

definition stage :: "record_key \<Rightarrow> staged_op \<Rightarrow> ('s, 'p) staging_store \<Rightarrow> nat \<times> ('s, 'p) staging_store" where
  "stage k op st =
    (let (i, old, w) = insert_full k op (writes st)
     in (i, st\<lparr>writes := w,
          overwritten := (if old \<noteq> None \<and> probe_built st then overwritten st @ [i] else overwritten st)\<rparr>))"

definition stage_set :: "record_key \<Rightarrow> bytes \<Rightarrow> ('s, 'p) staging_store \<Rightarrow> ('s, 'p) staging_store" where
  "stage_set k v st = (let (i, st') = stage k (StagedSet v False) st in st'\<lparr>last_set := last_set st' @ [i]\<rparr>)"

definition staging_set :: "record_key \<Rightarrow> bytes \<Rightarrow> ('s, 'p) staging_store \<Rightarrow> ('s, 'p) staging_store" where
  "staging_set k v st = stage_set k v (st\<lparr>last_set := []\<rparr>)"

definition staging_set_many :: "kv list \<Rightarrow> ('s, 'p) staging_store \<Rightarrow> ('s, 'p) staging_store" where
  "staging_set_many items st = fold (\<lambda>(k, v). stage_set k v) items (st\<lparr>last_set := []\<rparr>)"

definition staging_remove :: "record_key \<Rightarrow> ('s, 'p) staging_store \<Rightarrow> ('s, 'p) staging_store" where
  "staging_remove k st = snd (stage k StagedRemove (st\<lparr>last_set := []\<rparr>))"

definition mark_slot :: "nat \<Rightarrow> (record_key \<times> staged_op) list \<Rightarrow> (record_key \<times> staged_op) list" where
  "mark_slot i w =
    (if i < length w then
       (case w ! i of (k, StagedSet row _) \<Rightarrow> w[i := (k, StagedSet row True)] | (k, StagedRemove) \<Rightarrow> w)
     else w)"

definition mark_referenced_ids_captured :: "('s, 'p) staging_store \<Rightarrow> ('s, 'p) staging_store" where
  "mark_referenced_ids_captured st = st\<lparr>writes := fold mark_slot (last_set st) (writes st), last_set := []\<rparr>"

definition referenced_ids_captured :: "('s, 'p) staging_store \<Rightarrow> bool" where
  "referenced_ids_captured st =
    list_all (\<lambda>(_, op). case op of StagedSet _ captured \<Rightarrow> captured | StagedRemove \<Rightarrow> True) (writes st)"

definition iter_ops :: "('s, 'p) staging_store \<Rightarrow> kv_op list" where
  "iter_ops st = map (\<lambda>(k, op). case op of StagedSet row _ \<Rightarrow> KvSet k row | StagedRemove \<Rightarrow> KvRemove k) (writes st)"

definition snapshot_ops :: "('s, 'p) staging_store \<Rightarrow> kv_op list" where
  "snapshot_ops st = iter_ops st"

definition drain :: "('s, 'p) staging_store \<Rightarrow> kv_op list" where
  "drain st = map (\<lambda>(k, op). case op of StagedSet row _ \<Rightarrow> KvSet k row | StagedRemove \<Rightarrow> KvRemove k) (writes st)"

definition staging_bytes :: "('s, 'p) staging_store \<Rightarrow> nat" where
  "staging_bytes st =
    fold (\<lambda>(k, op) acc. case op of
        StagedSet row _ \<Rightarrow> sat_add (sat_add acc (length k)) (length row)
      | StagedRemove \<Rightarrow> sat_add acc (length k)) (writes st) 0"

definition staging_keys :: "('s, 'p) staging_store \<Rightarrow> record_key list" where
  "staging_keys st = map fst (writes st)"

definition iter_set_bytes :: "('s, 'p) staging_store \<Rightarrow> bytes list" where
  "iter_set_bytes st =
    List.map_filter (\<lambda>(_, op). case op of StagedSet row _ \<Rightarrow> Some row | StagedRemove \<Rightarrow> None) (writes st)"

definition iter_uncaptured_set_bytes :: "('s, 'p) staging_store \<Rightarrow> bytes list" where
  "iter_uncaptured_set_bytes st =
    List.map_filter (\<lambda>(_, op). case op of StagedSet row False \<Rightarrow> Some row | _ \<Rightarrow> None) (writes st)"

text \<open>\<^verbatim>\<open>rewrite_set_bytes\<close>: the loop stops at the first failure and keeps what it has rewritten.\<close>

fun rewrite_loop :: "(bytes \<Rightarrow> string + bytes) \<Rightarrow> (record_key \<times> staged_op) list
    \<Rightarrow> (string + unit) \<times> (record_key \<times> staged_op) list" where
  "rewrite_loop f [] = (Inr (), [])"
| "rewrite_loop f ((k, StagedRemove) # w) = (let (r, w') = rewrite_loop f w in (r, (k, StagedRemove) # w'))"
| "rewrite_loop f ((k, StagedSet row captured) # w) =
    (case f row of
       Inl e \<Rightarrow> (Inl e, (k, StagedSet row captured) # w)
     | Inr rewritten \<Rightarrow>
         let (r, w') = rewrite_loop f w
         in (r, (k, StagedSet rewritten (if rewritten \<noteq> row then False else captured)) # w'))"

definition rewrite_set_bytes :: "(bytes \<Rightarrow> string + bytes) \<Rightarrow> ('s, 'p) staging_store
    \<Rightarrow> (string + unit) \<times> ('s, 'p) staging_store" where
  "rewrite_set_bytes f st =
    (let (r, w) = rewrite_loop f (writes st)
     in (r, st\<lparr>last_set := [], probe_index := [], overwritten := [], probe_built := False, writes := w\<rparr>))"

section \<open>Field index\<close>

definition field_index_new :: "'p field_index" where
  "field_index_new = \<lparr>walked = 0, overwrites_seen = 0, postings = [], undecodable = []\<rparr>"

definition bytes_at :: "('s, 'p) staging_store \<Rightarrow> nat \<Rightarrow> bytes option" where
  "bytes_at st i =
    (if i < length (writes st)
     then (case snd (writes st ! i) of StagedSet row _ \<Rightarrow> Some row | StagedRemove \<Rightarrow> None) else None)"

definition add_posting :: "nat \<Rightarrow> 'p \<Rightarrow> 'p field_index \<Rightarrow> 'p field_index" where
  "add_posting pos key ix = ix\<lparr>postings := hm_entry key [] (List.insert pos) (postings ix)\<rparr>"

definition fold_slot :: "(bytes \<Rightarrow> inner_value option) \<Rightarrow> (scalar_ref \<Rightarrow> 'p list) \<Rightarrow> nat \<Rightarrow> u64
    \<Rightarrow> (nat \<Rightarrow> bytes option) \<Rightarrow> 'p field_index \<Rightarrow> 'p field_index" where
  "fold_slot decode for_scalar pos field at ix =
    (case at pos of
       None \<Rightarrow> ix
     | Some row \<Rightarrow>
         (case map_option (\<lambda>v. map_option for_scalar (scalar_at v [field])) (decode row) of
            Some (Some keys) \<Rightarrow> fold (add_posting pos) keys ix
          | Some None \<Rightarrow> ix
          | None \<Rightarrow> ix\<lparr>undecodable := List.insert pos (undecodable ix)\<rparr>))"

definition catch_up :: "(bytes \<Rightarrow> inner_value option) \<Rightarrow> (scalar_ref \<Rightarrow> 'p list) \<Rightarrow> u64 \<Rightarrow> nat \<Rightarrow> nat list
    \<Rightarrow> (nat \<Rightarrow> bytes option) \<Rightarrow> 'p field_index \<Rightarrow> 'p field_index" where
  "catch_up decode for_scalar field len overw at ix =
    fold (\<lambda>pos ix. fold_slot decode for_scalar pos field at (ix\<lparr>overwrites_seen := overwrites_seen ix + 1\<rparr>))
      (drop (overwrites_seen ix) overw)
      (fold (\<lambda>pos ix. (fold_slot decode for_scalar pos field at ix)\<lparr>walked := pos + 1\<rparr>) [walked ix ..< len] ix)"

definition candidates :: "'p list \<Rightarrow> 'p field_index \<Rightarrow> nat list" where
  "candidates keys ix =
    fold (\<lambda>key out. case map_of (postings ix) key of Some ps \<Rightarrow> fold List.insert ps out | None \<Rightarrow> out) keys (undecodable ix)"

definition set_row :: "record_key \<times> staged_op \<Rightarrow> kv option" where
  "set_row e = (case snd e of StagedSet row _ \<Rightarrow> Some (fst e, row) | StagedRemove \<Rightarrow> None)"

text \<open>\<^verbatim>\<open>keys\<close> are \<^verbatim>\<open>ProbeKey::for_query\<close> of the probed value.\<close>

definition probe_field :: "(bytes \<Rightarrow> inner_value option) \<Rightarrow> (scalar_ref \<Rightarrow> 'p list) \<Rightarrow> u64 \<Rightarrow> 'p list
    \<Rightarrow> ('s, 'p) staging_store \<Rightarrow> kv list \<times> ('s, 'p) staging_store" where
  "probe_field decode for_scalar field keys st =
    (if keys = [] then (List.map_filter set_row (writes st), st)
     else
       let ix = catch_up decode for_scalar field (length (writes st)) (overwritten st) (bytes_at st)
                  (case map_of (probe_index st) field of Some ix \<Rightarrow> ix | None \<Rightarrow> field_index_new)
       in (List.map_filter (\<lambda>i. if i < length (writes st) then set_row (writes st ! i) else None) (candidates keys ix),
           st\<lparr>probe_built := True, probe_index := hm_put field ix (probe_index st)\<rparr>))"

section \<open>The buffer as an overlay\<close>

text \<open>What a slot stages, without the capture flag; what the transaction sees of a key.\<close>

fun row_of :: "staged_op \<Rightarrow> bytes option" where
  "row_of (StagedSet row _) = Some row"
| "row_of StagedRemove = None"

definition rows :: "(record_key \<times> staged_op) list \<Rightarrow> (record_key \<times> bytes option) list" where
  "rows w = map (map_prod id row_of) w"

definition view :: "('s, 'p) staging_store \<Rightarrow> (record_key \<rightharpoonup> bytes) \<Rightarrow> record_key \<rightharpoonup> bytes" where
  "view st m k = (case map_of (rows (writes st)) k of Some r \<Rightarrow> r | None \<Rightarrow> m k)"

lemma map_of_rows: "map_of (rows w) k = map_option row_of (map_of w k)"
  by (induction w) (auto simp: rows_def)

lemma length_rows [simp]: "length (rows w) = length w"
  by (simp add: rows_def)

lemma rows_keys: "map fst (rows w) = map fst w"
  by (simp add: rows_def)

lemma case_row_of: "(case op of StagedSet row b \<Rightarrow> f row | StagedRemove \<Rightarrow> g) = (case row_of op of Some row \<Rightarrow> f row | None \<Rightarrow> g)"
  by (cases op) auto

lemma staging_get_view:
  "staging_get D st k = (case map_of (rows (writes st)) k of
     Some (Some row) \<Rightarrow> Inr row | Some None \<Rightarrow> Inl (NotFound k) | None \<Rightarrow> ds_get D (base st) k)"
  by (auto simp: staging_get_def map_of_rows case_row_of split: option.split)

lemma staged_op_at_rows:
  "staged_op_at st k = map_option (\<lambda>r. case r of Some row \<Rightarrow> KindSet row | None \<Rightarrow> KindRemoved) (map_of (rows (writes st)) k)"
  by (auto simp: staged_op_at_def map_of_rows case_row_of option.map_comp o_def)

lemma bytes_at_rows: "bytes_at st i = (if i < length (writes st) then snd (rows (writes st) ! i) else None)"
  by (auto simp: bytes_at_def rows_def split: staged_op.split)

lemma fold_drain:
  "distinct (map fst w) \<Longrightarrow>
    fold apply_op (map (\<lambda>(k, op). case op of StagedSet row _ \<Rightarrow> KvSet k row | StagedRemove \<Rightarrow> KvRemove k) w) m k
      = (case map_of (rows w) k of Some r \<Rightarrow> r | None \<Rightarrow> m k)"
proof (induction w arbitrary: m)
  case (Cons e w)
  obtain k' op where e: "e = (k', op)" by (cases e)
  have "map_of (rows w) k' = None" using Cons.prems e by (simp add: map_of_rows map_of_eq_None_iff)
  with Cons e show ?case by (cases op) (auto simp: rows_def split: option.split)
qed (simp add: rows_def)

lemma drain_view: "hm_ok (writes st) \<Longrightarrow> fold apply_op (drain st) m = view st m"
  using fold_drain[of "writes st" m] by (auto simp: drain_def view_def hm_ok_def)

section \<open>Field index invariant\<close>

definition hits :: "'p field_index \<Rightarrow> 'p \<Rightarrow> nat set" where
  "hits ix key = (case map_of (postings ix) key of Some ps \<Rightarrow> set ps | None \<Rightarrow> {})"

definition slot_ok :: "(bytes \<Rightarrow> inner_value option) \<Rightarrow> (scalar_ref \<Rightarrow> 'p list) \<Rightarrow> u64 \<Rightarrow> (nat \<Rightarrow> bytes option)
    \<Rightarrow> 'p field_index \<Rightarrow> nat \<Rightarrow> bool" where
  "slot_ok decode for_scalar field at ix pos =
    (\<forall>row. at pos = Some row \<longrightarrow>
       (case decode row of
          None \<Rightarrow> pos \<in> set (undecodable ix)
        | Some v \<Rightarrow> (case scalar_at v [field] of
             None \<Rightarrow> True | Some s \<Rightarrow> (\<forall>key \<in> set (for_scalar s). pos \<in> hits ix key))))"

definition index_ok :: "(bytes \<Rightarrow> inner_value option) \<Rightarrow> (scalar_ref \<Rightarrow> 'p list) \<Rightarrow> ('s, 'p) staging_store
    \<Rightarrow> u64 \<Rightarrow> 'p field_index \<Rightarrow> bool" where
  "index_ok decode for_scalar st field ix =
    (walked ix \<le> length (writes st) \<and> overwrites_seen ix \<le> length (overwritten st)
     \<and> (\<forall>pos < walked ix. pos \<notin> set (drop (overwrites_seen ix) (overwritten st))
          \<longrightarrow> slot_ok decode for_scalar field (bytes_at st) ix pos))"

definition staging_inv :: "(bytes \<Rightarrow> inner_value option) \<Rightarrow> (scalar_ref \<Rightarrow> 'p list) \<Rightarrow> ('s, 'p) staging_store \<Rightarrow> bool" where
  "staging_inv decode for_scalar st =
    (hm_ok (writes st)
     \<and> (\<forall>field ix. map_of (probe_index st) field = Some ix \<longrightarrow> probe_built st \<and> index_ok decode for_scalar st field ix))"

lemma hits_add_posting: "hits (add_posting pos key ix) k = (if k = key then insert pos (hits ix k) else hits ix k)"
  by (auto simp: hits_def add_posting_def split: option.split)

lemma fold_add_posting:
  "hits (fold (add_posting pos) keys ix) k = hits ix k \<union> (if k \<in> set keys then {pos} else {})
   \<and> undecodable (fold (add_posting pos) keys ix) = undecodable ix
   \<and> walked (fold (add_posting pos) keys ix) = walked ix
   \<and> overwrites_seen (fold (add_posting pos) keys ix) = overwrites_seen ix"
proof (induction keys arbitrary: ix)
  case (Cons key keys)
  show ?case
    using Cons[of "add_posting pos key ix"] by (auto simp: hits_add_posting) (simp_all add: add_posting_def)
qed simp

lemma fold_slot_frame [simp]:
  "walked (fold_slot decode fs pos field at ix) = walked ix"
  "overwrites_seen (fold_slot decode fs pos field at ix) = overwrites_seen ix"
  by (auto simp: fold_slot_def fold_add_posting split: option.split)

lemma fold_slot_mono:
  "hits ix key \<subseteq> hits (fold_slot decode fs pos field at ix) key"
  "set (undecodable ix) \<subseteq> set (undecodable (fold_slot decode fs pos field at ix))"
  by (auto simp: fold_slot_def fold_add_posting split: option.split) (simp add: hits_def)

lemma fold_slot_ok: "slot_ok decode fs field at (fold_slot decode fs pos field at ix) pos"
  by (auto simp: slot_ok_def fold_slot_def fold_add_posting split: option.splits)

lemma slot_ok_mono:
  assumes "slot_ok decode fs field at ix pos" and "\<And>key. hits ix key \<subseteq> hits ix' key"
    and "set (undecodable ix) \<subseteq> set (undecodable ix')"
  shows "slot_ok decode fs field at ix' pos"
  using assms unfolding slot_ok_def by (force split: option.splits)

lemma slot_ok_update [simp]:
  "slot_ok decode fs field at (ix\<lparr>walked := n\<rparr>) pos = slot_ok decode fs field at ix pos"
  "slot_ok decode fs field at (ix\<lparr>overwrites_seen := n\<rparr>) pos = slot_ok decode fs field at ix pos"
  by (simp_all add: slot_ok_def hits_def cong: option.case_cong)

lemma fold_slot_keeps:
  "slot_ok decode fs field at ix pos \<Longrightarrow> slot_ok decode fs field at (fold_slot decode fs p field at ix) pos"
  by (erule slot_ok_mono) (rule fold_slot_mono)+

lemma walk_ok:
  assumes "\<forall>p \<in> P. slot_ok decode fs field at ix p" and "a \<le> b" and "walked ix = a"
  shows "let ix' = fold (\<lambda>pos ix. (fold_slot decode fs pos field at ix)\<lparr>walked := pos + 1\<rparr>) [a ..< b] ix in
    (\<forall>p \<in> P \<union> {a ..< b}. slot_ok decode fs field at ix' p) \<and> walked ix' = b \<and> overwrites_seen ix' = overwrites_seen ix"
  using assms(2)
proof (induction b)
  case (Suc b)
  show ?case
  proof (cases "a = Suc b")
    case True
    with assms show ?thesis by simp
  next
    case False
    with Suc.prems have "a \<le> b" by simp
    with Suc.IH fold_slot_ok[of decode fs field at b] show ?thesis
      by (auto simp: Let_def less_Suc_eq intro: fold_slot_keeps)
  qed
qed (use assms in simp)

lemma replay_ok:
  assumes "\<forall>p \<in> P. slot_ok decode fs field at ix p"
  shows "let ix' = fold (\<lambda>pos ix. fold_slot decode fs pos field at (ix\<lparr>overwrites_seen := overwrites_seen ix + 1\<rparr>)) ps ix in
    (\<forall>p \<in> P \<union> set ps. slot_ok decode fs field at ix' p) \<and> walked ix' = walked ix
    \<and> overwrites_seen ix' = overwrites_seen ix + length ps"
  using assms
proof (induction ps arbitrary: ix P)
  case (Cons q ps)
  let ?ix = "fold_slot decode fs q field at (ix\<lparr>overwrites_seen := overwrites_seen ix + 1\<rparr>)"
  have "\<forall>p \<in> insert q P. slot_ok decode fs field at ?ix p"
    using Cons.prems fold_slot_ok fold_slot_keeps[of decode fs field at "ix\<lparr>overwrites_seen := overwrites_seen ix + 1\<rparr>"]
    by auto
  from Cons.IH[OF this] show ?case by (auto simp: Let_def)
qed simp

lemma catch_up_ok:
  assumes "index_ok decode fs st field ix"
  shows "let ix' = catch_up decode fs field (length (writes st)) (overwritten st) (bytes_at st) ix in
    walked ix' = length (writes st) \<and> overwrites_seen ix' = length (overwritten st)
    \<and> (\<forall>p < length (writes st). slot_ok decode fs field (bytes_at st) ix' p)"
proof -
  let ?P = "{p. p < walked ix \<and> p \<notin> set (drop (overwrites_seen ix) (overwritten st))}"
  have start: "\<forall>p \<in> ?P. slot_ok decode fs field (bytes_at st) ix p" and le: "walked ix \<le> length (writes st)"
      "overwrites_seen ix \<le> length (overwritten st)"
    using assms by (auto simp: index_ok_def)
  let ?ix1 = "fold (\<lambda>pos ix. (fold_slot decode fs pos field (bytes_at st) ix)\<lparr>walked := pos + 1\<rparr>) [walked ix ..< length (writes st)] ix"
  note w = walk_ok[OF start le(1) refl, unfolded Let_def]
  have w': "walked ?ix1 = length (writes st)" "overwrites_seen ?ix1 = overwrites_seen ix" using w by blast+
  note r = replay_ok[OF conjunct1[OF w], where ps = "drop (overwrites_seen ix) (overwritten st)", unfolded Let_def w']
  have "p \<in> ?P \<union> {walked ix ..< length (writes st)} \<union> set (drop (overwrites_seen ix) (overwritten st))"
    if "p < length (writes st)" for p using that by auto
  note dom = this
  show ?thesis unfolding Let_def catch_up_def
  proof (intro conjI allI impI)
    fix p assume "p < length (writes st)"
    from bspec[OF conjunct1[OF r] dom[OF this]]
    show "slot_ok decode fs field (bytes_at st) (fold (\<lambda>pos ix. fold_slot decode fs pos field (bytes_at st)
        (ix\<lparr>overwrites_seen := overwrites_seen ix + 1\<rparr>)) (drop (overwrites_seen ix) (overwritten st)) ?ix1) p" .
  qed (use r le(2) in simp_all)
qed

section \<open>Every operation keeps the invariant\<close>

lemma slot_ok_cong: "at pos = at' pos \<Longrightarrow> slot_ok decode fs field at ix pos = slot_ok decode fs field at' ix pos"
  by (simp add: slot_ok_def)

lemma staging_inv_new: "staging_inv decode fs (staging_new b)"
  by (simp add: staging_inv_def staging_new_def)

lemma staging_inv_frame:
  assumes "staging_inv decode fs st" and "hm_ok (writes st')" "probe_index st' = probe_index st" "probe_built st' = probe_built st"
    and "length (writes st) \<le> length (writes st')" and "overwritten st' = overwritten st @ ov"
    and "\<And>pos. \<lbrakk>probe_built st; pos < length (writes st); pos \<notin> set ov\<rbrakk> \<Longrightarrow> bytes_at st' pos = bytes_at st pos"
  shows "staging_inv decode fs st'"
proof -
  have "index_ok decode fs st' field ix" if ix: "map_of (probe_index st) field = Some ix" for field ix
  proof -
    have st: "probe_built st" "index_ok decode fs st field ix" using assms(1) ix by (auto simp: staging_inv_def)
    then have "slot_ok decode fs field (bytes_at st') ix pos"
      if "pos < walked ix" "pos \<notin> set (drop (overwrites_seen ix) (overwritten st))" "pos \<notin> set ov" for pos
      using that assms(7)[of pos] by (subst slot_ok_cong[of _ pos "bytes_at st"]) (auto simp: index_ok_def)
    with st(2) assms(5,6) show ?thesis by (auto simp: index_ok_def)
  qed
  moreover have "probe_built st" if "map_of (probe_index st) field = Some ix" for field ix
    using that assms(1) by (auto simp: staging_inv_def)
  ultimately show ?thesis using assms(2,3,4) by (simp add: staging_inv_def)
qed

lemma stage_writes: "writes (snd (stage k op st)) = hm_put k op (writes st)"
  by (simp add: stage_def hm_put_def case_prod_beta)

lemma stage_inv:
  assumes inv: "staging_inv decode fs st"
  shows "staging_inv decode fs (snd (stage k op st))"
proof (cases "position k (writes st)")
  case None
  then show ?thesis
    using inv
    by (intro staging_inv_frame[OF inv, of _ "[]"])
      (auto simp: stage_writes staging_inv_def, auto simp: stage_def insert_full_def hm_put_def bytes_at_def nth_append)
next
  case (Some i)
  have "staging_inv decode fs (st\<lparr>writes := (writes st)[i := (k, op)], overwritten := overwritten st @ (if probe_built st then [i] else [])\<rparr>)"
  proof (rule staging_inv_frame[OF inv])
    show "hm_ok (writes (st\<lparr>writes := (writes st)[i := (k, op)], overwritten := overwritten st @ (if probe_built st then [i] else [])\<rparr>))"
      using inv Some by (simp add: staging_inv_def hm_ok_def map_fst_update_at)
  qed (auto simp: bytes_at_def split: if_splits)
  with Some show ?thesis by (simp add: stage_def insert_full_def if_distrib cong: if_cong)
qed

lemma staging_inv_last_set [simp]: "staging_inv decode fs (st\<lparr>last_set := xs\<rparr>) = staging_inv decode fs st"
proof -
  have "bytes_at (st\<lparr>last_set := xs\<rparr>) = bytes_at st" by (auto simp: bytes_at_def fun_eq_iff)
  then show ?thesis by (simp add: staging_inv_def index_ok_def)
qed

lemma stage_set_inv: "staging_inv decode fs st \<Longrightarrow> staging_inv decode fs (stage_set k v st)"
  using stage_inv[of decode fs st k "StagedSet v False"] by (simp add: stage_set_def case_prod_beta)

lemma fold_stage_set_inv: "staging_inv decode fs st \<Longrightarrow> staging_inv decode fs (fold (\<lambda>(k, v). stage_set k v) items st)"
  by (induction items arbitrary: st) (auto simp: stage_set_inv)

lemma rows_mark_slot: "rows (mark_slot i w) = rows w"
proof (cases "i < length w")
  case True
  then have "rows w ! i = (fst (w ! i), row_of (snd (w ! i)))" by (simp add: rows_def map_prod_def split: prod.split)
  with True show ?thesis
    by (auto simp: mark_slot_def rows_def map_update list_update_same_conv split: prod.split staged_op.split)
qed (simp add: mark_slot_def)

lemma rows_marks: "rows (fold mark_slot is w) = rows w"
  by (induction "is" arbitrary: w) (simp_all add: rows_mark_slot)

lemma same_rows:
  assumes "rows w' = rows w"
  shows "hm_ok w' = hm_ok w" "length w' = length w"
  using assms by (metis hm_ok_def rows_keys, metis length_rows)

lemma mark_inv:
  assumes "staging_inv decode fs st"
  shows "staging_inv decode fs (mark_referenced_ids_captured st)"
proof -
  note r = same_rows[OF rows_marks[of "last_set st" "writes st"]]
  show ?thesis
    using assms
    by (intro staging_inv_frame[OF assms, of _ "[]"])
      (simp_all add: mark_referenced_ids_captured_def r bytes_at_rows rows_marks, simp add: staging_inv_def)
qed

lemma rewrite_loop_keys: "map fst (snd (rewrite_loop f w)) = map fst w"
  by (induction f w rule: rewrite_loop.induct) (auto simp: case_prod_beta Let_def split: sum.split)

lemma rewrite_inv: "staging_inv decode fs st \<Longrightarrow> staging_inv decode fs (snd (rewrite_set_bytes f st))"
  by (simp add: staging_inv_def rewrite_set_bytes_def case_prod_beta Let_def hm_ok_def rewrite_loop_keys)

lemma index_ok_lookup:
  assumes "staging_inv decode fs st"
  shows "index_ok decode fs st field (case map_of (probe_index st) field of Some ix \<Rightarrow> ix | None \<Rightarrow> field_index_new)"
proof (cases "map_of (probe_index st) field")
  case None
  then show ?thesis by (simp add: index_ok_def field_index_new_def)
next
  case (Some ix)
  with assms show ?thesis by (auto simp: staging_inv_def)
qed

lemma index_ok_frame: "index_ok decode fs (st\<lparr>probe_built := b, probe_index := m\<rparr>) field ix = index_ok decode fs st field ix"
proof -
  have "bytes_at (st\<lparr>probe_built := b, probe_index := m\<rparr>) = bytes_at st" by (auto simp: bytes_at_def fun_eq_iff)
  then show ?thesis by (simp add: index_ok_def)
qed

lemma probe_inv:
  assumes "staging_inv decode fs st"
  shows "staging_inv decode fs (snd (probe_field decode fs field keys st))"
proof (cases "keys = []")
  case False
  let ?ix = "catch_up decode fs field (length (writes st)) (overwritten st) (bytes_at st)
      (case map_of (probe_index st) field of Some ix \<Rightarrow> ix | None \<Rightarrow> field_index_new)"
  have "index_ok decode fs st field ?ix"
    using catch_up_ok[OF index_ok_lookup[OF assms], unfolded Let_def] by (simp add: index_ok_def)
  with assms False show ?thesis by (simp add: probe_field_def staging_inv_def index_ok_frame Let_def)
qed (simp add: probe_field_def assms)

lemma fold_stage_set_base: "base (fold (\<lambda>(k, v). stage_set k v) items st) = base st"
  by (induction items arbitrary: st) (auto simp: stage_set_def stage_def case_prod_beta)

inductive staging_step :: "(bytes \<Rightarrow> inner_value option) \<Rightarrow> (scalar_ref \<Rightarrow> 'p list)
    \<Rightarrow> ('s, 'p) staging_store \<Rightarrow> ('s, 'p) staging_store \<Rightarrow> bool" for decode fs where
  set_one: "staging_step decode fs st (staging_set k v st)"
| set_all: "staging_step decode fs st (staging_set_many items st)"
| remove_one: "staging_step decode fs st (staging_remove k st)"
| mark_last: "staging_step decode fs st (mark_referenced_ids_captured st)"
| rewrite: "staging_step decode fs st (snd (rewrite_set_bytes f st))"
| probe: "staging_step decode fs st (snd (probe_field decode fs field keys st))"

lemma staging_step_inv: "staging_step decode fs st st' \<Longrightarrow> staging_inv decode fs st \<Longrightarrow> staging_inv decode fs st' \<and> base st' = base st"
proof (induction rule: staging_step.induct)
  case (set_all st items)
  then show ?case by (simp add: staging_set_many_def fold_stage_set_inv fold_stage_set_base)
next
  case (set_one st k v)
  then show ?case by (simp add: staging_set_def stage_set_inv) (simp add: stage_set_def stage_def case_prod_beta)
next
  case (remove_one st k)
  then show ?case by (simp add: staging_remove_def stage_inv) (simp add: stage_def case_prod_beta)
next
  case (mark_last st)
  then show ?case by (simp add: mark_inv) (simp add: mark_referenced_ids_captured_def)
next
  case (rewrite st f)
  then show ?case by (simp add: rewrite_inv) (simp add: rewrite_set_bytes_def case_prod_beta Let_def)
next
  case (probe st field keys)
  then show ?case by (simp add: probe_inv) (simp add: probe_field_def Let_def)
qed

lemma staging_reachable_inv:
  "(staging_step decode fs)\<^sup>*\<^sup>* (staging_new b) st \<Longrightarrow> staging_inv decode fs st \<and> base st = b"
proof (induction rule: rtranclp_induct)
  case base
  then show ?case by (simp add: staging_inv_new) (simp add: staging_new_def)
next
  case (step st st')
  then show ?case using staging_step_inv by metis
qed

section \<open>Properties\<close>

context ordered_store
begin

lemma drain_publishes:
  assumes "inv (base st)" and "hm_ok (writes st)"
  obtains s' where "transact (ds_set D) (ds_remove D) (drain st) (base st) = (Inr (), s')" "inv s'"
    "\<And>k. ds_get D s' k = staging_get D st k"
proof -
  obtain s' where s': "transact (ds_set D) (ds_remove D) (drain st) (base st) = (Inr (), s')" "inv s'"
      "\<alpha> s' = fold apply_op (drain st) (\<alpha> (base st))"
    by (rule transact_eq[OF assms(1)])
  have "ds_get D s' k = staging_get D st k" for k
    using s' assms
    by (simp add: get_spec staging_get_view drain_view view_def split: option.split)
  with s' that show thesis by blast
qed

end

lemma mem_map_filter: "x \<in> set (List.map_filter f xs) \<longleftrightarrow> (\<exists>a \<in> set xs. f a = Some x)"
  by (force simp: List.map_filter_def)

lemma staged_kind_set: "staged_op_at st k = Some (KindSet row) \<longleftrightarrow> map_of (rows (writes st)) k = Some (Some row)"
  by (auto simp: staged_op_at_rows split: option.splits)

lemma set_row_slots:
  assumes "hm_ok (writes st)"
  shows "(\<exists>i < length (writes st). set_row (writes st ! i) = Some (k, row)) \<longleftrightarrow> staged_op_at st k = Some (KindSet row)"
proof -
  have d: "distinct (map fst (rows (writes st)))" using assms by (simp add: hm_ok_def rows_keys)
  have "set_row e = Some (k, row) \<longleftrightarrow> map_prod id row_of e = (k, Some row)" for e
    by (cases e; cases "snd e") (auto simp: set_row_def)
  then have "(\<exists>i < length (writes st). set_row (writes st ! i) = Some (k, row)) \<longleftrightarrow> (\<exists>e \<in> set (writes st). map_prod id row_of e = (k, Some row))"
    by (metis in_set_conv_nth)
  also have "\<dots> \<longleftrightarrow> (k, Some row) \<in> set (rows (writes st))" by (force simp: rows_def)
  finally show ?thesis using d by (simp add: staged_kind_set)
qed

lemma set_candidates: "set (candidates keys ix) = set (undecodable ix) \<union> (\<Union>key \<in> set keys. hits ix key)"
proof -
  have ins: "set (fold List.insert ps out) = set ps \<union> set out" for ps out :: "nat list"
    by (induction ps arbitrary: out) auto
  have "set (fold (\<lambda>key out. case map_of (postings ix) key of Some ps \<Rightarrow> fold List.insert ps out | None \<Rightarrow> out) keys out)
      = set out \<union> (\<Union>key \<in> set keys. hits ix key)" for out
    by (induction keys arbitrary: out) (auto simp: ins hits_def split: option.split)
  then show ?thesis by (simp add: candidates_def)
qed

lemma slot_ok_candidate:
  assumes "slot_ok decode fs field (bytes_at st) ix i" and "set_row (writes st ! i) = Some (k, row)" "i < length (writes st)"
    and "decode row = None \<or> (\<exists>v s. decode row = Some v \<and> scalar_at v [field] = Some s \<and> set keys \<inter> set (fs s) \<noteq> {})"
  shows "i \<in> set (candidates keys ix)"
proof -
  have "bytes_at st i = Some row" using assms(2,3) by (auto simp: bytes_at_def set_row_def split: staged_op.splits)
  with assms(1,4) show ?thesis by (auto simp: slot_ok_def set_candidates split: option.splits)
qed


definition sample_staging :: "(store, u64) staging_store" where
  "sample_staging = staging_remove [2] (staging_set [1] [7] (staging_new [([1], [5]), ([2], [6])]))"

lemma sample_staging_run: "(staging_step decode fs)\<^sup>*\<^sup>* (staging_new [([1], [5]), ([2], [6])]) sample_staging"
  unfolding sample_staging_def
  by (meson r_into_rtranclp rtranclp.rtrancl_into_rtrancl staging_step.set_one staging_step.remove_one)


text \<open>C21: Probing a field of the staged rows returns only rows that are staged, with their current
  bytes, and misses none whose field has a key in common with the probe, whatever writes,
  overwrites, removals, rewrites and earlier probes of any field came before.\<close>

theorem probe_field_complete:
  assumes "(staging_step decode fs)\<^sup>*\<^sup>* (staging_new b) st"
  shows "(\<forall>(k, row) \<in> set (fst (probe_field decode fs field keys st)). staged_op_at st k = Some (KindSet row))
    \<and> (\<forall>k row. staged_op_at st k = Some (KindSet row)
        \<and> (keys = [] \<or> decode row = None
           \<or> (\<exists>v s. decode row = Some v \<and> scalar_at v [field] = Some s \<and> set keys \<inter> set (fs s) \<noteq> {}))
        \<longrightarrow> (k, row) \<in> set (fst (probe_field decode fs field keys st)))"
proof -
  have inv: "staging_inv decode fs st" using staging_reachable_inv[OF assms] by simp
  then have ok: "hm_ok (writes st)" by (simp add: staging_inv_def)
  note slots = set_row_slots[OF ok, symmetric]
  let ?ix = "catch_up decode fs field (length (writes st)) (overwritten st) (bytes_at st)
      (case map_of (probe_index st) field of Some ix \<Rightarrow> ix | None \<Rightarrow> field_index_new)"
  have caught: "slot_ok decode fs field (bytes_at st) ?ix i" if "i < length (writes st)" for i
    using catch_up_ok[OF index_ok_lookup[OF inv], unfolded Let_def] that by blast
  have res: "(k, row) \<in> set (fst (probe_field decode fs field keys st)) \<longleftrightarrow>
      (\<exists>i < length (writes st). set_row (writes st ! i) = Some (k, row) \<and> (keys = [] \<or> i \<in> set (candidates keys ?ix)))" for k row
  proof (cases "keys = []")
    case True
    then show ?thesis by (simp add: probe_field_def mem_map_filter) (metis in_set_conv_nth)
  next
    case False
    then show ?thesis by (auto simp: probe_field_def Let_def mem_map_filter split: if_splits)
  qed
  show ?thesis
  proof (intro conjI allI impI ballI, goal_cases)
    case (1 e)
    moreover obtain k row where "e = (k, row)" by (cases e)
    ultimately show ?case using res[of k row] slots[of k row] by auto
  next
    case (2 k row)
    then obtain i where i: "i < length (writes st)" "set_row (writes st ! i) = Some (k, row)" using slots by blast
    with 2 caught[OF i(1)] show ?case unfolding res by (blast intro: slot_ok_candidate)
  qed
qed

text \<open>A buffer whose row under \<open>[1]\<close> was indexed for field \<open>0\<close> with the value 4 and then overwritten with 5.\<close>

definition sample_decode :: "bytes \<Rightarrow> inner_value option" where
  "sample_decode row = (case row of [n] \<Rightarrow> Some (VMap [(0, VInt (ucast n))]) | _ \<Rightarrow> None)"

definition sample_keys :: "scalar_ref \<Rightarrow> u64 list" where
  "sample_keys sr = (case sr of Int64 n \<Rightarrow> [n] | _ \<Rightarrow> [])"

definition sample_probed :: "(store, u64) staging_store" where
  "sample_probed = staging_set [1] [5] (snd (probe_field sample_decode sample_keys 0 [4] (staging_set [1] [4] (staging_new []))))"

lemma sample_probed_run: "(staging_step sample_decode sample_keys)\<^sup>*\<^sup>* (staging_new []) sample_probed"
  unfolding sample_probed_def
  by (meson r_into_rtranclp rtranclp.rtrancl_into_rtrancl staging_step.set_one staging_step.probe)

lemma sample_probed_row: "staged_op_at sample_probed [1] = Some (KindSet [5])"
  by (simp add: sample_probed_def staged_op_at_def staging_set_def stage_set_def stage_def insert_full_def
      staging_new_def probe_field_def Let_def)

theorem probe_field_complete_witness:
  "([1], [5]) \<in> set (fst (probe_field sample_decode sample_keys 0 [5] sample_probed))"
proof -
  have "sample_decode [5] = Some (VMap [(0, VInt 5)])" "scalar_at (VMap [(0, VInt 5)]) [0] = Some (Int64 5)"
    by (simp_all add: sample_decode_def scalar_at_def descend_path_def)
  then show ?thesis
    using probe_field_complete[OF sample_probed_run, of 0 "[5]"] sample_probed_row by (fastforce simp: sample_keys_def)
qed

lemma staging_bytes_eq:
  "staging_bytes st = min USIZE_MAX (\<Sum>(k, r) \<leftarrow> rows (writes st). length k + (case r of Some row \<Rightarrow> length row | None \<Rightarrow> 0))"
proof -
  have "staging_bytes st = min USIZE_MAX (0 + (\<Sum>(k, op) \<leftarrow> writes st. length k + (case row_of op of Some row \<Rightarrow> length row | None \<Rightarrow> 0)))"
    unfolding staging_bytes_def
    by (subst sat_fold_eq[of _ _ "\<lambda>(k, op). length k + (case row_of op of Some row \<Rightarrow> length row | None \<Rightarrow> 0)" 0, symmetric])
      (auto simp: add.assoc split: staged_op.split)
  then show ?thesis by (simp add: rows_def o_def map_prod_def case_prod_unfold)
qed

end
