(* ===== verification/TxContext.thy ===== *)
theory TxContext
  imports Predicates StagingStore SortedIndex
begin

text \<open>
  The state of one open transaction (\<^verbatim>\<open>shamir-tx/src/tx/tx_context.rs\<close>): staged writes
  per table, planned index operations, the sets that are validated at commit.
  Fields that only carry metrics, the acting user, vector tickets or the
  interner overlay's id counter are left out.  A \<^verbatim>\<open>VersionProvider\<close> is a function;
  an embedding is the list of the 32-bit patterns of its components.
\<close>

section \<open>State\<close>

datatype isolation_level = Snapshot | Serializable | Pessimistic

record ('s, 'p) tx_context =
  tx_id :: u64
  snapshot_version :: u64
  isolation :: isolation_level
  write_set :: "(u64 \<times> ('s, 'p) staging_store) list"
  index_write_set :: "(u64 \<times> index_write_op) list"
  index2_stage_gens :: "(u64 \<times> u64) list"
  sorted_stage_gens :: "(u64 \<times> u64) list"
  base_index_stage_gens :: "(u64 \<times> u64) list"
  staged_vectors :: "(u64 \<times> (record_id \<times> u32 list) list) list"
  staged_vector_deletes :: "(u64 \<times> record_id list) list"
  interner_overlay :: "(string \<times> u64) list"
  counter_deltas :: "(u64 \<times> i64) list"
  read_set :: "((u64 \<times> bytes) \<times> u64) list"
  cas_set :: "((u64 \<times> bytes) \<times> u64) list"
  table_tokens :: "(u64 \<times> string) list"
  version_provider :: "(u64 \<Rightarrow> bytes \<Rightarrow> u64 option) option"
  predicates :: predicate_set
  footprint_tokens :: "u64 list"
  ri_barrier_tokens :: "u64 list"
  wounded :: bool
  locked_keys :: "((u64 \<times> record_key) \<times> unit) list"

definition tx_new :: "u64 \<Rightarrow> u64 \<Rightarrow> isolation_level \<Rightarrow> ('s, 'p) tx_context" where
  "tx_new tid snap level = \<lparr>tx_id = tid, snapshot_version = snap, isolation = level, write_set = [], index_write_set = [],
     index2_stage_gens = [], sorted_stage_gens = [], base_index_stage_gens = [], staged_vectors = [],
     staged_vector_deletes = [], interner_overlay = [], counter_deltas = [], read_set = [], cas_set = [],
     table_tokens = [], version_provider = None, predicates = predicate_set_new, footprint_tokens = [],
     ri_barrier_tokens = [], wounded = False, locked_keys = []\<rparr>"

section \<open>Recording\<close>

definition bump_counter :: "u64 \<Rightarrow> i64 \<Rightarrow> ('s, 'p) tx_context \<Rightarrow> ('s, 'p) tx_context" where
  "bump_counter table delta tx = tx\<lparr>counter_deltas := hm_entry table 0 (\<lambda>d. d + delta) (counter_deltas tx)\<rparr>"

definition note_index2_stage_gen :: "u64 \<Rightarrow> u64 \<Rightarrow> ('s, 'p) tx_context \<Rightarrow> ('s, 'p) tx_context" where
  "note_index2_stage_gen token gen tx = tx\<lparr>index2_stage_gens := or_insert token gen (index2_stage_gens tx)\<rparr>"

definition note_sorted_stage_gen :: "u64 \<Rightarrow> u64 \<Rightarrow> ('s, 'p) tx_context \<Rightarrow> ('s, 'p) tx_context" where
  "note_sorted_stage_gen token gen tx = tx\<lparr>sorted_stage_gens := or_insert token gen (sorted_stage_gens tx)\<rparr>"

definition note_base_index_stage_gen :: "u64 \<Rightarrow> u64 \<Rightarrow> ('s, 'p) tx_context \<Rightarrow> ('s, 'p) tx_context" where
  "note_base_index_stage_gen token gen tx = tx\<lparr>base_index_stage_gens := or_insert token gen (base_index_stage_gens tx)\<rparr>"

definition record_locked_key :: "u64 \<Rightarrow> record_key \<Rightarrow> ('s, 'p) tx_context \<Rightarrow> ('s, 'p) tx_context" where
  "record_locked_key token key tx = tx\<lparr>locked_keys := or_insert (token, key) () (locked_keys tx)\<rparr>"

definition ensure_not_wounded :: "('s, 'p) tx_context \<Rightarrow> u64 + unit" where
  "ensure_not_wounded tx = (if wounded tx then Inl (tx_id tx) else Inr ())"

definition record_read_shared :: "u64 \<Rightarrow> bytes \<Rightarrow> u64 \<Rightarrow> ('s, 'p) tx_context \<Rightarrow> ('s, 'p) tx_context" where
  "record_read_shared table key version tx =
    (if isolation tx = Serializable then tx\<lparr>read_set := or_insert (table, key) version (read_set tx)\<rparr> else tx)"

definition record_cas :: "u64 \<Rightarrow> bytes \<Rightarrow> u64 \<Rightarrow> ('s, 'p) tx_context \<Rightarrow> ('s, 'p) tx_context" where
  "record_cas table key expected tx = tx\<lparr>cas_set := hm_put (table, key) expected (cas_set tx)\<rparr>"

definition record_predicate_shared :: "predicate_dep \<Rightarrow> ('s, 'p) tx_context \<Rightarrow> ('s, 'p) tx_context" where
  "record_predicate_shared dep tx =
    (if isolation tx = Serializable then tx\<lparr>predicates := predicate_push dep (predicates tx)\<rparr> else tx)"

definition require_footprint_for :: "u64 \<Rightarrow> ('s, 'p) tx_context \<Rightarrow> ('s, 'p) tx_context" where
  "require_footprint_for token tx = tx\<lparr>footprint_tokens := List.insert token (footprint_tokens tx)\<rparr>"

definition record_ri_barrier :: "u64 \<Rightarrow> ('s, 'p) tx_context \<Rightarrow> ('s, 'p) tx_context" where
  "record_ri_barrier token tx = tx\<lparr>ri_barrier_tokens := List.insert token (ri_barrier_tokens tx)\<rparr>"

definition ri_barrier_tokens_is_empty :: "('s, 'p) tx_context \<Rightarrow> bool" where
  "ri_barrier_tokens_is_empty tx = (ri_barrier_tokens tx = [])"

definition append_ri_barrier_deps :: "('s, 'p) tx_context \<Rightarrow> predicate_dep list \<Rightarrow> predicate_dep list" where
  "append_ri_barrier_deps tx deps = deps @ map TableScan (ri_barrier_tokens tx)"

definition stage_vector :: "u64 \<Rightarrow> record_id \<Rightarrow> u32 list \<Rightarrow> ('s, 'p) tx_context \<Rightarrow> ('s, 'p) tx_context" where
  "stage_vector token rid vec tx = tx\<lparr>staged_vectors := hm_entry token [] (\<lambda>vs. vs @ [(rid, vec)]) (staged_vectors tx)\<rparr>"

definition stage_vector_delete :: "u64 \<Rightarrow> record_id \<Rightarrow> ('s, 'p) tx_context \<Rightarrow> ('s, 'p) tx_context" where
  "stage_vector_delete token rid tx =
    tx\<lparr>staged_vector_deletes := hm_entry token [] (\<lambda>vs. vs @ [rid]) (staged_vector_deletes tx)\<rparr>"

definition ensure_table_staging :: "u64 \<Rightarrow> string \<Rightarrow> 's \<Rightarrow> ('s, 'p) tx_context \<Rightarrow> ('s, 'p) tx_context" where
  "ensure_table_staging token name b tx =
    tx\<lparr>table_tokens := or_insert token name (table_tokens tx), write_set := or_insert token (staging_new b) (write_set tx)\<rparr>"

section \<open>Reading and validating\<close>

fun validate_reads :: "(u64 \<Rightarrow> bytes \<Rightarrow> u64 option) \<Rightarrow> ((u64 \<times> bytes) \<times> u64) list \<Rightarrow> (u64 \<times> bytes) + unit" where
  "validate_reads provider [] = Inr ()"
| "validate_reads provider (((table, key), version_seen) # rest) =
    (case provider table key of
       None \<Rightarrow> Inl (table, key)
     | Some current \<Rightarrow> if current > version_seen then Inl (table, key) else validate_reads provider rest)"

definition validate_read_set :: "(u64 \<Rightarrow> bytes \<Rightarrow> u64 option) \<Rightarrow> ('s, 'p) tx_context \<Rightarrow> (u64 \<times> bytes) + unit" where
  "validate_read_set provider tx = validate_reads provider (read_set tx)"

definition write_set_keys :: "('s, 'p) tx_context \<Rightarrow> (u64 \<times> record_key) list" where
  "write_set_keys tx = concat (map (\<lambda>(token, st). map (Pair token) (staging_keys st)) (write_set tx))"

definition write_set_size :: "('s, 'p) tx_context \<Rightarrow> nat" where
  "write_set_size tx = sum_list (map (\<lambda>(_, st). length (writes st)) (write_set tx))"

definition conflicts_with :: "('s, 'p) tx_context \<Rightarrow> ('s, 'p) tx_context \<Rightarrow> bool" where
  "conflicts_with tx other =
    (let (smaller, larger) = (if write_set_size tx \<le> write_set_size other then (tx, other) else (other, tx));
         smaller_set = set (write_set_keys smaller)
     in list_ex (\<lambda>k. k \<in> smaller_set) (write_set_keys larger))"

definition tx_is_empty :: "('s, 'p) tx_context \<Rightarrow> bool" where
  "tx_is_empty tx = (write_set tx = [] \<and> index_write_set tx = [] \<and> staged_vectors tx = []
    \<and> staged_vector_deletes tx = [] \<and> interner_overlay tx = [] \<and> counter_deltas tx = [])"

fun index_op_bytes :: "nat \<Rightarrow> index_write_op \<Rightarrow> nat" where
  "index_op_bytes acc (SetPosting key value _) = sat_add (sat_add acc (length key)) (length value)"
| "index_op_bytes acc (RemovePosting key _ _) = sat_add acc (length key)"
| "index_op_bytes acc (BumpFtsStats _ _ _) = acc"

definition tx_staged_bytes :: "('s, 'p) tx_context \<Rightarrow> nat" where
  "tx_staged_bytes tx =
    (let acc = 0;
         acc = fold (\<lambda>(_, staging) acc. sat_add acc (staging_bytes staging)) (write_set tx) acc;
         acc = fold (\<lambda>(_, op) acc. index_op_bytes acc op) (index_write_set tx) acc;
         acc = fold (\<lambda>(_, vecs) acc. fold (\<lambda>(_, embedding) acc.
             sat_add (sat_add acc 16) (sat_mul (length embedding) 4)) vecs acc) (staged_vectors tx) acc
     in fold (\<lambda>(_, dels) acc. sat_add acc (sat_mul (length dels) 16)) (staged_vector_deletes tx) acc)"

text \<open>\<^verbatim>\<open>apply_id_remap\<close>: \<^verbatim>\<open>remap_bytes\<close> is \<^verbatim>\<open>remap_inner_value_bytes\<close> for a non-empty remap, which the code
  rewrites every staged table with, up to the first failure.\<close>

fun remap_loop :: "(bytes \<Rightarrow> string + bytes) \<Rightarrow> (u64 \<times> ('s, 'p) staging_store) list
    \<Rightarrow> (string + unit) \<times> (u64 \<times> ('s, 'p) staging_store) list" where
  "remap_loop f [] = (Inr (), [])"
| "remap_loop f ((token, st) # w) =
    (case rewrite_set_bytes f st of
       (Inl e, st') \<Rightarrow> (Inl e, (token, st') # w)
     | (Inr _, st') \<Rightarrow> let (r, w') = remap_loop f w in (r, (token, st') # w'))"

definition apply_id_remap :: "bool \<Rightarrow> (bytes \<Rightarrow> string + bytes) \<Rightarrow> ('s, 'p) tx_context
    \<Rightarrow> (string + unit) \<times> ('s, 'p) tx_context" where
  "apply_id_remap remap_is_empty remap_bytes tx =
    (if remap_is_empty then (Inr (), tx)
     else let (r, w) = remap_loop remap_bytes (write_set tx) in (r, tx\<lparr>write_set := w\<rparr>))"

section \<open>First read wins\<close>

definition record_reads :: "((u64 \<times> bytes) \<times> u64) list \<Rightarrow> ('s, 'p) tx_context \<Rightarrow> ('s, 'p) tx_context" where
  "record_reads rs tx = fold (\<lambda>((table, key), version). record_read_shared table key version) rs tx"

lemma record_reads_set:
  "isolation tx = Serializable \<Longrightarrow> hm_ok (read_set tx) \<Longrightarrow>
    map_of (read_set (record_reads rs tx)) = map_of (read_set tx @ rs) \<and> hm_ok (read_set (record_reads rs tx))"
proof (induction rs arbitrary: tx)
  case (Cons r rs)
  obtain table key version where r: "r = ((table, key), version)" by (metis surj_pair)
  let ?tx = "record_read_shared table key version tx"
  have "isolation ?tx = Serializable" "hm_ok (read_set ?tx)" "record_reads (r # rs) tx = record_reads rs ?tx"
    using Cons.prems by (simp_all add: record_read_shared_def record_reads_def r)
  with Cons.IH[of ?tx] Cons.prems show ?case
    by (auto simp: record_read_shared_def r fun_eq_iff map_add_def split: option.splits)
qed (simp add: record_reads_def)

lemma validate_reads_Inr:
  "validate_reads provider m = Inr () \<longleftrightarrow>
    (\<forall>table key seen. ((table, key), seen) \<in> set m \<longrightarrow> (\<exists>current. provider table key = Some current \<and> current \<le> seen))"
  by (induction provider m rule: validate_reads.induct) (auto split: option.splits simp: not_less, metis leD)

lemma validate_reads_Inl:
  "validate_reads provider m = Inl (table, key) \<Longrightarrow>
    \<exists>seen. ((table, key), seen) \<in> set m \<and> (\<forall>current. provider table key = Some current \<longrightarrow> seen < current)"
  by (induction provider m rule: validate_reads.induct) (auto split: option.splits if_splits)

text \<open>C25: A serializable transaction's reads validate exactly when every key it read is still known and
  at most at the version its first read of the key saw; a reported conflict names a key it read
  for which that fails.\<close>

theorem first_read_validation:
  fixes tx :: "('s, 'p) tx_context"
  assumes "tx = record_reads rs (tx_new tid snap Serializable)"
  shows "(validate_read_set provider tx = Inr () \<longleftrightarrow>
      (\<forall>table key seen. map_of rs (table, key) = Some seen
        \<longrightarrow> (\<exists>current. provider table key = Some current \<and> current \<le> seen)))
    \<and> (\<forall>table key. validate_read_set provider tx = Inl (table, key) \<longrightarrow>
        (\<exists>seen. map_of rs (table, key) = Some seen \<and> (\<forall>current. provider table key = Some current \<longrightarrow> seen < current)))"
proof -
  have set: "map_of (read_set tx) = map_of rs" "hm_ok (read_set tx)"
    using record_reads_set[of "tx_new tid snap Serializable :: ('s, 'p) tx_context" rs] by (simp_all add: assms tx_new_def)
  have mem: "(k, seen) \<in> set (read_set tx) \<longleftrightarrow> map_of rs k = Some seen" for k seen
    using hm_mem_iff[OF set(2)] set(1) by metis
  show ?thesis
    using validate_reads_Inl[of provider "read_set tx"] unfolding validate_read_set_def validate_reads_Inr mem by blast
qed

theorem first_read_validation_witness:
  "validate_read_set (\<lambda>_ _. Some 6)
     (record_reads [((1, [7]), 5), ((1, [7]), 6)] (tx_new 1 5 Serializable) :: (store, u64) tx_context) \<noteq> Inr ()"
proof -
  let ?tx = "record_reads [((1, [7]), 5), ((1, [7]), 6)] (tx_new 1 5 Serializable) :: (store, u64) tx_context"
  have "map_of [((1, [7]), 5), ((1, [7]), 6)] (1 :: u64, [7 :: u8]) = Some (5 :: u64)" "\<not> (6 :: u64) \<le> 5" by simp_all
  then show ?thesis using first_read_validation[of ?tx, OF refl, of "\<lambda>_ _. Some 6"] by blast
qed

section \<open>Write-write conflicts and sizes\<close>

lemma set_write_set_keys:
  "set (write_set_keys tx) = {(token, k). \<exists>st. (token, st) \<in> set (write_set tx) \<and> k \<in> fst ` set (writes st)}"
  by (force simp: write_set_keys_def staging_keys_def)

text \<open>Two transactions conflict exactly when they stage a write of the same key of the same table,
  whichever of them the test iterates over.\<close>

theorem conflicts_with_exact:
  "conflicts_with tx other \<longleftrightarrow>
    (\<exists>token k st st'. (token, st) \<in> set (write_set tx) \<and> (token, st') \<in> set (write_set other)
       \<and> map_of (writes st) k \<noteq> None \<and> map_of (writes st') k \<noteq> None)"
proof -
  have "conflicts_with tx other \<longleftrightarrow> set (write_set_keys tx) \<inter> set (write_set_keys other) \<noteq> {}"
    by (auto simp: conflicts_with_def Let_def list_ex_iff)
  then show ?thesis by (simp only: set_write_set_keys map_of_eq_None_iff not_not) blast
qed

fun op_weight :: "index_write_op \<Rightarrow> nat" where
  "op_weight (SetPosting key value _) = length key + length value"
| "op_weight (RemovePosting key _ _) = length key"
| "op_weight (BumpFtsStats _ _ _) = 0"

lemma index_op_bytes_eq: "index_op_bytes (min USIZE_MAX a) op = min USIZE_MAX (a + op_weight op)"
  by (cases op) (simp_all add: add.assoc)

lemma vector_bytes_eq:
  "fold (\<lambda>(_, embedding) acc. sat_add (sat_add acc 16) (sat_mul (length embedding) 4)) vecs (min USIZE_MAX a)
    = min USIZE_MAX (a + (\<Sum>(_, e) \<leftarrow> vecs. 16 + length e * 4))"
  by (rule sat_fold_eq) (auto simp: sat_mul_def add.assoc)

text \<open>C27: The staged size of a transaction is the sum of the bytes of all its staged keys, rows, postings
  and vectors, capped at the largest \<^verbatim>\<open>usize\<close>: the additions saturate and never wrap.\<close>

theorem tx_staged_bytes_exact:
  "tx_staged_bytes tx = min (2 ^ 64 - 1)
    ((\<Sum>(_, st) \<leftarrow> write_set tx. \<Sum>(k, r) \<leftarrow> rows (writes st). length k + (case r of Some row \<Rightarrow> length row | None \<Rightarrow> 0))
     + (\<Sum>(_, op) \<leftarrow> index_write_set tx. op_weight op)
     + (\<Sum>(_, vecs) \<leftarrow> staged_vectors tx. \<Sum>(_, e) \<leftarrow> vecs. 16 + length e * 4)
     + (\<Sum>(_, dels) \<leftarrow> staged_vector_deletes tx. length dels * 16))"
proof -
  let ?w = "\<lambda>(_, st). \<Sum>(k, r) \<leftarrow> rows (writes st). length k + (case r of Some row \<Rightarrow> length row | None \<Rightarrow> 0)"
  have zero: "(0 :: nat) = min USIZE_MAX 0" by simp
  have a: "fold (\<lambda>(_, staging) acc. sat_add acc (staging_bytes staging)) (write_set tx) (min USIZE_MAX 0)
      = min USIZE_MAX (0 + sum_list (map ?w (write_set tx)))"
    by (rule sat_fold_eq) (auto simp: staging_bytes_eq)
  have b: "fold (\<lambda>(_, op) acc. index_op_bytes acc op) (index_write_set tx) (min USIZE_MAX n)
      = min USIZE_MAX (n + (\<Sum>(_, op) \<leftarrow> index_write_set tx. op_weight op))" for n
    by (rule sat_fold_eq) (auto simp: index_op_bytes_eq)
  have c: "fold (\<lambda>(_, vecs) acc. fold (\<lambda>(_, embedding) acc. sat_add (sat_add acc 16) (sat_mul (length embedding) 4)) vecs acc)
      (staged_vectors tx) (min USIZE_MAX n) = min USIZE_MAX (n + (\<Sum>(_, vecs) \<leftarrow> staged_vectors tx. \<Sum>(_, e) \<leftarrow> vecs. 16 + length e * 4))" for n
    by (rule sat_fold_eq) (auto simp: vector_bytes_eq)
  have d: "fold (\<lambda>(_, dels) acc. sat_add acc (sat_mul (length dels) 16)) (staged_vector_deletes tx) (min USIZE_MAX n)
      = min USIZE_MAX (n + (\<Sum>(_, dels) \<leftarrow> staged_vector_deletes tx. length dels * 16))" for n
    by (rule sat_fold_eq) (auto simp: sat_mul_def)
  show ?thesis unfolding tx_staged_bytes_def Let_def by (subst zero, simp only: a b c d) (simp add: USIZE_MAX_def)
qed

end
