(* ===== verification/CommitLog.thy ===== *)
theory CommitLog
  imports TxContext SortedScan
begin

text \<open>
  Serializable validation: the commit-write log of the gate
  (\<^verbatim>\<open>shamir-tx/src/gate/repo_tx_gate/progress.rs\<close>), the footprint a committing transaction
  publishes there, the transactional variants of the sorted-index lookups
  (\<^verbatim>\<open>scan.rs\<close>), and the validation phases of
  \<^verbatim>\<open>shamir-engine/src/tx/preparation/pre_commit/locked.rs\<close>, run under the commit lock.
\<close>

section \<open>Footprints and the commit-write log\<close>

record table_write_footprint =
  touched :: bool
  inserted_index_keys :: "bytes list"

record commit_write_record =
  commit_version :: u64
  per_table :: "(u64 \<times> table_write_footprint) list"

record commit_gate =
  last_committed_version :: u64
  commit_write_log :: "(u64 \<times> commit_write_record) list"

definition footprint_default :: table_write_footprint where
  "footprint_default = \<lparr>touched = False, inserted_index_keys = []\<rparr>"

definition record_commit_writes :: "commit_write_record \<Rightarrow> commit_gate \<Rightarrow> commit_gate" where
  "record_commit_writes rec g =
    (if per_table rec = [] then g
     else g\<lparr>commit_write_log := snd (insert_sync (commit_version rec) rec (commit_write_log g))\<rparr>)"

definition record_conflicts :: "commit_write_record \<Rightarrow> predicate_dep \<Rightarrow> bool" where
  "record_conflicts rec dep =
    (case dep of
       TableScan token \<Rightarrow> (case map_of (per_table rec) token of Some f \<Rightarrow> touched f | None \<Rightarrow> False)
     | IndexRange token index_id lo hi \<Rightarrow>
         (case map_of (per_table rec) token of
            Some f \<Rightarrow> index_range_overlaps_sorted (inserted_index_keys f) index_id lo hi
          | None \<Rightarrow> False))"

definition saturating_inc :: "u64 \<Rightarrow> u64" where
  "saturating_inc v = (if v = - 1 then v else v + 1)"

definition predicate_conflicts :: "commit_gate \<Rightarrow> predicate_dep \<Rightarrow> u64 \<Rightarrow> bool" where
  "predicate_conflicts g dep snapshot =
    (let newest = last_committed_version g in
     if newest \<le> snapshot then False
     else list_ex (\<lambda>(_, rec). record_conflicts rec dep)
       (ti_range (Included (saturating_inc snapshot)) (Included newest) (commit_write_log g)))"

fun first_dep :: "commit_write_record \<Rightarrow> predicate_dep list \<Rightarrow> nat \<Rightarrow> nat option" where
  "first_dep rec [] idx = None"
| "first_dep rec (dep # deps) idx = (if record_conflicts rec dep then Some idx else first_dep rec deps (idx + 1))"

fun batch_loop :: "(u64 \<times> commit_write_record) list \<Rightarrow> predicate_dep list \<Rightarrow> nat option" where
  "batch_loop [] deps = None"
| "batch_loop ((_, rec) # window) deps =
    (case first_dep rec deps 0 of Some idx \<Rightarrow> Some idx | None \<Rightarrow> batch_loop window deps)"

definition predicate_conflicts_batch :: "commit_gate \<Rightarrow> predicate_dep list \<Rightarrow> u64 \<Rightarrow> nat option" where
  "predicate_conflicts_batch g deps snapshot =
    (let newest = last_committed_version g in
     if newest \<le> snapshot then None
     else batch_loop (ti_range (Included (saturating_inc snapshot)) (Included newest) (commit_write_log g)) deps)"

definition prune_commit_log_below :: "u64 \<Rightarrow> commit_gate \<Rightarrow> nat \<times> commit_gate" where
  "prune_commit_log_below floor g =
    (length (ti_range Unbounded (Included floor) (commit_write_log g)),
     g\<lparr>commit_write_log := filter (\<lambda>e. \<not> fst e \<le> floor) (commit_write_log g)\<rparr>)"

definition commit_log_len :: "commit_gate \<Rightarrow> nat" where
  "commit_log_len g = length (ti_range Unbounded Unbounded (commit_write_log g))"

definition touch :: "u64 \<Rightarrow> (u64 \<times> table_write_footprint) list \<Rightarrow> (u64 \<times> table_write_footprint) list" where
  "touch token m = hm_entry token footprint_default (\<lambda>f. f\<lparr>touched := True\<rparr>) m"

definition add_index_op :: "u64 \<times> index_write_op \<Rightarrow> (u64 \<times> table_write_footprint) list
    \<Rightarrow> (u64 \<times> table_write_footprint) list" where
  "add_index_op e m =
    (let m = touch (fst e) m in
     case snd e of
       SetPosting key _ _ \<Rightarrow>
         hm_entry (fst e) footprint_default (\<lambda>f. f\<lparr>inserted_index_keys := inserted_index_keys f @ [key]\<rparr>) m
     | _ \<Rightarrow> m)"

definition build_footprint_from_tx :: "('s, 'p) tx_context \<Rightarrow> u64 \<Rightarrow> commit_write_record" where
  "build_footprint_from_tx tx version =
    (let serializable = (isolation tx = Serializable) in
     if \<not> serializable \<and> footprint_tokens tx = [] then \<lparr>commit_version = version, per_table = []\<rparr>
     else
       let wants_footprint = (\<lambda>token. serializable \<or> token \<in> set (footprint_tokens tx));
           m = fold touch (filter wants_footprint (map fst (write_set tx))) [];
           m = fold touch (filter wants_footprint (map fst (counter_deltas tx))) m;
           m = fold add_index_op (filter (\<lambda>e. wants_footprint (fst e)) (index_write_set tx)) m
       in \<lparr>commit_version = version,
           per_table = map (\<lambda>(token, f). (token, f\<lparr>inserted_index_keys := sort (inserted_index_keys f)\<rparr>)) m\<rparr>)"

section \<open>Lookups inside a transaction\<close>

definition record_range_dep :: "u64 \<Rightarrow> u64 \<Rightarrow> bytes option \<Rightarrow> bytes option \<Rightarrow> ('s, 'p) tx_context option
    \<Rightarrow> ('s, 'p) tx_context option" where
  "record_range_dep token name start_encoded end_encoded tx =
    (case tx of
       Some t \<Rightarrow>
         if isolation t = Serializable then
           (let (lower, upper) = range_bounds (entry_prefix name) start_encoded end_encoded
            in Some (record_predicate_shared (IndexRange token name (Included lower) (Included upper)) t))
         else Some t
     | None \<Rightarrow> None)"

definition lookup_range_tx :: "'d dyn_store \<Rightarrow> 'd sorted_index_manager \<Rightarrow> u64 \<Rightarrow> u64 \<Rightarrow> bytes option \<Rightarrow> bytes option
    \<Rightarrow> ('s, 'p) tx_context option \<Rightarrow> record_id list db_result \<times> ('s, 'p) tx_context option" where
  "lookup_range_tx D m token name start_encoded end_encoded tx =
    (lookup_range D m name start_encoded end_encoded, record_range_dep token name start_encoded end_encoded tx)"

definition lookup_min_tx :: "'d dyn_store \<Rightarrow> 'd sorted_index_manager \<Rightarrow> u64 \<Rightarrow> u64
    \<Rightarrow> ('s, 'p) tx_context option \<Rightarrow> record_id option db_result \<times> ('s, 'p) tx_context option" where
  "lookup_min_tx D m token name tx = (lookup_min D m name, record_range_dep token name None None tx)"

definition lookup_max_tx :: "'d dyn_store \<Rightarrow> 'd sorted_index_manager \<Rightarrow> u64 \<Rightarrow> u64
    \<Rightarrow> ('s, 'p) tx_context option \<Rightarrow> record_id option db_result \<times> ('s, 'p) tx_context option" where
  "lookup_max_tx D m token name tx = (lookup_max D m name, record_range_dep token name None None tx)"

definition lookup_last_k_tx :: "'d dyn_store \<Rightarrow> 'd sorted_index_manager \<Rightarrow> u64 \<Rightarrow> u64 \<Rightarrow> nat
    \<Rightarrow> ('s, 'p) tx_context option \<Rightarrow> record_id list db_result \<times> ('s, 'p) tx_context option" where
  "lookup_last_k_tx D m token name k tx = (lookup_last_k D m name k, record_range_dep token name None None tx)"

definition lookup_first_k_tx :: "'d dyn_store \<Rightarrow> 'd sorted_index_manager \<Rightarrow> u64 \<Rightarrow> u64 \<Rightarrow> nat
    \<Rightarrow> ('s, 'p) tx_context option \<Rightarrow> record_id list db_result \<times> ('s, 'p) tx_context option" where
  "lookup_first_k_tx D m token name k tx = (lookup_first_k D m name k, record_range_dep token name None None tx)"

section \<open>Validation under the commit lock\<close>

datatype tx_error = SsiConflict bytes | PhantomConflict predicate_dep | CasConflict bytes u64 u64

fun first_cas_conflict :: "(u64 \<Rightarrow> bytes \<Rightarrow> u64 option) option \<Rightarrow> ((u64 \<times> bytes) \<times> u64) list \<Rightarrow> (bytes \<times> u64 \<times> u64) option" where
  "first_cas_conflict provider [] = None"
| "first_cas_conflict provider (((table, key), expected) # rest) =
    (case Option.bind provider (\<lambda>p. p table key) of
       None \<Rightarrow> Some (key, expected, 0)
     | Some found \<Rightarrow> if found \<noteq> expected then Some (key, expected, found) else first_cas_conflict provider rest)"

definition phase_reads :: "('s, 'p) tx_context \<Rightarrow> tx_error + unit" where
  "phase_reads tx =
    (if isolation tx = Serializable then
       (case validate_read_set (case version_provider tx of Some p \<Rightarrow> p | None \<Rightarrow> (\<lambda>_ _. Some 0)) tx of
          Inl (_, key) \<Rightarrow> Inl (SsiConflict key)
        | Inr _ \<Rightarrow> Inr ())
     else Inr ())"

definition validated_deps :: "('s, 'p) tx_context \<Rightarrow> predicate_dep list" where
  "validated_deps tx =
    append_ri_barrier_deps tx
      (if isolation tx = Serializable \<and> \<not> predicate_is_empty (predicates tx) then snapshot_deps (predicates tx) else [])"

definition phase_predicates :: "commit_gate \<Rightarrow> ('s, 'p) tx_context \<Rightarrow> tx_error + unit" where
  "phase_predicates g tx =
    (let has_serializable_preds = (isolation tx = Serializable \<and> \<not> predicate_is_empty (predicates tx)) in
     if has_serializable_preds \<or> \<not> ri_barrier_tokens_is_empty tx then
       (case predicate_conflicts_batch g (validated_deps tx) (snapshot_version tx) of
          Some idx \<Rightarrow> Inl (PhantomConflict (validated_deps tx ! idx))
        | None \<Rightarrow> Inr ())
     else Inr ())"

definition phase_cas :: "('s, 'p) tx_context \<Rightarrow> tx_error + unit" where
  "phase_cas tx =
    (if cas_set tx \<noteq> [] then
       (case first_cas_conflict (version_provider tx) (cas_set tx) of
          Some (key, expected, found) \<Rightarrow> Inl (CasConflict key expected found)
        | None \<Rightarrow> Inr ())
     else Inr ())"

text \<open>The answer says whether there is work to commit; an empty transaction stops here.\<close>

definition pre_commit_locked_validate :: "commit_gate \<Rightarrow> ('s, 'p) tx_context \<Rightarrow> tx_error + bool" where
  "pre_commit_locked_validate g tx =
    (case phase_reads tx of Inl e \<Rightarrow> Inl e | Inr _ \<Rightarrow>
     (case phase_predicates g tx of Inl e \<Rightarrow> Inl e | Inr _ \<Rightarrow>
      (case phase_cas tx of Inl e \<Rightarrow> Inl e | Inr _ \<Rightarrow> Inr (\<not> tx_is_empty tx))))"

section \<open>What a footprint holds\<close>

definition posting_keys_for :: "u64 \<Rightarrow> (u64 \<times> index_write_op) list \<Rightarrow> bytes list" where
  "posting_keys_for token ops =
    List.map_filter (\<lambda>(t, op). if t = token then (case op of SetPosting key _ _ \<Rightarrow> Some key | _ \<Rightarrow> None) else None) ops"

definition wants_footprint :: "('s, 'p) tx_context \<Rightarrow> u64 \<Rightarrow> bool" where
  "wants_footprint tx token = (isolation tx = Serializable \<or> token \<in> set (footprint_tokens tx))"

definition stages :: "('s, 'p) tx_context \<Rightarrow> u64 \<Rightarrow> bool" where
  "stages tx token = (token \<in> fst ` set (write_set tx) \<union> fst ` set (counter_deltas tx) \<union> fst ` set (index_write_set tx))"

abbreviation footprint_at :: "(u64 \<times> table_write_footprint) list \<Rightarrow> u64 \<Rightarrow> table_write_footprint" where
  "footprint_at m token \<equiv> (case map_of m token of Some f \<Rightarrow> f | None \<Rightarrow> footprint_default)"

lemma fold_touch:
  "map_of (fold touch ts m) token = (if token \<in> set ts then Some ((footprint_at m token)\<lparr>touched := True\<rparr>) else map_of m token)"
proof (induction ts arbitrary: m)
  case (Cons t ts)
  show ?case using Cons[of "touch t m"] by (auto simp: touch_def)
qed simp

lemma map_of_add_index_op:
  "map_of (add_index_op (t, op) m) token = (if token = t then Some ((footprint_at m t)\<lparr>touched := True,
     inserted_index_keys := inserted_index_keys (footprint_at m t) @ posting_keys_for t [(t, op)]\<rparr>) else map_of m token)"
  by (auto simp: add_index_op_def touch_def posting_keys_for_def split: index_write_op.split)

lemma posting_keys_for_Cons: "posting_keys_for token ((t, op) # ops) =
    (if t = token then posting_keys_for t [(t, op)] else []) @ posting_keys_for token ops"
  by (auto simp: posting_keys_for_def split: option.split)

lemma posting_keys_for_none: "token \<notin> fst ` set ops \<Longrightarrow> posting_keys_for token ops = []"
  by (induction ops) (auto simp: posting_keys_for_def)

lemma fold_add_index_op:
  "map_of (fold add_index_op ops m) token =
    (if token \<in> fst ` set ops then Some ((footprint_at m token)\<lparr>touched := True,
       inserted_index_keys := inserted_index_keys (footprint_at m token) @ posting_keys_for token ops\<rparr>) else map_of m token)"
proof (induction ops arbitrary: m)
  case (Cons e ops)
  obtain t op where e: "e = (t, op)" by (cases e)
  show ?case
  proof (cases "token \<in> fst ` set ops")
    case True
    then show ?thesis by (simp add: e Cons posting_keys_for_Cons[of token t op ops] map_of_add_index_op)
  next
    case False
    then show ?thesis
      using posting_keys_for_Cons[of t t op ops] by (auto simp: e Cons map_of_add_index_op posting_keys_for_none)
  qed
qed simp

lemma posting_keys_for_filter: "P token \<Longrightarrow> posting_keys_for token (filter (\<lambda>e. P (fst e)) ops) = posting_keys_for token ops"
  by (induction ops) (auto simp: posting_keys_for_def split: option.split if_splits)

lemma set_posting_keys_for: "k \<in> set (posting_keys_for token ops) \<longleftrightarrow> (\<exists>v p. (token, SetPosting k v p) \<in> set ops)"
  unfolding posting_keys_for_def mem_map_filter by (force split: index_write_op.splits if_splits)

lemma map_of_map_snd: "map_of (map (\<lambda>(k, v). (k, f v)) m) k = map_option f (map_of m k)"
  by (induction m) auto

lemma footprint_lookup:
  "commit_version (build_footprint_from_tx tx version) = version
   \<and> map_of (per_table (build_footprint_from_tx tx version)) token =
      (if (isolation tx = Serializable \<or> token \<in> set (footprint_tokens tx))
          \<and> (token \<in> fst ` set (write_set tx) \<or> token \<in> fst ` set (counter_deltas tx) \<or> token \<in> fst ` set (index_write_set tx))
       then Some \<lparr>touched = True, inserted_index_keys = sort (posting_keys_for token (index_write_set tx))\<rparr> else None)"
proof (cases "isolation tx \<noteq> Serializable \<and> footprint_tokens tx = []")
  case True
  then show ?thesis by (simp add: build_footprint_from_tx_def)
next
  case False
  let ?w = "\<lambda>token. wants_footprint tx token"
  have eq: "build_footprint_from_tx tx version = \<lparr>commit_version = version,
      per_table = map (\<lambda>(token, f). (token, f\<lparr>inserted_index_keys := sort (inserted_index_keys f)\<rparr>))
        (fold add_index_op (filter (\<lambda>e. ?w (fst e)) (index_write_set tx))
          (fold touch (filter ?w (map fst (counter_deltas tx))) (fold touch (filter ?w (map fst (write_set tx))) [])))\<rparr>"
    using False unfolding build_footprint_from_tx_def Let_def wants_footprint_def[abs_def] by simp
  have keys: "fst ` set (filter (\<lambda>e. ?w (fst e)) xs) = {t \<in> fst ` set xs. ?w t}" for xs :: "(u64 \<times> index_write_op) list"
    by auto
  show ?thesis
  proof (cases "?w token")
    case True
    then show ?thesis
      unfolding eq map_of_map_snd commit_write_record.simps fold_add_index_op fold_touch keys posting_keys_for_filter[of ?w, OF True]
      using posting_keys_for_none[of token "index_write_set tx"] by (simp add: wants_footprint_def footprint_default_def)
  next
    case False
    then show ?thesis
      unfolding eq map_of_map_snd commit_write_record.simps fold_add_index_op fold_touch keys
      by (simp add: wants_footprint_def)
  qed
qed


section \<open>Conflicts with the log\<close>

lemma first_dep_None: "first_dep rec deps i = None \<longleftrightarrow> (\<forall>dep \<in> set deps. \<not> record_conflicts rec dep)"
  by (induction rec deps i rule: first_dep.induct) auto

lemma first_dep_Some:
  "first_dep rec deps i = Some j \<Longrightarrow> i \<le> j \<and> j < i + length deps \<and> record_conflicts rec (deps ! (j - i))"
proof (induction rec deps i arbitrary: j rule: first_dep.induct)
  case (2 rec dep deps i)
  show ?case
  proof (cases "record_conflicts rec dep")
    case False
    with 2 have "Suc i \<le> j" "j < Suc i + length deps" "record_conflicts rec (deps ! (j - Suc i))" by auto
    then show ?thesis by (simp add: nth_Cons')
  qed (use 2 in simp)
qed simp

lemma batch_loop_None:
  "batch_loop w deps = None \<longleftrightarrow> (\<forall>dep \<in> set deps. \<not> list_ex (\<lambda>(_, rec). record_conflicts rec dep) w)"
proof (induction w deps rule: batch_loop.induct)
  case (2 v rec w deps)
  then show ?case using first_dep_None[of rec deps 0] by (cases "first_dep rec deps 0") auto
qed simp

lemma batch_loop_Some:
  "batch_loop w deps = Some j \<Longrightarrow> j < length deps \<and> list_ex (\<lambda>(_, rec). record_conflicts rec (deps ! j)) w"
proof (induction w deps rule: batch_loop.induct)
  case (2 v rec w deps)
  then show ?case using first_dep_Some[of rec deps 0 j] by (auto split: option.splits)
qed simp

lemma batch_None_iff:
  "predicate_conflicts_batch g deps snapshot = None \<longleftrightarrow> list_all (\<lambda>dep. \<not> predicate_conflicts g dep snapshot) deps"
  by (auto simp: predicate_conflicts_batch_def predicate_conflicts_def batch_loop_None list_all_iff Let_def)

lemma batch_Some_conflict:
  "predicate_conflicts_batch g deps snapshot = Some i \<Longrightarrow> i < length deps \<and> predicate_conflicts g (deps ! i) snapshot"
  using batch_loop_Some by (auto simp: predicate_conflicts_batch_def predicate_conflicts_def Let_def split: if_splits)

text \<open>The reported dependency need not be the first one in conflict: the pass goes record by record.\<close>

definition sample_log :: commit_gate where
  "sample_log = \<lparr>last_committed_version = 2, commit_write_log =
    [(1, \<lparr>commit_version = 1, per_table = [(8, \<lparr>touched = True, inserted_index_keys = []\<rparr>)]\<rparr>),
     (2, \<lparr>commit_version = 2, per_table = [(7, \<lparr>touched = True, inserted_index_keys = []\<rparr>)]\<rparr>)]\<rparr>"

lemma batch_reports_later_dependency:
  "predicate_conflicts_batch sample_log [TableScan 7, TableScan 8] 0 = Some 1" "predicate_conflicts sample_log (TableScan 7) 0"
  by (simp_all add: sample_log_def predicate_conflicts_batch_def predicate_conflicts_def ti_range_def saturating_inc_def record_conflicts_def)

text \<open>C24: One pass over the commit window with all dependencies finds a conflict exactly when the
  per-dependency check finds one for some dependency, and the index it reports is of a
  dependency in conflict, though not always of the first one.\<close>

theorem batch_conflict_exact:
  "(predicate_conflicts_batch g deps snapshot = None \<longleftrightarrow> list_all (\<lambda>dep. \<not> predicate_conflicts g dep snapshot) deps)
   \<and> (case predicate_conflicts_batch g deps snapshot of
        None \<Rightarrow> True | Some i \<Rightarrow> i < length deps \<and> predicate_conflicts g (deps ! i) snapshot)
   \<and> predicate_conflicts_batch sample_log [TableScan 7, TableScan 8] 0 = Some 1 \<and> predicate_conflicts sample_log (TableScan 7) 0"
  using batch_None_iff batch_Some_conflict batch_reports_later_dependency by (auto split: option.split)

lemma saturating_inc_le: "snapshot < v \<Longrightarrow> saturating_inc snapshot \<le> v"
  by (auto simp: saturating_inc_def intro: inc_le)

lemma conflict_in_log:
  assumes "ti_ok (commit_write_log g)" and "map_of (commit_write_log g) v = Some rec" and "snapshot < v"
    and "v \<le> last_committed_version g" and "record_conflicts rec dep"
  shows "predicate_conflicts g dep snapshot"
proof -
  have "(v, rec) \<in> set (ti_range (Included (saturating_inc snapshot)) (Included (last_committed_version g)) (commit_write_log g))"
    using assms(1-4) by (simp add: map_of_iff_set saturating_inc_le)
  moreover have "\<not> last_committed_version g \<le> snapshot" using assms(3,4) by simp
  ultimately show ?thesis
    using assms(5) unfolding predicate_conflicts_def Let_def list_ex_iff by (auto intro: bexI[of _ "(v, rec)"])
qed

text \<open>What can happen to the log while a transaction with snapshot \<open>snap\<close> is open: commits publish
  footprints and raise the marker, and the log is pruned up to a floor no higher than \<open>snap\<close>
  (\<^verbatim>\<open>SnapshotGate\<close>: \<^verbatim>\<open>min_alive\<close> never exceeds an open snapshot).\<close>

inductive log_step :: "u64 \<Rightarrow> commit_gate \<Rightarrow> commit_gate \<Rightarrow> bool" for snap where
  publish: "log_step snap g (record_commit_writes rec g)"
| prune: "floor \<le> snap \<Longrightarrow> log_step snap g (snd (prune_commit_log_below floor g))"
| raise_marker: "last_committed_version g \<le> v \<Longrightarrow> log_step snap g (g\<lparr>last_committed_version := v\<rparr>)"

lemma map_of_filter_above: "map_of (filter (\<lambda>e. \<not> fst e \<le> floor) t) v = (if v \<le> floor then None else map_of t v)"
  for floor :: u64
  by (induction t) auto

lemma log_step_keeps:
  assumes "(log_step snap)\<^sup>*\<^sup>* g g'" and "ti_ok (commit_write_log g)" and "map_of (commit_write_log g) v = Some rec" and "snap < v"
  shows "ti_ok (commit_write_log g') \<and> map_of (commit_write_log g') v = Some rec"
  using assms
proof (induction rule: rtranclp_induct)
  case (step g' g'')
  then have ok: "ti_ok (commit_write_log g')" "map_of (commit_write_log g') v = Some rec" by simp_all
  from step(2) show ?case
  proof cases
    case publish
    with ok show ?thesis by (auto simp: record_commit_writes_def)
  next
    case (prune floor)
    with ok step(6) show ?thesis by (simp add: prune_commit_log_below_def map_of_filter_above)
  qed (use ok in simp)
qed simp

section \<open>Phantoms\<close>

lemma row_in_interval:
  fixes d :: index_def
  assumes "indexable sr" "length rid = 16" "\<forall>l. lo = Some l \<longrightarrow> indexable l" "\<forall>h. hi = Some h \<longrightarrow> indexable h"
    and "range_bounds (entry_prefix (name_interned d)) (map_option scalar_enc lo) (map_option scalar_enc hi) = (lower, upper)"
  shows "key_in_interval (build_entry_key (name_interned d) (scalar_enc sr) rid) (name_interned d) (Included lower) (Included upper)
    \<longleftrightarrow> row_between lo hi (sr, rid)"
proof -
  have "in_window (Some lower) (Some upper) k \<longleftrightarrow> above (Included lower) k \<and> below (Included upper) k" for k
    by (auto simp: in_window_def past_lo_def past_hi_def)
  then show ?thesis
    using window_row[of "(sr, rid)", OF _ _ assms(3,4,5)] assms(1,2)
    by (simp add: key_in_interval_iff row_key_def) (simp add: build_entry_key_def sorted_posting_key_def)
qed

text \<open>The operations a writer plans for a record whose value in index \<open>d\<close> is new.\<close>

definition plans_value :: "msgpack \<Rightarrow> 'm sorted_index_manager \<Rightarrow> index_def \<Rightarrow> record_id \<Rightarrow> inner_value \<Rightarrow> u64
    \<Rightarrow> index_write_op list \<Rightarrow> bool" where
  "plans_value mp m d rid rec version ops =
    (plan_record_created mp m rid rec version = Inr ops
     \<or> (\<exists>old. extract_field old (field_path d) \<noteq> extract_field rec (field_path d)
          \<and> plan_record_updated mp m rid old rec version = Inr ops))"

lemma plans_value_posting:
  assumes "plans_value mp m d rid rec version ops" and "d \<in> set (indexes m)" and "extract_field rec (field_path d) = Some enc"
  shows "\<exists>v p. SetPosting (build_entry_key (name_interned d) enc rid) v p \<in> set ops"
proof -
  have ne: "indexes m \<noteq> []" using assms(2) by auto
  from assms(1) consider "plan_record_created mp m rid rec version = Inr ops"
    | old where "extract_field old (field_path d) \<noteq> extract_field rec (field_path d)" "plan_record_updated mp m rid old rec version = Inr ops"
    by (auto simp: plans_value_def)
  then show ?thesis
  proof cases
    case 1
    then have "set (plan_created_one mp rid rec version d) \<subseteq> set ops" using ne assms(2) by (auto simp: plan_record_created_def)
    then show ?thesis using assms(3) by (auto simp: plan_created_one_def)
  next
    case 2
    then have "set (plan_updated_one mp rid old rec version d) \<subseteq> set ops" using ne assms(2) by (auto simp: plan_record_updated_def)
    then show ?thesis using assms(3) 2(1) by (auto simp: plan_updated_one_def Let_def split: option.splits if_splits)
  qed
qed

lemma footprint_conflicts:
  assumes "wants_footprint w token" and "(token, SetPosting key v p) \<in> set (index_write_set w)"
    and "key_in_interval key index_id lo hi"
  shows "record_conflicts (build_footprint_from_tx w cv) (IndexRange token index_id lo hi)"
proof -
  let ?ks = "sort (posting_keys_for token (index_write_set w))"
  have "token \<in> fst ` set (index_write_set w)" using assms(2) by force
  then have "map_of (per_table (build_footprint_from_tx w cv)) token = Some \<lparr>touched = True, inserted_index_keys = ?ks\<rparr>"
    using footprint_lookup[of w cv token] assms(1) by (simp add: wants_footprint_def)
  moreover have "index_range_overlaps_sorted ?ks index_id lo hi"
    using assms(3) set_posting_keys_for[of key token "index_write_set w"] assms(2) overlaps_sorted_iff[of ?ks index_id lo hi]
    by (metis set_sort sorted_sort)
  ultimately show ?thesis by (simp add: record_conflicts_def)
qed

lemma footprint_logged:
  assumes "record_conflicts (build_footprint_from_tx w cv) dep" and "ti_ok (commit_write_log g)" and "map_of (commit_write_log g) cv = None"
  shows "ti_ok (commit_write_log (record_commit_writes (build_footprint_from_tx w cv) g))
    \<and> map_of (commit_write_log (record_commit_writes (build_footprint_from_tx w cv) g)) cv = Some (build_footprint_from_tx w cv)"
proof -
  have "per_table (build_footprint_from_tx w cv) \<noteq> []" using assms(1) by (auto simp: record_conflicts_def split: predicate_dep.splits)
  moreover have "commit_version (build_footprint_from_tx w cv) = cv" using footprint_lookup[of w cv] by blast
  ultimately show ?thesis using assms(2,3) by (simp add: record_commit_writes_def)
qed

lemma phase_predicates_conflict:
  assumes "isolation tx = Serializable" and "dep \<in> set (snapshot_deps (predicates tx))" and "predicate_ok (predicates tx)"
    and "predicate_conflicts g dep (snapshot_version tx)"
  shows "\<exists>dep'. phase_predicates g tx = Inl (PhantomConflict dep')"
proof -
  have ne: "\<not> predicate_is_empty (predicates tx)"
    using assms(2,3) by (auto simp: predicate_is_empty_def predicate_ok_def snapshot_deps_def)
  have "dep \<in> set (validated_deps tx)" using assms(1,2) ne by (simp add: validated_deps_def append_ri_barrier_deps_def)
  then have "predicate_conflicts_batch g (validated_deps tx) (snapshot_version tx) \<noteq> None"
    using assms(4) batch_None_iff[of g "validated_deps tx" "snapshot_version tx"] by (auto simp: list_all_iff)
  then show ?thesis using assms(1) ne by (auto simp: phase_predicates_def)
qed

lemma recorded_range:
  assumes "lookup_range_tx D m token name start_encoded end_encoded (Some tx) = (res, Some tx')" and "isolation tx = Serializable"
    and "predicate_ok (predicates tx)" and "length (plog (predicates tx)) < 2 ^ 64"
    and "range_bounds (entry_prefix name) start_encoded end_encoded = (lower, upper)"
  shows "isolation tx' = Serializable \<and> snapshot_version tx' = snapshot_version tx \<and> predicate_ok (predicates tx')
    \<and> IndexRange token name (Included lower) (Included upper) \<in> set (snapshot_deps (predicates tx'))"
  using assms predicate_push_appends[OF assms(3,4)]
  by (auto simp: lookup_range_tx_def record_range_dep_def record_predicate_shared_def)


definition sample_reader :: "(store, u64) tx_context" where
  "sample_reader = tx_new 1 5 Serializable"

definition sample_writer :: "(store, u64) tx_context" where
  "sample_writer = (tx_new 2 5 Serializable)\<lparr>index_write_set := map (Pair 7)
     (plan_created_one (\<lambda>_. None) sample_id sample_record 6 sample_index)\<rparr>"


section \<open>The phases in order\<close>

lemma first_cas_conflict_None:
  "first_cas_conflict provider m = None \<longleftrightarrow>
    (\<forall>table key expected. ((table, key), expected) \<in> set m \<longrightarrow> Option.bind provider (\<lambda>p. p table key) = Some expected)"
proof (induction provider m rule: first_cas_conflict.induct)
  case (2 provider table key expected rest)
  then show ?case by (cases "Option.bind provider (\<lambda>p. p table key)") auto
qed simp

definition reads_valid :: "('s, 'p) tx_context \<Rightarrow> bool" where
  "reads_valid tx = (isolation tx = Serializable \<longrightarrow>
    (\<forall>table key seen. ((table, key), seen) \<in> set (read_set tx) \<longrightarrow>
      (\<exists>current. (case version_provider tx of Some p \<Rightarrow> p | None \<Rightarrow> (\<lambda>_ _. Some 0)) table key = Some current \<and> current \<le> seen)))"

definition cas_valid :: "('s, 'p) tx_context \<Rightarrow> bool" where
  "cas_valid tx = (\<forall>table key expected. ((table, key), expected) \<in> set (cas_set tx)
     \<longrightarrow> Option.bind (version_provider tx) (\<lambda>p. p table key) = Some expected)"

lemma phase_reads_Inr: "phase_reads tx = Inr () \<longleftrightarrow> reads_valid tx"
  unfolding reads_valid_def validate_reads_Inr[symmetric]
  by (auto simp: phase_reads_def validate_read_set_def split: sum.split)

lemma phase_predicates_Inr:
  "phase_predicates g tx = Inr () \<longleftrightarrow> list_all (\<lambda>dep. \<not> predicate_conflicts g dep (snapshot_version tx)) (validated_deps tx)"
proof -
  have "validated_deps tx = []"
    if "\<not> (isolation tx = Serializable \<and> \<not> predicate_is_empty (predicates tx))" "ri_barrier_tokens_is_empty tx"
    using that by (auto simp: validated_deps_def append_ri_barrier_deps_def ri_barrier_tokens_is_empty_def)
  moreover have "predicate_conflicts_batch g [] snapshot = None" for snapshot by (simp add: batch_None_iff)
  ultimately show ?thesis
    by (auto simp: phase_predicates_def batch_None_iff[symmetric] Let_def split: option.split)
qed

lemma phase_cas_Inr: "phase_cas tx = Inr () \<longleftrightarrow> cas_valid tx"
  unfolding cas_valid_def first_cas_conflict_None[symmetric] by (auto simp: phase_cas_def split: option.split)

text \<open>C19: Validation lets a transaction through exactly when its first reads still stand (serializable
  only), no dependency among its scanned ranges and referential barriers conflicts with the
  commits since its snapshot, and every compare-and-set expectation is met, at any isolation
  level; and it reports an empty transaction as such.\<close>

theorem validation_exact:
  "pre_commit_locked_validate g tx = Inr work \<longleftrightarrow>
    reads_valid tx
    \<and> list_all (\<lambda>dep. \<not> predicate_conflicts g dep (snapshot_version tx)) (validated_deps tx)
    \<and> cas_valid tx \<and> work = (\<not> tx_is_empty tx)"
  unfolding phase_reads_Inr[symmetric] phase_predicates_Inr[symmetric] phase_cas_Inr[symmetric]
  by (auto simp: pre_commit_locked_validate_def split: sum.split)

text \<open>C26: Validation errors come in a fixed order: a phantom is reported only when the reads stand, and a
  failed compare-and-set only when neither reads nor ranges conflict, so it is never blamed for
  a serialization conflict.\<close>

theorem validation_error_order:
  "(case pre_commit_locked_validate g tx of
      Inl (SsiConflict key) \<Rightarrow> isolation tx = Serializable \<and> \<not> reads_valid tx
    | Inl (PhantomConflict dep) \<Rightarrow> reads_valid tx \<and> dep \<in> set (validated_deps tx) \<and> predicate_conflicts g dep (snapshot_version tx)
    | Inl (CasConflict key expected found) \<Rightarrow> reads_valid tx \<and> \<not> cas_valid tx
        \<and> list_all (\<lambda>dep. \<not> predicate_conflicts g dep (snapshot_version tx)) (validated_deps tx)
    | Inr _ \<Rightarrow> True)"
proof -
  have r: "phase_reads tx = Inl e \<Longrightarrow> (\<exists>key. e = SsiConflict key) \<and> isolation tx = Serializable \<and> \<not> reads_valid tx" for e
    using phase_reads_Inr[of tx] by (auto simp: phase_reads_def split: if_splits sum.splits)
  have p: "phase_predicates g tx = Inl e \<Longrightarrow> \<exists>dep. e = PhantomConflict dep \<and> dep \<in> set (validated_deps tx)
      \<and> predicate_conflicts g dep (snapshot_version tx)" for e
    using batch_Some_conflict by (fastforce simp: phase_predicates_def Let_def split: if_splits option.splits)
  have c: "phase_cas tx = Inl e \<Longrightarrow> (\<exists>key x f. e = CasConflict key x f) \<and> \<not> cas_valid tx" for e
    using phase_cas_Inr[of tx] by (auto simp: phase_cas_def split: if_splits option.splits)
  consider (reads) e where "phase_reads tx = Inl e" | (preds) e where "phase_reads tx = Inr ()" "phase_predicates g tx = Inl e"
    | (cas) e where "phase_reads tx = Inr ()" "phase_predicates g tx = Inr ()" "phase_cas tx = Inl e"
    | (ok) "phase_reads tx = Inr ()" "phase_predicates g tx = Inr ()" "phase_cas tx = Inr ()"
    by (metis old.sum.exhaust old.unit.exhaust)
  then show ?thesis
  proof cases
    case reads
    with r[OF reads] show ?thesis by (auto simp: pre_commit_locked_validate_def)
  next
    case preds
    with p[OF preds(2)] phase_reads_Inr[of tx] show ?thesis by (auto simp: pre_commit_locked_validate_def)
  next
    case cas
    with c[OF cas(3)] phase_reads_Inr[of tx] phase_predicates_Inr[of g tx] show ?thesis
      by (auto simp: pre_commit_locked_validate_def)
  next
    case ok
    then show ?thesis by (simp add: pre_commit_locked_validate_def)
  qed
qed

end
