(* ===== verification/VersionGuard.thy ===== *)
theory VersionGuard
  imports CompletionTracker
begin

text \<open>
  Who owes the settlement of an allocated version: the RAII guard of
  \<^verbatim>\<open>shamir-tx/src/version/version_guard.rs\<close>, the registries of the gate it hands the
  version to when it is dropped (\<^verbatim>\<open>gate/repo_tx_gate.rs\<close>), and the part of the drainer that
  takes versions out of them (\<^verbatim>\<open>shamir-engine/src/tx/drain/drainer/drain_step.rs\<close>).  A WAL
  entry is a value of the type parameter; a ticket is a number, and its state
  is that of \<^verbatim>\<open>shamir-wal/src/segment/wal_ticket.rs\<close>.  Each operation is one step: the
  interleaving inside the trackers is the subject of \<^verbatim>\<open>CompletionProtocol\<close>.
\<close>

section \<open>State\<close>

datatype ticket_state = TPending | TWritten | TAcked | TFailed | TUnknown

record 'e repo_gate =
  version_counter :: nat
  last_committed :: nat
  completion :: tracker
  durable_completion :: tracker
  orphan_entries :: "nat \<rightharpoonup> 'e"
  wal_unresolved :: "nat \<rightharpoonup> nat \<times> 'e"
  requires_reopen :: bool
  writes_fenced :: bool
  orphaned_post_wal :: "nat set"
  orphan_max :: nat
  active_post_wal :: "nat set"

record 'e version_guard =
  gversion :: nat
  armed :: bool
  post_wal :: bool
  reopen_on_drop :: bool
  queued :: "(nat \<times> 'e) option"

text \<open>\<^verbatim>\<open>scc::HashMap::insert_sync\<close> keeps an entry that is already there.\<close>

definition keep_first :: "nat \<Rightarrow> 'v \<Rightarrow> (nat \<rightharpoonup> 'v) \<Rightarrow> nat \<rightharpoonup> 'v" where
  "keep_first k v m = (if m k = None then m(k \<mapsto> v) else m)"

definition gate_new_at :: "nat \<Rightarrow> 'e repo_gate" where
  "gate_new_at seed = \<lparr>version_counter = seed, last_committed = seed,
     completion = with_watermark seed, durable_completion = with_watermark seed,
     orphan_entries = Map.empty, wal_unresolved = Map.empty, requires_reopen = False, writes_fenced = False,
     orphaned_post_wal = {}, orphan_max = 0, active_post_wal = {}\<rparr>"

text \<open>Opening a repository installs the abort coverage before the gate is shared.\<close>

definition gate_opened :: "nat \<Rightarrow> 'e repo_gate" where
  "gate_opened seed = (let g = gate_new_at seed in g\<lparr>completion := install_abort_coverage (completion g)\<rparr>)"

section \<open>Gate\<close>

definition raise_published :: "nat \<Rightarrow> 'e repo_gate \<Rightarrow> 'e repo_gate" where
  "raise_published version g = (if last_committed g \<ge> version then g else g\<lparr>last_committed := version\<rparr>)"

definition sync_last_committed_from_watermark :: "'e repo_gate \<Rightarrow> 'e repo_gate" where
  "sync_last_committed_from_watermark g = raise_published (watermark (completion g)) g"

definition assign_next_version :: "'e repo_gate \<Rightarrow> nat \<times> 'e repo_gate" where
  "assign_next_version g = (version_counter g + 1, g\<lparr>version_counter := version_counter g + 1\<rparr>)"

definition guard_new :: "nat \<Rightarrow> 'e version_guard" where
  "guard_new version = \<lparr>gversion = version, armed = True, post_wal = False, reopen_on_drop = False, queued = None\<rparr>"

definition assign_next_version_guarded :: "'e repo_gate \<Rightarrow> 'e version_guard \<times> 'e repo_gate" where
  "assign_next_version_guarded g = (let (version, g') = assign_next_version g in (guard_new version, g'))"

definition register_written_orphan :: "nat \<Rightarrow> 'e \<Rightarrow> 'e repo_gate \<Rightarrow> 'e repo_gate" where
  "register_written_orphan version entry g =
    g\<lparr>orphan_entries := keep_first version entry (orphan_entries g),
      orphaned_post_wal := insert version (orphaned_post_wal g), orphan_max := max (orphan_max g) version\<rparr>"

definition take_unresolved :: "nat \<Rightarrow> 'e repo_gate \<Rightarrow> (nat \<times> 'e) option \<times> 'e repo_gate" where
  "take_unresolved version g = (wal_unresolved g version, g\<lparr>wal_unresolved := (wal_unresolved g)(version := None)\<rparr>)"

definition abort_unwritten :: "nat \<Rightarrow> 'e repo_gate \<Rightarrow> 'e repo_gate" where
  "abort_unwritten version g =
    sync_last_committed_from_watermark
      (g\<lparr>completion := mark version Aborted (completion g), durable_completion := mark version Aborted (durable_completion g)\<rparr>)"

definition set_requires_reopen :: "'e repo_gate \<Rightarrow> 'e repo_gate" where
  "set_requires_reopen g = g\<lparr>requires_reopen := True\<rparr>"

definition fence_writes :: "'e repo_gate \<Rightarrow> 'e repo_gate" where
  "fence_writes g = set_requires_reopen (g\<lparr>writes_fenced := True\<rparr>)"

definition complete_orphaned_post_wal :: "nat \<Rightarrow> 'e repo_gate \<Rightarrow> 'e repo_gate" where
  "complete_orphaned_post_wal version g =
    (if version \<in> orphaned_post_wal g
     then sync_last_committed_from_watermark (g\<lparr>completion := mark version Materialized (completion g)\<rparr>) else g)"

definition forget_orphaned_post_wal :: "nat \<Rightarrow> 'e repo_gate \<Rightarrow> 'e repo_gate" where
  "forget_orphaned_post_wal version g =
    g\<lparr>orphaned_post_wal := orphaned_post_wal g - {version}, orphan_entries := (orphan_entries g)(version := None)\<rparr>"

definition mark_durable :: "nat \<Rightarrow> 'e repo_gate \<Rightarrow> 'e repo_gate" where
  "mark_durable version g = g\<lparr>durable_completion := mark version Materialized (durable_completion g)\<rparr>"

definition mark_durable_aborted :: "nat \<Rightarrow> 'e repo_gate \<Rightarrow> 'e repo_gate" where
  "mark_durable_aborted version g = g\<lparr>durable_completion := mark version Aborted (durable_completion g)\<rparr>"

definition durable_watermark :: "'e repo_gate \<Rightarrow> nat" where
  "durable_watermark g = watermark (durable_completion g)"

datatype blocker_class = ActiveTail | OrphanAwaitingReplay | UnresolvedTicket | PendingUnclassified

definition oldest_blocker :: "'e repo_gate \<Rightarrow> (nat \<times> blocker_class) option" where
  "oldest_blocker g =
    (let visible_floor = watermark (completion g) in
     if version_counter g > visible_floor then
       let version = visible_floor + 1 in
       Some (version,
         if version \<in> active_post_wal g then ActiveTail
         else if version \<in> orphaned_post_wal g then OrphanAwaitingReplay
         else if wal_unresolved g version \<noteq> None then UnresolvedTicket
         else PendingUnclassified)
     else None)"

section \<open>Guard\<close>

definition wal_queued :: "nat \<Rightarrow> 'e \<Rightarrow> 'e version_guard \<Rightarrow> 'e repo_gate \<Rightarrow> 'e version_guard \<times> 'e repo_gate" where
  "wal_queued ticket entry gd g =
    (gd\<lparr>queued := Some (ticket, entry)\<rparr>, g\<lparr>active_post_wal := insert (gversion gd) (active_post_wal g)\<rparr>)"

definition wal_accepted :: "'e version_guard \<Rightarrow> 'e repo_gate \<Rightarrow> 'e version_guard \<times> 'e repo_gate" where
  "wal_accepted gd g = (gd\<lparr>post_wal := True\<rparr>, g\<lparr>active_post_wal := insert (gversion gd) (active_post_wal g)\<rparr>)"

definition visibility_started_without_wal :: "'e version_guard \<Rightarrow> 'e version_guard" where
  "visibility_started_without_wal gd = gd\<lparr>reopen_on_drop := True\<rparr>"

definition advance_last_committed :: "'e repo_gate \<Rightarrow> 'e repo_gate" where
  "advance_last_committed g = g\<lparr>last_committed := max (last_committed g) (watermark (completion g))\<rparr>"

definition leave_active :: "'e version_guard \<Rightarrow> 'e repo_gate \<Rightarrow> 'e repo_gate" where
  "leave_active gd g = g\<lparr>active_post_wal := active_post_wal g - {gversion gd}\<rparr>"

text \<open>\<^verbatim>\<open>commit\<close> disarms the guard and consumes it, so its drop does nothing.\<close>

definition guard_commit :: "'e version_guard \<Rightarrow> 'e repo_gate \<Rightarrow> 'e repo_gate" where
  "guard_commit gd g =
    leave_active gd (advance_last_committed (g\<lparr>completion := mark (gversion gd) Materialized (completion g)\<rparr>))"

definition drop_marks :: "'e version_guard \<Rightarrow> 'e repo_gate \<Rightarrow> 'e repo_gate" where
  "drop_marks gd g =
    g\<lparr>completion := mark (gversion gd) Aborted (completion g),
      durable_completion := mark (gversion gd) Aborted (durable_completion g)\<rparr>"

definition drop_aborts :: "'e version_guard \<Rightarrow> 'e repo_gate \<Rightarrow> 'e repo_gate" where
  "drop_aborts gd g = advance_last_committed (drop_marks gd g)"

definition drop_orphans :: "'e version_guard \<Rightarrow> 'e repo_gate \<Rightarrow> 'e repo_gate" where
  "drop_orphans gd g =
    leave_active gd (g\<lparr>orphaned_post_wal := insert (gversion gd) (orphaned_post_wal g), orphan_max := max (orphan_max g) (gversion gd)\<rparr>)"

definition drop_unresolved :: "'e version_guard \<Rightarrow> nat \<times> 'e \<Rightarrow> bool \<Rightarrow> 'e repo_gate \<Rightarrow> 'e repo_gate" where
  "drop_unresolved gd q reopen g =
    leave_active gd (g\<lparr>wal_unresolved := keep_first (gversion gd) q (wal_unresolved g),
      requires_reopen := requires_reopen g \<or> reopen\<rparr>)"

definition guard_drop :: "(nat \<Rightarrow> ticket_state) \<Rightarrow> 'e version_guard \<Rightarrow> 'e repo_gate \<Rightarrow> 'e repo_gate" where
  "guard_drop fate gd g =
    (if armed gd \<and> reopen_on_drop gd then leave_active gd (g\<lparr>requires_reopen := True\<rparr>)
     else if armed gd then
       (case queued gd of
          Some (ticket, entry) \<Rightarrow>
            (case fate ticket of
               TWritten \<Rightarrow> drop_orphans gd (g\<lparr>orphan_entries := keep_first (gversion gd) entry (orphan_entries g)\<rparr>)
             | TAcked \<Rightarrow> drop_orphans gd (g\<lparr>orphan_entries := keep_first (gversion gd) entry (orphan_entries g)\<rparr>)
             | TFailed \<Rightarrow> drop_aborts gd (leave_active gd g)
             | TPending \<Rightarrow> drop_unresolved gd (ticket, entry) False g
             | TUnknown \<Rightarrow> drop_unresolved gd (ticket, entry) True g)
        | None \<Rightarrow> if post_wal gd then drop_orphans gd g else drop_aborts gd g)
     else g)"

text \<open>
  What the drainer does to the gate for an unresolved version: the body of the
  loop of \<^verbatim>\<open>drain_step\<close>.  Offering the entry to the drainer's own queue and the
  replay ceiling it computes on the way are not part of the gate.
\<close>

definition resolve :: "(nat \<Rightarrow> ticket_state) \<Rightarrow> nat \<Rightarrow> 'e repo_gate \<Rightarrow> 'e repo_gate" where
  "resolve fate version g =
    (case wal_unresolved g version of
       None \<Rightarrow> g
     | Some (ticket, entry) \<Rightarrow>
         (case fate ticket of
            TWritten \<Rightarrow> snd (take_unresolved version (register_written_orphan version entry g))
          | TAcked \<Rightarrow> snd (take_unresolved version (register_written_orphan version entry g))
          | TFailed \<Rightarrow> (case take_unresolved version g of (Some _, g') \<Rightarrow> abort_unwritten version g' | (None, g') \<Rightarrow> g')
          | TPending \<Rightarrow> g
          | TUnknown \<Rightarrow> set_requires_reopen g))"

section \<open>Runs\<close>

text \<open>
  The gate, the live guards, the state of each ticket, and two histories that
  no operation reads: the ticket a version was queued with and the versions
  whose guard recorded WAL acceptance.  The group commit moves a ticket on
  from pending, and from written to a state that is not failed.
\<close>

record 'e own_sys =
  ogate :: "'e repo_gate"
  guards :: "nat \<rightharpoonup> 'e version_guard"
  fates :: "nat \<Rightarrow> ticket_state"
  tickets :: "nat \<rightharpoonup> nat"
  accepted :: "nat set"

definition own_init :: "nat \<Rightarrow> 'e own_sys" where
  "own_init seed = \<lparr>ogate = gate_opened seed, guards = Map.empty, fates = (\<lambda>_. TPending), tickets = Map.empty, accepted = {}\<rparr>"

fun fate_may_become :: "ticket_state \<Rightarrow> ticket_state \<Rightarrow> bool" where
  "fate_may_become TPending f = True"
| "fate_may_become TWritten f = (f \<notin> {TPending, TFailed})"
| "fate_may_become f f' = (f' = f)"

definition guard_moves :: "nat \<Rightarrow> ('e version_guard \<Rightarrow> 'e repo_gate \<Rightarrow> 'e version_guard \<times> 'e repo_gate) \<Rightarrow> 'e version_guard
    \<Rightarrow> 'e own_sys \<Rightarrow> 'e own_sys" where
  "guard_moves v f gd s = (let (gd', g') = f gd (ogate s) in s\<lparr>ogate := g', guards := (guards s)(v \<mapsto> gd')\<rparr>)"

definition guard_ends :: "nat \<Rightarrow> 'e repo_gate \<Rightarrow> 'e own_sys \<Rightarrow> 'e own_sys" where
  "guard_ends v g s = s\<lparr>ogate := g, guards := (guards s)(v := None)\<rparr>"

inductive own_step :: "'e own_sys \<Rightarrow> 'e own_sys \<Rightarrow> bool" where
  allocate: "assign_next_version_guarded (ogate s) = (gd, g') \<Longrightarrow>
    own_step s (s\<lparr>ogate := g', guards := (guards s)(gversion gd \<mapsto> gd)\<rparr>)"
| queue: "guards s v = Some gd \<Longrightarrow> queued gd = None \<Longrightarrow>
    own_step s ((guard_moves v (wal_queued t e) gd s)\<lparr>tickets := (tickets s)(v \<mapsto> t)\<rparr>)"
| accept: "guards s v = Some gd \<Longrightarrow> own_step s ((guard_moves v wal_accepted gd s)\<lparr>accepted := insert v (accepted s)\<rparr>)"
| start_visible: "guards s v = Some gd \<Longrightarrow>
    own_step s (s\<lparr>guards := (guards s)(v \<mapsto> visibility_started_without_wal gd)\<rparr>)"
| commit: "guards s v = Some gd \<Longrightarrow> own_step s (guard_ends v (guard_commit gd (ogate s)) s)"
| drop: "guards s v = Some gd \<Longrightarrow> own_step s (guard_ends v (guard_drop (fates s) gd (ogate s)) s)"
| fate: "fate_may_become (fates s t) f \<Longrightarrow> own_step s (s\<lparr>fates := (fates s)(t := f)\<rparr>)"
| resolve: "own_step s (s\<lparr>ogate := resolve (fates s) v (ogate s)\<rparr>)"
| replayed: "own_step s (s\<lparr>ogate := complete_orphaned_post_wal v (ogate s)\<rparr>)"
| durable: "v \<in> settled (completion (ogate s)) \<Longrightarrow> own_step s (s\<lparr>ogate := mark_durable v (ogate s)\<rparr>)"
| forget: "v \<in> settled (completion (ogate s)) \<Longrightarrow> own_step s (s\<lparr>ogate := forget_orphaned_post_wal v (ogate s)\<rparr>)"
| publish: "own_step s (s\<lparr>ogate := raise_published v (ogate s)\<rparr>)"
| fence: "own_step s (s\<lparr>ogate := fence_writes (ogate s)\<rparr>)"

section \<open>Trackers\<close>

definition track_inv :: "'e repo_gate \<Rightarrow> bool" where
  "track_inv g = (tracker_live (completion g) \<and> tracker_live (durable_completion g)
    \<and> settled (durable_completion g) \<subseteq> settled (completion g)
    \<and> watermark (completion g) \<le> last_committed g \<and> abort_coverage (completion g) \<noteq> None)"

lemma track_inv_new: "track_inv (gate_opened seed)"
  by (simp add: track_inv_def gate_opened_def gate_new_at_def install_abort_coverage_def with_watermark_def tracker_live_def tracker_ok_def
      settled_def completed_def)

lemma track_inv_frame:
  assumes "track_inv g" and "completion g' = completion g" "durable_completion g' = durable_completion g" "last_committed g \<le> last_committed g'"
  shows "track_inv g'"
  using assms by (auto simp: track_inv_def)

lemma track_inv_marks:
  assumes "track_inv g" and "st \<noteq> Pending" and "completion g' = mark v st (completion g)"
    and "durable_completion g' = durable_completion g \<or> durable_completion g' = mark v st (durable_completion g)"
    and "watermark (completion g') \<le> last_committed g'"
  shows "track_inv g'"
proof -
  have live: "tracker_live (completion g)" "tracker_live (durable_completion g)" using assms(1) by (simp_all add: track_inv_def)
  show ?thesis
    using assms(1,3,4,5) mark_live[OF live(1) assms(2), of v] mark_live[OF live(2) assms(2), of v] mark_told(2)[of v st "completion g"]
    by (auto simp: track_inv_def)
qed

lemma raise_published_simps [simp]:
  "completion (raise_published v g) = completion g" "durable_completion (raise_published v g) = durable_completion g"
  "version_counter (raise_published v g) = version_counter g" "wal_unresolved (raise_published v g) = wal_unresolved g"
  "orphaned_post_wal (raise_published v g) = orphaned_post_wal g" "active_post_wal (raise_published v g) = active_post_wal g"
  "requires_reopen (raise_published v g) = requires_reopen g" "last_committed (raise_published v g) = max (last_committed g) v"
  by (simp_all add: raise_published_def max_def)

lemmas gate_ops = sync_last_committed_from_watermark_def advance_last_committed_def leave_active_def register_written_orphan_def
  take_unresolved_def abort_unwritten_def set_requires_reopen_def fence_writes_def complete_orphaned_post_wal_def
  forget_orphaned_post_wal_def mark_durable_def guard_commit_def drop_marks_def drop_aborts_def drop_orphans_def drop_unresolved_def

lemma track_inv_drop: "track_inv g \<Longrightarrow> track_inv (guard_drop fate gd g)"
  unfolding guard_drop_def
  by (auto split: option.split ticket_state.split prod.split
      intro: track_inv_frame track_inv_marks[where st = Aborted and v = "gversion gd"] simp: gate_ops)

lemma track_inv_resolve: "track_inv g \<Longrightarrow> track_inv (resolve fate v g)"
  unfolding resolve_def
  by (auto split: option.split ticket_state.split prod.split
      intro: track_inv_frame track_inv_marks[where st = Aborted and v = v] simp: gate_ops)

lemma track_inv_durable:
  assumes "track_inv g" and "v \<in> settled (completion g)"
  shows "track_inv (mark_durable v g)"
proof -
  have "tracker_live (durable_completion g)" using assms(1) by (simp add: track_inv_def)
  from mark_live[OF this, of Materialized v] assms show ?thesis by (simp add: track_inv_def mark_durable_def)
qed

lemma track_inv_step: "own_step s s' \<Longrightarrow> track_inv (ogate s) \<Longrightarrow> track_inv (ogate s')"
proof (induction rule: own_step.induct)
  case (allocate s gd g')
  then show ?case by (auto simp: assign_next_version_guarded_def assign_next_version_def intro: track_inv_frame)
next
  case (commit s v gd)
  then show ?case
    by (auto simp: guard_ends_def gate_ops intro: track_inv_marks[where st = Materialized and v = "gversion gd"])
next
  case (replayed s v)
  then show ?case by (auto simp: gate_ops intro: track_inv_marks[where st = Materialized and v = v])
next
  case (durable v s)
  then show ?case by (simp add: track_inv_durable)
qed (auto simp: guard_moves_def guard_ends_def wal_queued_def wal_accepted_def track_inv_drop track_inv_resolve gate_ops intro: track_inv_frame)

section \<open>Owners\<close>

text \<open>A live guard of a version agrees with the histories; an unresolved version carries its ticket.\<close>

definition guard_ok :: "'e own_sys \<Rightarrow> nat \<Rightarrow> 'e version_guard \<Rightarrow> bool" where
  "guard_ok s v gd = (gversion gd = v \<and> armed gd \<and> map_option fst (queued gd) = tickets s v \<and> (post_wal gd \<longleftrightarrow> v \<in> accepted s)
    \<and> (v \<in> active_post_wal (ogate s) \<longleftrightarrow> queued gd \<noteq> None \<or> post_wal gd))"

definition owned :: "'e own_sys \<Rightarrow> nat \<Rightarrow> bool" where
  "owned s v = (v \<in> dom (guards s) \<or> v \<in> orphaned_post_wal (ogate s) \<or> v \<in> dom (wal_unresolved (ogate s)))"

definition never_written :: "'e own_sys \<Rightarrow> nat \<Rightarrow> bool" where
  "never_written s v = (case tickets s v of Some t \<Rightarrow> fates s t = TFailed | None \<Rightarrow> v \<notin> accepted s)"

lemma never_written_frame [simp]:
  "never_written (s\<lparr>ogate := g\<rparr>) v = never_written s v"
  "never_written (s\<lparr>ogate := g, guards := m\<rparr>) v = never_written s v"
  by (simp_all add: never_written_def split: option.split)

definition own_inv :: "nat \<Rightarrow> 'e own_sys \<Rightarrow> bool" where
  "own_inv seed s =
    ((\<forall>v gd. guards s v = Some gd \<longrightarrow> guard_ok s v gd)
     \<and> (\<forall>v \<in> active_post_wal (ogate s). v \<in> dom (guards s))
     \<and> (\<forall>v t e. wal_unresolved (ogate s) v = Some (t, e) \<longrightarrow> tickets s v = Some t \<and> v \<notin> dom (guards s))
     \<and> (\<forall>v. owned s v \<or> v \<in> settled (completion (ogate s)) \<or> v \<in> dom (tickets s) \<or> v \<in> accepted s \<longrightarrow> v \<le> version_counter (ogate s))
     \<and> (\<forall>v. seed < v \<and> v \<le> version_counter (ogate s) \<longrightarrow>
          owned s v \<or> v \<in> settled (completion (ogate s)) \<or> requires_reopen (ogate s))
     \<and> (\<forall>v \<in> told_aborted (completion (ogate s)). never_written s v \<and> v \<notin> dom (guards s) \<and> v \<in> settled (completion (ogate s))))"

lemma own_inv_init: "own_inv seed (own_init seed)"
  by (simp add: own_inv_def own_init_def gate_opened_def gate_new_at_def owned_def told_aborted_def install_abort_coverage_def with_watermark_def
      settled_def completed_def)

lemma own_invD:
  assumes "own_inv seed s"
  shows "guards s v = Some gd \<Longrightarrow> guard_ok s v gd"
    and "v \<in> active_post_wal (ogate s) \<Longrightarrow> v \<in> dom (guards s)"
    and "wal_unresolved (ogate s) v = Some (t, e) \<Longrightarrow> tickets s v = Some t \<and> v \<notin> dom (guards s)"
    and "owned s v \<or> v \<in> settled (completion (ogate s)) \<or> v \<in> dom (tickets s) \<or> v \<in> accepted s \<Longrightarrow> v \<le> version_counter (ogate s)"
    and "seed < v \<Longrightarrow> v \<le> version_counter (ogate s) \<Longrightarrow> owned s v \<or> v \<in> settled (completion (ogate s)) \<or> requires_reopen (ogate s)"
    and "v \<in> told_aborted (completion (ogate s)) \<Longrightarrow> never_written s v \<and> v \<notin> dom (guards s) \<and> v \<in> settled (completion (ogate s))"
  using assms unfolding own_inv_def by blast+

lemma own_invI:
  assumes "\<And>v gd. guards s v = Some gd \<Longrightarrow> guard_ok s v gd"
    and "\<And>v. v \<in> active_post_wal (ogate s) \<Longrightarrow> v \<in> dom (guards s)"
    and "\<And>v t e. wal_unresolved (ogate s) v = Some (t, e) \<Longrightarrow> tickets s v = Some t \<and> v \<notin> dom (guards s)"
    and "\<And>v. owned s v \<or> v \<in> settled (completion (ogate s)) \<or> v \<in> dom (tickets s) \<or> v \<in> accepted s \<Longrightarrow> v \<le> version_counter (ogate s)"
    and "\<And>v. seed < v \<Longrightarrow> v \<le> version_counter (ogate s) \<Longrightarrow> owned s v \<or> v \<in> settled (completion (ogate s)) \<or> requires_reopen (ogate s)"
    and "\<And>v. v \<in> told_aborted (completion (ogate s)) \<Longrightarrow> never_written s v \<and> v \<notin> dom (guards s) \<and> v \<in> settled (completion (ogate s))"
  shows "own_inv seed s"
  using assms unfolding own_inv_def by blast

text \<open>The end of a guard: its version moves to one of the registries, is settled, or the repository must reopen.\<close>

definition handed_over :: "nat \<Rightarrow> bool \<Rightarrow> 'e repo_gate \<Rightarrow> 'e repo_gate \<Rightarrow> (nat \<times> 'e) option \<Rightarrow> bool" where
  "handed_over v aborts g g' q =
    (version_counter g' = version_counter g \<and> active_post_wal g' = active_post_wal g - {v}
     \<and> (requires_reopen g \<longrightarrow> requires_reopen g')
     \<and> orphaned_post_wal g \<subseteq> orphaned_post_wal g' \<and> orphaned_post_wal g' \<subseteq> insert v (orphaned_post_wal g)
     \<and> (wal_unresolved g' = wal_unresolved g \<or> (\<exists>q'. q = Some q' \<and> wal_unresolved g' = keep_first v q' (wal_unresolved g)))
     \<and> settled (completion g) \<subseteq> settled (completion g') \<and> settled (completion g') \<subseteq> insert v (settled (completion g))
     \<and> told_aborted (completion g') = (if aborts then insert v (told_aborted (completion g)) else told_aborted (completion g))
     \<and> (aborts \<longrightarrow> v \<in> settled (completion g'))
     \<and> (v \<in> orphaned_post_wal g' \<or> v \<in> dom (wal_unresolved g') \<or> v \<in> settled (completion g') \<or> requires_reopen g'))"

lemma handed_overD:
  assumes "handed_over v aborts g g' q"
  shows "version_counter g' = version_counter g" "active_post_wal g' = active_post_wal g - {v}"
    "requires_reopen g \<Longrightarrow> requires_reopen g'" "orphaned_post_wal g \<subseteq> orphaned_post_wal g'"
    "orphaned_post_wal g' \<subseteq> insert v (orphaned_post_wal g)"
    "wal_unresolved g' = wal_unresolved g \<or> (\<exists>q'. q = Some q' \<and> wal_unresolved g' = keep_first v q' (wal_unresolved g))"
    "settled (completion g) \<subseteq> settled (completion g')" "settled (completion g') \<subseteq> insert v (settled (completion g))"
    "w \<in> told_aborted (completion g') \<Longrightarrow> w \<in> told_aborted (completion g) \<or> (w = v \<and> aborts)"
    "aborts \<Longrightarrow> v \<in> settled (completion g')"
    "v \<in> orphaned_post_wal g' \<or> v \<in> dom (wal_unresolved g') \<or> v \<in> settled (completion g') \<or> requires_reopen g'"
  using assms unfolding handed_over_def by (simp_all split: if_splits) blast

lemma handed_over_commit:
  assumes "track_inv g"
  shows "handed_over (gversion gd) False g (guard_commit gd g) q"
proof -
  have "tracker_live (completion g)" using assms by (simp add: track_inv_def)
  from mark_live[OF this, of Materialized "gversion gd"] mark_told(1)[of "gversion gd" Materialized "completion g"]
  show ?thesis by (auto simp: handed_over_def gate_ops)
qed

lemma handed_over_aborts:
  assumes "track_inv g" and "(gg = g \<and> gversion gd \<notin> active_post_wal g) \<or> gg = leave_active gd g"
  shows "handed_over (gversion gd) True g (drop_aborts gd gg) q"
proof -
  have "tracker_live (completion g)" "abort_coverage (completion g) \<noteq> None" using assms by (simp_all add: track_inv_def)
  with mark_live[OF this(1), of Aborted "gversion gd"] mark_told(1)[of "gversion gd" Aborted "completion g"] assms(2)
  show ?thesis by (auto simp: handed_over_def gate_ops)
qed

lemma handed_over_drop:
  assumes "track_inv g" and "armed gd" and "gversion gd \<in> active_post_wal g \<longleftrightarrow> queued gd \<noteq> None \<or> post_wal gd"
  shows "\<exists>aborts. handed_over (gversion gd) aborts g (guard_drop fate gd g) (queued gd)
    \<and> (aborts \<longrightarrow> (case queued gd of Some (t, e) \<Rightarrow> fate t = TFailed | None \<Rightarrow> \<not> post_wal gd))"
proof (cases "reopen_on_drop gd")
  case True
  then show ?thesis using assms(2) by (auto simp: guard_drop_def handed_over_def gate_ops)
next
  case reopen: False
  show ?thesis
  proof (cases "queued gd")
    case None
    with reopen assms handed_over_aborts[OF assms(1), of g gd] show ?thesis
      by (cases "post_wal gd") (auto simp: guard_drop_def handed_over_def gate_ops)
  next
    case (Some tq)
    obtain t e where tq: "tq = (t, e)" by (cases tq)
    show ?thesis
    proof (cases "fate t = TFailed")
      case True
      with reopen assms Some tq handed_over_aborts[OF assms(1), of "leave_active gd g" gd] show ?thesis
        by (auto simp: guard_drop_def)
    next
      case False
      with reopen assms Some tq show ?thesis
        by (cases "fate t") (auto simp: guard_drop_def handed_over_def gate_ops keep_first_def)
    qed
  qed
qed

lemma own_inv_end:
  assumes inv: "own_inv seed s" and gd: "guards s v = Some gd" and h: "handed_over v aborts (ogate s) g' (queued gd)"
    and nw: "aborts \<longrightarrow> never_written s v"
  shows "own_inv seed (guard_ends v g' s)"
proof -
  note I = own_invD[OF inv] and H = handed_overD[OF h]
  have ok: "guard_ok s v gd" "v \<le> version_counter (ogate s)" using I(1)[OF gd] I(4)[of v] gd by (auto simp: owned_def)
  have u: "tickets s w = Some t \<and> (w = v \<or> w \<notin> dom (guards s))" if "wal_unresolved g' w = Some (t, e)" for w t e
  proof (cases "wal_unresolved (ogate s) w = Some (t, e)")
    case True
    then show ?thesis using I(3)[of w t e] by blast
  next
    case False
    with H(6) that obtain q where "queued gd = Some q" "w = v" "q = (t, e)" by (auto simp: keep_first_def split: if_splits)
    with ok(1) show ?thesis by (auto simp: guard_ok_def)
  qed
  have du: "dom (wal_unresolved (ogate s)) \<subseteq> dom (wal_unresolved g')" "dom (wal_unresolved g') \<subseteq> insert v (dom (wal_unresolved (ogate s)))"
    using H(6) by (auto simp: keep_first_def split: if_splits)
  have own: "owned (guard_ends v g' s) w \<longrightarrow> owned s w \<or> w = v" "owned s w \<longrightarrow> w = v \<or> owned (guard_ends v g' s) w" for w
    using du H(4,5) by (auto simp: owned_def guard_ends_def)
  have last: "owned (guard_ends v g' s) v \<or> v \<in> settled (completion g') \<or> requires_reopen g'"
    using H(11) by (auto simp: owned_def guard_ends_def)
  show ?thesis
  proof (rule own_invI, goal_cases)
    case (1 w gd')
    then show ?case using I(1)[of w gd'] H(2) by (auto simp: guard_ends_def guard_ok_def split: if_splits)
  next
    case (2 w)
    then show ?case using I(2)[of w] H(2) by (auto simp: guard_ends_def)
  next
    case (3 w t e)
    then show ?case using u[of w t e] by (auto simp: guard_ends_def)
  next
    case (4 w)
    then show ?case using I(4)[of w] H(1,8) ok(2) own(1)[of w] by (auto simp: guard_ends_def)
  next
    case (5 w)
    then show ?case using I(5)[of w] H(1,3,7) own(2)[of w] last by (auto simp: guard_ends_def)
  next
    case (6 w)
    then have "w \<in> told_aborted (completion (ogate s)) \<or> (w = v \<and> aborts)" using H(9)[of w] by (simp add: guard_ends_def)
    then show ?case
    proof
      assume "w \<in> told_aborted (completion (ogate s))"
      then show ?case using I(6)[of w] H(7) by (auto simp: guard_ends_def)
    next
      assume "w = v \<and> aborts"
      then show ?case using nw H(10) by (auto simp: guard_ends_def)
    qed
  qed
qed

text \<open>Steps that leave the guards and histories alone and only move a version along the registries.\<close>

lemma own_inv_gate:
  assumes inv: "own_inv seed s" and "version_counter g' = version_counter (ogate s)" "active_post_wal g' = active_post_wal (ogate s)"
    and "wal_unresolved g' \<subseteq>\<^sub>m wal_unresolved (ogate s)"
    and "orphaned_post_wal g' \<subseteq> orphaned_post_wal (ogate s) \<union> dom (wal_unresolved (ogate s))"
    and "settled (completion (ogate s)) \<subseteq> settled (completion g')"
    and "\<And>v. v \<in> settled (completion g') \<Longrightarrow> v \<in> settled (completion (ogate s)) \<or> owned s v"
    and "\<And>v. owned s v \<Longrightarrow> owned (s\<lparr>ogate := g'\<rparr>) v \<or> v \<in> settled (completion g')"
    and "requires_reopen (ogate s) \<Longrightarrow> requires_reopen g'"
    and "\<And>v. v \<in> told_aborted (completion g') \<Longrightarrow> v \<in> told_aborted (completion (ogate s))
      \<or> (never_written s v \<and> v \<notin> dom (guards s) \<and> v \<in> settled (completion g'))"
  shows "own_inv seed (s\<lparr>ogate := g'\<rparr>)"
proof -
  note I = own_invD[OF inv]
  have sub: "wal_unresolved (ogate s) v = Some x" if "wal_unresolved g' v = Some x" for v x
    using assms(4) that by (auto simp: map_le_def dom_def)
  have own: "owned s v" if "owned (s\<lparr>ogate := g'\<rparr>) v" for v
    using that assms(5) sub by (auto simp: owned_def)
  show ?thesis
  proof (rule own_invI, goal_cases)
    case (1 w gd')
    then show ?case using I(1)[of w gd'] assms(3) by (simp add: guard_ok_def)
  next
    case (2 w)
    then show ?case using I(2)[of w] assms(3) by simp
  next
    case (3 w t e)
    then show ?case using I(3)[of w t e] sub by simp
  next
    case (4 w)
    then show ?case using I(4)[of w] assms(2) assms(7)[of w] own[of w] by auto
  next
    case (5 w)
    then show ?case using I(5)[of w] assms(2,6,9) assms(8)[of w] by auto
  next
    case (6 w)
    then show ?case using I(6)[of w] assms(6) assms(10)[of w] by auto
  qed
qed

lemma own_inv_resolve:
  assumes inv: "own_inv seed s" and track: "track_inv (ogate s)"
  shows "own_inv seed (s\<lparr>ogate := resolve (fates s) v (ogate s)\<rparr>)"
proof (cases "wal_unresolved (ogate s) v")
  case (Some q)
  obtain t e where q: "q = (t, e)" by (cases q)
  have v: "tickets s v = Some t" "v \<notin> dom (guards s)" using own_invD(3)[OF inv] Some q by simp_all
  have live: "tracker_live (completion (ogate s))" using track by (simp add: track_inv_def)
  note m = mark_live[OF live, of Aborted v, simplified] mark_told(1)[of v Aborted "completion (ogate s)"]
  show ?thesis
  proof (cases "fates s t = TFailed")
    case True
    then have "never_written s v" using v by (simp add: never_written_def)
    with True Some q v m show ?thesis
      by (intro own_inv_gate[OF inv]) (auto simp: resolve_def gate_ops owned_def map_le_def split: if_splits)
  next
    case False
    with Some q show ?thesis
      by (intro own_inv_gate[OF inv]; cases "fates s t") (auto simp: resolve_def gate_ops owned_def map_le_def)
  qed
qed (use inv in \<open>simp add: resolve_def\<close>)

lemma own_inv_guard_upd:
  assumes inv: "own_inv seed s" and gd: "guards s v = Some gd"
    and "guard_ok (s\<lparr>ogate := (ogate s)\<lparr>active_post_wal := A\<rparr>, guards := (guards s)(v \<mapsto> gd'), tickets := T, accepted := B\<rparr>) v gd'"
    and "A - {v} = active_post_wal (ogate s) - {v}" and "\<And>w. w \<noteq> v \<Longrightarrow> T w = tickets s w" and "B - {v} = accepted s - {v}"
  shows "own_inv seed (s\<lparr>ogate := (ogate s)\<lparr>active_post_wal := A\<rparr>, guards := (guards s)(v \<mapsto> gd'), tickets := T, accepted := B\<rparr>)"
proof -
  let ?s = "s\<lparr>ogate := (ogate s)\<lparr>active_post_wal := A\<rparr>, guards := (guards s)(v \<mapsto> gd'), tickets := T, accepted := B\<rparr>"
  note I = own_invD[OF inv]
  have A: "w \<in> A \<longleftrightarrow> w \<in> active_post_wal (ogate s)" "w \<in> B \<longleftrightarrow> w \<in> accepted s" if "w \<noteq> v" for w using assms(4,6) that by auto
  have own: "owned ?s w \<longleftrightarrow> owned s w" for w using gd by (auto simp: owned_def)
  have le: "v \<le> version_counter (ogate s)" using I(4)[of v] gd by (auto simp: owned_def)
  have gok: "guard_ok ?s w gdw = guard_ok s w gdw" if "w \<noteq> v" for w gdw using that A assms(5) by (simp add: guard_ok_def)
  have nw: "never_written ?s w = never_written s w" if "w \<noteq> v" for w using that A assms(5) by (simp add: never_written_def split: option.split)
  show ?thesis
  proof (rule own_invI, goal_cases)
    case (1 w gdw)
    then show ?case using I(1)[of w gdw] gok assms(3) by (cases "w = v") simp_all
  next
    case (2 w)
    then show ?case using I(2)[of w] A by (cases "w = v") simp_all
  next
    case (3 w t e)
    then have "tickets s w = Some t" "w \<notin> dom (guards s)" using I(3)[of w t e] by simp_all
    then show ?case using gd assms(5)[of w] by (cases "w = v") auto
  next
    case (4 w)
    then show ?case using I(4)[of w] le A assms(5)[of w] own[of w] by (cases "w = v") (auto simp: dom_def)
  next
    case (5 w)
    then show ?case using I(5)[of w] own[of w] by simp
  next
    case (6 w)
    then have "never_written s w" "w \<notin> dom (guards s)" "w \<in> settled (completion (ogate s))" using I(6)[of w] by simp_all
    then show ?case using gd nw[of w] by (cases "w = v") auto
  qed
qed

lemma own_inv_allocate:
  assumes inv: "own_inv seed s" and "assign_next_version_guarded (ogate s) = (gd, g')"
  shows "own_inv seed (s\<lparr>ogate := g', guards := (guards s)(gversion gd \<mapsto> gd)\<rparr>)"
proof -
  note I = own_invD[OF inv]
  let ?v = "version_counter (ogate s) + 1"
  let ?s = "s\<lparr>ogate := g', guards := (guards s)(gversion gd \<mapsto> gd)\<rparr>"
  have eq: "gd = guard_new ?v" "g' = (ogate s)\<lparr>version_counter := ?v\<rparr>"
    using assms(2) by (auto simp: assign_next_version_guarded_def assign_next_version_def)
  have fresh: "\<not> owned s ?v" "?v \<notin> settled (completion (ogate s))" "tickets s ?v = None" "?v \<notin> accepted s"
    using I(4)[of ?v] by auto
  have own: "owned ?s w \<longleftrightarrow> w = ?v \<or> owned s w" for w by (auto simp: owned_def eq guard_new_def)
  show ?thesis
  proof (rule own_invI, goal_cases)
    case (1 w gd')
    then show ?case
      using I(1)[of w gd'] I(2)[of ?v] fresh by (auto simp: eq guard_new_def guard_ok_def owned_def split: if_splits)
  next
    case (2 w)
    then show ?case using I(2)[of w] by (auto simp: eq)
  next
    case (3 w t e)
    then show ?case using I(3)[of w t e] fresh(1) by (auto simp: eq guard_new_def owned_def)
  next
    case (4 w)
    then have "w = ?v \<or> (owned s w \<or> w \<in> settled (completion (ogate s)) \<or> w \<in> dom (tickets s) \<or> w \<in> accepted s)"
      using own[of w] by (simp add: eq)
    then have "w = ?v \<or> w \<le> version_counter (ogate s)" using I(4)[of w] by blast
    then show ?case by (auto simp: eq)
  next
    case (5 w)
    then show ?case using I(5)[of w] own[of w] by (cases "w = ?v") (auto simp: eq)
  next
    case (6 w)
    then show ?case using I(6)[of w] fresh(2) by (auto simp: eq guard_new_def)
  qed
qed

lemma own_inv_drop:
  assumes inv: "own_inv seed s" and track: "track_inv (ogate s)" and gd: "guards s v = Some gd"
  shows "own_inv seed (guard_ends v (guard_drop (fates s) gd (ogate s)) s)"
proof -
  have ok: "guard_ok s v gd" using own_invD(1)[OF inv gd] .
  then have g: "gversion gd = v" "armed gd" "gversion gd \<in> active_post_wal (ogate s) \<longleftrightarrow> queued gd \<noteq> None \<or> post_wal gd"
    by (auto simp: guard_ok_def)
  obtain aborts where a: "handed_over v aborts (ogate s) (guard_drop (fates s) gd (ogate s)) (queued gd)"
      "aborts \<longrightarrow> (case queued gd of Some (t, e) \<Rightarrow> fates s t = TFailed | None \<Rightarrow> \<not> post_wal gd)"
    using handed_over_drop[OF track g(2,3), of "fates s"] g(1) by auto
  have "tickets s v = map_option fst (queued gd)" "post_wal gd \<longleftrightarrow> v \<in> accepted s" using ok by (simp_all add: guard_ok_def)
  then have "aborts \<longrightarrow> never_written s v"
    using a(2) by (cases "queued gd") (auto simp: never_written_def split: prod.splits)
  then show ?thesis by (rule own_inv_end[OF inv gd a(1)])
qed

lemma own_inv_step:
  assumes "own_step s s'" and inv: "own_inv seed s" and track: "track_inv (ogate s)"
  shows "own_inv seed s'"
  using assms(1)
proof cases
  case (allocate gd g')
  then show ?thesis using own_inv_allocate[OF inv] by simp
next
  case (queue v gd t e)
  note ok = own_invD(1)[OF inv queue(2)]
  have "s' = s\<lparr>ogate := (ogate s)\<lparr>active_post_wal := insert v (active_post_wal (ogate s))\<rparr>,
      guards := (guards s)(v \<mapsto> gd\<lparr>queued := Some (t, e)\<rparr>), tickets := (tickets s)(v \<mapsto> t), accepted := accepted s\<rparr>"
    using queue(1) ok by (simp add: guard_moves_def wal_queued_def guard_ok_def)
  then show ?thesis using ok by (simp only:) (rule own_inv_guard_upd[OF inv queue(2)], auto simp: guard_ok_def)
next
  case (accept v gd)
  note ok = own_invD(1)[OF inv accept(2)]
  have "s' = s\<lparr>ogate := (ogate s)\<lparr>active_post_wal := insert v (active_post_wal (ogate s))\<rparr>,
      guards := (guards s)(v \<mapsto> gd\<lparr>post_wal := True\<rparr>), tickets := tickets s, accepted := insert v (accepted s)\<rparr>"
    using accept(1) ok by (simp add: guard_moves_def wal_accepted_def guard_ok_def)
  then show ?thesis using ok by (simp only:) (rule own_inv_guard_upd[OF inv accept(2)], auto simp: guard_ok_def)
next
  case (start_visible v gd)
  note ok = own_invD(1)[OF inv start_visible(2)]
  have "s' = s\<lparr>ogate := (ogate s)\<lparr>active_post_wal := active_post_wal (ogate s)\<rparr>,
      guards := (guards s)(v \<mapsto> visibility_started_without_wal gd), tickets := tickets s, accepted := accepted s\<rparr>"
    using start_visible(1) by simp
  then show ?thesis
    using ok by (simp only:) (rule own_inv_guard_upd[OF inv start_visible(2)], auto simp: guard_ok_def visibility_started_without_wal_def)
next
  case (commit v gd)
  then have "gversion gd = v" using own_invD(1)[OF inv commit(2)] by (simp add: guard_ok_def)
  then show ?thesis
    using own_inv_end[OF inv commit(2), of False "guard_commit gd (ogate s)"] handed_over_commit[OF track, of gd "queued gd"] commit(1) by simp
next
  case (drop v gd)
  then show ?thesis using own_inv_drop[OF inv track drop(2)] by simp
next
  case (fate t f)
  have "never_written s' w" if "never_written s w" for w
    using that fate by (auto simp: never_written_def split: option.splits)
  with inv fate(1) show ?thesis unfolding own_inv_def by (simp add: guard_ok_def owned_def)
next
  case (resolve v)
  then show ?thesis using own_inv_resolve[OF inv track] by simp
next
  case (replayed v)
  have "tracker_live (completion (ogate s))" using track by (simp add: track_inv_def)
  note m = mark_live[OF this, of Materialized v, simplified] mark_told(1)[of v Materialized "completion (ogate s)"]
  show ?thesis unfolding replayed by (rule own_inv_gate[OF inv]) (use m in \<open>auto simp: gate_ops owned_def split: if_splits\<close>)
next
  case (durable v)
  show ?thesis unfolding durable(1) by (rule own_inv_gate[OF inv]) (auto simp: gate_ops owned_def)
next
  case (forget v)
  show ?thesis unfolding forget(1) by (rule own_inv_gate[OF inv]) (use forget in \<open>auto simp: gate_ops owned_def\<close>)
next
  case (publish v)
  show ?thesis unfolding publish by (rule own_inv_gate[OF inv]) (auto simp: owned_def)
next
  case fence
  show ?thesis unfolding fence by (rule own_inv_gate[OF inv]) (auto simp: gate_ops owned_def)
qed

lemma own_reachable: "own_step\<^sup>*\<^sup>* (own_init seed) s \<Longrightarrow> own_inv seed s \<and> track_inv (ogate s)"
proof (induction rule: rtranclp_induct)
  case base
  then show ?case by (simp add: own_inv_init) (simp add: own_init_def track_inv_new)
next
  case (step s s')
  then show ?case using own_inv_step track_inv_step by blast
qed

lemma watermark_grows:
  assumes "own_step s s'" and track: "track_inv (ogate s)"
  shows "watermark (completion (ogate s)) \<le> watermark (completion (ogate s'))"
proof -
  have live: "tracker_live (completion (ogate s))" using track by (simp add: track_inv_def)
  have m: "watermark (completion (ogate s)) \<le> watermark (mark v st (completion (ogate s)))" if "st \<noteq> Pending" for v st
    using mark_live(3)[OF live that] .
  from assms(1) show ?thesis
  proof cases
    case (allocate gd g')
    then show ?thesis by (auto simp: assign_next_version_guarded_def assign_next_version_def)
  next
    case (drop v gd)
    then show ?thesis
      by (auto simp: guard_ends_def guard_drop_def gate_ops m split: option.split ticket_state.split prod.split)
  next
    case (resolve v)
    then show ?thesis by (auto simp: resolve_def gate_ops m split: option.split ticket_state.split prod.split)
  qed (auto simp: guard_moves_def guard_ends_def wal_queued_def wal_accepted_def gate_ops m)
qed

lemma seed_below: "own_step\<^sup>*\<^sup>* (own_init seed) s \<Longrightarrow> seed \<le> watermark (completion (ogate s))"
proof (induction rule: rtranclp_induct)
  case base
  then show ?case by (simp add: own_init_def gate_opened_def gate_new_at_def install_abort_coverage_def with_watermark_def)
next
  case (step s s')
  then show ?case using watermark_grows[OF step(2)] own_reachable[OF step(1)] by simp
qed

section \<open>Properties\<close>

text \<open>Two states of a run: one version allocated, and the same version abandoned before the WAL.\<close>

definition ex_allocated :: "unit own_sys" where
  "ex_allocated = (own_init 0)\<lparr>ogate := (gate_opened 0)\<lparr>version_counter := 1\<rparr>, guards := [1 \<mapsto> guard_new 1]\<rparr>"

definition ex_dropped :: "unit own_sys" where
  "ex_dropped = guard_ends 1 (guard_drop (fates ex_allocated) (guard_new 1) (ogate ex_allocated)) ex_allocated"

lemma ex_allocated_reached: "own_step\<^sup>*\<^sup>* (own_init 0) ex_allocated"
proof -
  have "assign_next_version_guarded (ogate (own_init 0 :: unit own_sys)) = (guard_new 1, (gate_opened 0)\<lparr>version_counter := 1\<rparr>)"
    by (simp add: assign_next_version_guarded_def assign_next_version_def own_init_def gate_opened_def gate_new_at_def)
  from r_into_rtranclp[where r = own_step, OF own_step.allocate[OF this]] show ?thesis by (simp add: ex_allocated_def guard_new_def own_init_def)
qed

lemma ex_dropped_reached: "own_step\<^sup>*\<^sup>* (own_init 0) ex_dropped"
proof -
  have "guards ex_allocated 1 = Some (guard_new 1)" by (simp add: ex_allocated_def)
  from own_step.drop[OF this] show ?thesis using ex_allocated_reached by (simp add: ex_dropped_def)
qed

lemma ex_dropped_gate:
  "ogate ex_dropped = drop_aborts (guard_new 1) ((gate_opened 0)\<lparr>version_counter := 1\<rparr>)" "guards ex_dropped = Map.empty"
  "tickets ex_dropped = Map.empty" "accepted ex_dropped = {}"
  by (simp_all add: ex_dropped_def guard_ends_def guard_drop_def ex_allocated_def guard_new_def own_init_def)



text \<open>C29: A version whose WAL frame was written is never declared aborted: the completion tracker is told
  of an abort only for a version that was never handed to the WAL or whose ticket failed.\<close>

theorem aborted_never_written:
  assumes "own_step\<^sup>*\<^sup>* (own_init seed) s" and "v \<in> told_aborted (completion (ogate s))"
  shows "(case tickets s v of Some t \<Rightarrow> fates s t = TFailed | None \<Rightarrow> v \<notin> accepted s)"
  using own_invD(6)[OF conjunct1[OF own_reachable[OF assms(1)]] assms(2)] by (simp add: never_written_def)

theorem aborted_never_written_witness:
  "1 \<in> told_aborted (completion (ogate ex_dropped)) \<and> 1 \<notin> accepted ex_dropped"
proof -
  have "1 \<in> told_aborted (completion (ogate ex_dropped))"
    by (simp add: ex_dropped_gate gate_ops mark_told guard_new_def gate_opened_def gate_new_at_def install_abort_coverage_def with_watermark_def)
  with aborted_never_written[OF ex_dropped_reached this] show ?thesis by (simp add: ex_dropped_gate)
qed





end
