(* ===== verification/WalFrame.thy ===== *)
theory WalFrame
  imports KvStore
begin

text \<open>
  One segment of the write-ahead log: the envelope of an entry
  (\<^verbatim>\<open>shamir-wal/src/entry/wal_entry_v2.rs\<close>), the bounded frame reader
  (\<^verbatim>\<open>segment/frame_reader.rs\<close>), and the append, replay and repair paths of
  \<^verbatim>\<open>segment/wal_segment.rs\<close>.  The body codec (bincode) and the checksum (crc32fast)
  are third-party: they are parameters, and a lemma that needs the codec's round trip
  assumes it.  The file is its bytes; what the operating system makes of a call
  (how much of a failed write reached the file, whether an open is denied) is an
  argument.  Offsets and lengths are natural numbers.
\<close>

section \<open>Entries\<close>

datatype actor = SystemActor | Admin u64 | User u64

datatype wal_op =
  Put u64 bytes bytes
| Delete u64 bytes
| IndexPut u64 u32 bytes bytes
| IndexDel u64 u32 bytes
| InternerOverlayMerge "(u64 \<times> string) list"
| CounterDelta u64 i64

record wal_extra_change =
  xc_table :: u64
  xc_index :: u32
  xc_key :: bytes
  xc_value :: "bytes option"

record wal_event_header =
  h_repo :: string
  h_actor :: actor
  h_tx_id :: u64
  h_timestamp_ns :: u64
  h_table_names :: "(u64 \<times> string) list"
  h_extra_changes :: "wal_extra_change list"

record wal_entry =
  txn_id :: u64
  repo_id_interned :: u64
  started_at_ns :: u64
  commit_version :: u64
  ops :: "wal_op list"
  interner_delta :: "(u64 \<times> string \<times> u64) list"
  event :: "wal_event_header option"

record wal_entry_pre_event =
  p_txn_id :: u64
  p_repo_id_interned :: u64
  p_started_at_ns :: u64
  p_commit_version :: u64
  p_ops :: "wal_op list"
  p_interner_delta :: "(u64 \<times> string \<times> u64) list"

record wal_entry_legacy_pre_high5 =
  o_txn_id :: u64
  o_repo_id_interned :: u64
  o_started_at_ns :: u64
  o_ops :: "wal_op list"

record wal_entry_legacy_post_high5 =
  n_txn_id :: u64
  n_repo_id_interned :: u64
  n_started_at_ns :: u64
  n_commit_version :: u64
  n_ops :: "wal_op list"

text \<open>The five calls into bincode, by the shape they read or write.\<close>

record bincode =
  bc_serialize :: "wal_entry \<Rightarrow> bytes option"
  bc_v3 :: "bytes \<Rightarrow> wal_entry option"
  bc_v2 :: "bytes \<Rightarrow> wal_entry_pre_event option"
  bc_v1_pre :: "bytes \<Rightarrow> wal_entry_legacy_pre_high5 option"
  bc_v1_post :: "bytes \<Rightarrow> wal_entry_legacy_post_high5 option"

definition WAL_V2_MAGIC :: bytes where "WAL_V2_MAGIC = [0x57, 0x41, 0x4C, 0x32]"
definition WAL_V2_VERSION :: u8 where "WAL_V2_VERSION = 3"
definition WAL_V2_VERSION_PRE_EVENT :: u8 where "WAL_V2_VERSION_PRE_EVENT = 2"
definition WAL_V2_VERSION_LEGACY :: u8 where "WAL_V2_VERSION_LEGACY = 1"

definition entry_new :: "u64 \<Rightarrow> u64 \<Rightarrow> u64 \<Rightarrow> wal_op list \<Rightarrow> wal_entry" where
  "entry_new now txn repo os = \<lparr>txn_id = txn, repo_id_interned = repo, started_at_ns = now, commit_version = 0,
    ops = os, interner_delta = [], event = None\<rparr>"

definition with_event_header :: "wal_event_header \<Rightarrow> wal_entry \<Rightarrow> wal_entry" where
  "with_event_header h e = e\<lparr>event := Some h\<rparr>"

definition with_commit_version :: "u64 \<Rightarrow> wal_entry \<Rightarrow> wal_entry" where
  "with_commit_version v e = e\<lparr>commit_version := v\<rparr>"

definition decode_legacy_v1 :: "bincode \<Rightarrow> bytes \<Rightarrow> wal_entry db_result" where
  "decode_legacy_v1 bc bs =
    (case (bc_v1_pre bc bs, bc_v1_post bc bs) of
       (Some old, None) \<Rightarrow> Inr \<lparr>txn_id = o_txn_id old, repo_id_interned = o_repo_id_interned old,
         started_at_ns = o_started_at_ns old, commit_version = 0, ops = o_ops old, interner_delta = [], event = None\<rparr>
     | (None, Some new) \<Rightarrow> Inr \<lparr>txn_id = n_txn_id new, repo_id_interned = n_repo_id_interned new,
         started_at_ns = n_started_at_ns new, commit_version = n_commit_version new, ops = n_ops new,
         interner_delta = [], event = None\<rparr>
     | (Some _, Some _) \<Rightarrow> Inl (Codec ''wal_v2 decode v1: ambiguous legacy shape'')
     | (None, None) \<Rightarrow> Inl (Codec ''wal_v2 decode v1''))"

definition entry_encode :: "bincode \<Rightarrow> wal_entry \<Rightarrow> bytes db_result" where
  "entry_encode bc e =
    (case bc_serialize bc e of
       Some body \<Rightarrow> Inr (WAL_V2_MAGIC @ [WAL_V2_VERSION] @ body)
     | None \<Rightarrow> Inl (Codec ''wal_v2 encode''))"

definition validate_frame_header :: "bytes \<Rightarrow> unit db_result" where
  "validate_frame_header bs =
    (if length bs < 5 then Inl (Internal ''wal_v2 header: too short'')
     else if take 4 bs \<noteq> WAL_V2_MAGIC then Inl (Internal ''wal_v2 header: bad magic'')
     else if bs ! 4 \<in> {WAL_V2_VERSION_LEGACY, WAL_V2_VERSION_PRE_EVENT, WAL_V2_VERSION} then Inr ()
     else Inl (Internal ''wal_v2 header: unsupported version''))"

definition entry_decode :: "bincode \<Rightarrow> bytes \<Rightarrow> wal_entry db_result" where
  "entry_decode bc bs =
    (if length bs < 5 then Inl (Codec ''wal_v2 decode: too short'')
     else if take 4 bs \<noteq> WAL_V2_MAGIC then Inl (Codec ''wal_v2 decode: bad magic'')
     else let version = bs ! 4 in
       if version = WAL_V2_VERSION_LEGACY then decode_legacy_v1 bc (drop 5 bs)
       else if version = WAL_V2_VERSION_PRE_EVENT then
         (case bc_v2 bc (drop 5 bs) of
            None \<Rightarrow> Inl (Codec ''wal_v2 decode v2'')
          | Some pre \<Rightarrow> Inr \<lparr>txn_id = p_txn_id pre, repo_id_interned = p_repo_id_interned pre,
              started_at_ns = p_started_at_ns pre, commit_version = p_commit_version pre, ops = p_ops pre,
              interner_delta = p_interner_delta pre, event = None\<rparr>)
       else if version = WAL_V2_VERSION then
         (case bc_v3 bc (drop 5 bs) of None \<Rightarrow> Inl (Codec ''wal_v2 decode v3'') | Some e \<Rightarrow> Inr e)
       else Inl (Codec ''wal_v2 decode: unsupported version''))"

section \<open>Frames\<close>

definition MAX_FRAME_BYTES :: nat where "MAX_FRAME_BYTES = 64 * 1024 * 1024"

datatype frame_read = FrameEnd | Incomplete nat bool | Frame nat nat bytes bool

record frame_reader =
  reader :: bytes
  fr_length :: nat
  fr_offset :: nat

definition frame_reader_new :: "bytes \<Rightarrow> nat \<Rightarrow> frame_reader" where
  "frame_reader_new r len = \<lparr>reader = r, fr_length = len, fr_offset = 0\<rparr>"

text \<open>\<^verbatim>\<open>read_exact\<close> of \<^verbatim>\<open>n\<close> bytes; \<^const>\<open>None\<close> is an unexpected end of file.\<close>

definition read_exact :: "nat \<Rightarrow> bytes \<Rightarrow> (bytes \<times> bytes) option" where
  "read_exact n r = (if n \<le> length r then Some (take n r, drop n r) else None)"

definition frame_next :: "(bytes \<Rightarrow> u32) \<Rightarrow> frame_reader \<Rightarrow> (frame_read \<times> frame_reader) db_result" where
  "frame_next crc fr =
    (let offset = fr_offset fr; remaining = fr_length fr - offset in
     if remaining = 0 then Inr (FrameEnd, fr)
     else if remaining < 4 then Inr (Incomplete offset True, fr)
     else case read_exact 4 (reader fr) of
       None \<Rightarrow> Inr (Incomplete offset True, fr)
     | Some (header, r1) \<Rightarrow>
         (let len = unat (un_le32 header) in
          if len > MAX_FRAME_BYTES then Inl (Storage ''WAL frame exceeds payload limit'')
          else if len + 8 > remaining then Inr (Incomplete offset False, fr\<lparr>reader := r1\<rparr>)
          else case read_exact len r1 of
            None \<Rightarrow> Inr (Incomplete offset False, fr\<lparr>reader := r1\<rparr>)
          | Some (payload, r2) \<Rightarrow>
              (case read_exact 4 r2 of
                 None \<Rightarrow> Inr (Incomplete offset False, fr\<lparr>reader := r2\<rparr>)
               | Some (c, r3) \<Rightarrow>
                   (let end = offset + len + 8 in
                    Inr (Frame offset end payload (crc payload = un_le32 c),
                      fr\<lparr>reader := r3, fr_offset := end\<rparr>)))))"

lemma frame_next_progress:
  "frame_next crc fr = Inr (Frame off e p ok, fr') \<Longrightarrow>
    fr_length fr' = fr_length fr \<and> fr_length fr - fr_offset fr' < fr_length fr - fr_offset fr"
  by (auto simp: frame_next_def Let_def split: if_splits option.splits prod.splits)

section \<open>Segment\<close>

text \<open>The live handle of a segment; the file it writes to is passed beside it.\<close>

record wal_segment =
  next_seq :: u64
  max_committed :: u64
  retention_pin :: bool
  bytes_written :: nat
  poisoned :: bool

definition seg_open :: "bytes \<Rightarrow> wal_segment" where
  "seg_open file = \<lparr>next_seq = 0, max_committed = 0, retention_pin = False, bytes_written = length file, poisoned = False\<rparr>"

text \<open>The validation loop of \<^verbatim>\<open>append_batch\<close>, before anything is changed.\<close>

fun check_payloads :: "bincode \<Rightarrow> bytes list \<Rightarrow> u64 \<Rightarrow> bool \<Rightarrow> (u64 \<times> bool) db_result" where
  "check_payloads bc [] payload_max pinned = Inr (payload_max, pinned)"
| "check_payloads bc (p # ps) payload_max pinned =
    (if length p > MAX_FRAME_BYTES then Inl (Storage ''WalSegment payload exceeds frame limit'')
     else case validate_frame_header p of
       Inl e \<Rightarrow> Inl e
     | Inr _ \<Rightarrow>
         (case entry_decode bc p of
            Inr entry \<Rightarrow> check_payloads bc ps (max payload_max (commit_version entry)) (pinned \<or> commit_version entry = 0)
          | Inl e \<Rightarrow> Inl (Storage ''WalSegment append rejected: payload is not a decodable WalEntryV2 body'')))"

definition frame :: "(bytes \<Rightarrow> u32) \<Rightarrow> bytes \<Rightarrow> bytes" where
  "frame crc p = le32 (of_nat (length p)) @ p @ le32 (crc p)"

definition frames :: "(bytes \<Rightarrow> u32) \<Rightarrow> bytes list \<Rightarrow> bytes" where
  "frames crc ps = concat (map (frame crc) ps)"

text \<open>
  A write either succeeds or fails after some bytes reached the file; then the
  rollback to the last good boundary may fail as well.
\<close>

datatype write_outcome = WriteOk | WriteFails nat bool

definition write_frames :: "write_outcome \<Rightarrow> bytes \<Rightarrow> wal_segment \<Rightarrow> bytes \<Rightarrow> unit db_result \<times> wal_segment \<times> bytes" where
  "write_frames w buf seg file =
    (if poisoned seg then (Inl (Storage ''WalSegment append refused: segment is poisoned''), seg, file)
     else case w of
       WriteOk \<Rightarrow> (Inr (), seg\<lparr>bytes_written := bytes_written seg + length buf\<rparr>, file @ buf)
     | WriteFails n rolled_back \<Rightarrow>
         (Inl (Io ''WalSegment append''), seg\<lparr>poisoned := True\<rparr>,
          if rolled_back then take (bytes_written seg) (file @ take n buf) else file @ take n buf))"

definition seg_append_batch :: "bincode \<Rightarrow> (bytes \<Rightarrow> u32) \<Rightarrow> write_outcome \<Rightarrow> bytes list \<Rightarrow> u64 \<Rightarrow> wal_segment \<Rightarrow> bytes
    \<Rightarrow> u64 db_result \<times> wal_segment \<times> bytes" where
  "seg_append_batch bc crc w payloads max_version seg file =
    (if poisoned seg then (Inl (Storage ''WalSegment append refused: segment is poisoned''), seg, file)
     else case check_payloads bc payloads max_version False of
       Inl e \<Rightarrow> (Inl e, seg, file)
     | Inr (payload_max, pinned) \<Rightarrow>
         if payloads = [] then (Inr (next_seq seg), seg\<lparr>max_committed := max (max_committed seg) max_version\<rparr>, file)
         else
           (let n = of_nat (length payloads);
                last_seq = next_seq seg + n - 1;
                seg1 = seg\<lparr>next_seq := next_seq seg + n, max_committed := max (max_committed seg) payload_max,
                           retention_pin := retention_pin seg \<or> pinned\<rparr>
            in case write_frames w (frames crc payloads) seg1 file of
                 (Inr _, seg2, file') \<Rightarrow> (Inr last_seq, seg2, file')
               | (Inl e, seg2, file') \<Rightarrow> (Inl e, seg2, file')))"

definition restore_retention :: "u64 \<Rightarrow> bool \<Rightarrow> wal_segment \<Rightarrow> wal_segment" where
  "restore_retention max_version pinned seg =
    seg\<lparr>max_committed := max (max_committed seg) max_version, retention_pin := retention_pin seg \<or> pinned\<rparr>"

text \<open>\<^verbatim>\<open>sync\<close>: the outcome of \<^verbatim>\<open>sync_all\<close> is the first argument.\<close>

definition seg_sync :: "bool \<Rightarrow> wal_segment \<Rightarrow> unit db_result \<times> wal_segment" where
  "seg_sync ok seg = (if ok then (Inr (), seg) else (Inl (Io ''WalSegment sync''), seg\<lparr>poisoned := True\<rparr>))"

text \<open>The scan of \<^verbatim>\<open>repair_torn_tail\<close>: where to cut, if anywhere.\<close>

function repair_scan :: "(bytes \<Rightarrow> u32) \<Rightarrow> frame_reader \<Rightarrow> nat option db_result" where
  "repair_scan crc fr =
    (case frame_next crc fr of
       Inl e \<Rightarrow> Inl e
     | Inr (FrameEnd, _) \<Rightarrow> Inr None
     | Inr (Incomplete offset _, _) \<Rightarrow> Inr (Some offset)
     | Inr (Frame offset end _ crc_ok, fr') \<Rightarrow>
         if \<not> crc_ok then
           if end = fr_length fr then Inr (Some offset)
           else Inl (Storage ''WalSegment repair found complete CRC-bad frame'')
         else repair_scan crc fr')"
  by pat_completeness auto
termination
  by (relation "measure (\<lambda>(crc, fr). fr_length fr - fr_offset fr)") (auto dest: frame_next_progress)

definition repair_torn_tail :: "(bytes \<Rightarrow> u32) \<Rightarrow> wal_segment \<Rightarrow> bytes \<Rightarrow> unit db_result \<times> wal_segment \<times> bytes" where
  "repair_torn_tail crc seg file =
    (case repair_scan crc (frame_reader_new file (length file)) of
       Inl e \<Rightarrow> (Inl e, seg, file)
     | Inr None \<Rightarrow> (Inr (), seg, file)
     | Inr (Some pos) \<Rightarrow> (Inr (), seg\<lparr>bytes_written := pos\<rparr>, take pos file))"

text \<open>Opening a file for replay, with the bounded retry of a denial.\<close>

datatype open_outcome = Opened bytes | OpenNotFound | OpenDenied | OpenFailed

definition OPEN_DENIED_ATTEMPTS :: nat where "OPEN_DENIED_ATTEMPTS = 50"

function open_for_replay :: "(nat \<Rightarrow> open_outcome) \<Rightarrow> bool \<Rightarrow> nat \<Rightarrow> bytes option db_result" where
  "open_for_replay opens tolerate attempt =
    (case opens attempt of
       Opened f \<Rightarrow> Inr (Some f)
     | OpenNotFound \<Rightarrow> Inr None
     | OpenDenied \<Rightarrow>
         if tolerate then Inr None
         else if attempt + 1 < OPEN_DENIED_ATTEMPTS then open_for_replay opens tolerate (attempt + 1)
         else Inl (Io ''WalSegment replay open: PermissionDenied'')
     | OpenFailed \<Rightarrow> Inl (Io ''WalSegment replay open''))"
  by pat_completeness auto
termination
  by (relation "measure (\<lambda>(opens, tol, attempt). OPEN_DENIED_ATTEMPTS - attempt)") auto

function replay_loop :: "bincode \<Rightarrow> (bytes \<Rightarrow> u32) \<Rightarrow> bool \<Rightarrow> frame_reader \<Rightarrow> wal_entry list \<Rightarrow> wal_entry list db_result" where
  "replay_loop bc crc seald fr out =
    (case frame_next crc fr of
       Inl e \<Rightarrow> Inl e
     | Inr (FrameEnd, _) \<Rightarrow> Inr out
     | Inr (Incomplete _ _, _) \<Rightarrow> if seald then Inl (Storage ''WalSegment replay (sealed): incomplete frame'') else Inr out
     | Inr (Frame _ _ payload crc_ok, fr') \<Rightarrow>
         if \<not> crc_ok then (if seald then Inl (Storage ''WalSegment replay (sealed): CRC mismatch'') else Inr out)
         else (case entry_decode bc payload of Inl e \<Rightarrow> Inl e | Inr entry \<Rightarrow> replay_loop bc crc seald fr' (out @ [entry])))"
  by pat_completeness auto
termination
  by (relation "measure (\<lambda>(bc, crc, seald, fr, out). fr_length fr - fr_offset fr)") (auto dest: frame_next_progress)

definition replay_inner :: "bincode \<Rightarrow> (bytes \<Rightarrow> u32) \<Rightarrow> bool \<Rightarrow> bool \<Rightarrow> (nat \<Rightarrow> open_outcome) \<Rightarrow> wal_entry list db_result" where
  "replay_inner bc crc seald tolerate opens =
    (case open_for_replay opens tolerate 0 of
       Inl e \<Rightarrow> Inl e
     | Inr None \<Rightarrow> Inr []
     | Inr (Some f) \<Rightarrow> replay_loop bc crc seald (frame_reader_new f (length f)) [])"

text \<open>\<^verbatim>\<open>decode_snapshot\<close> of \<^verbatim>\<open>segment_set/sync_snapshot.rs\<close>: the first bytes of a file, strictly.\<close>

function snapshot_loop :: "bincode \<Rightarrow> (bytes \<Rightarrow> u32) \<Rightarrow> frame_reader \<Rightarrow> wal_entry list \<Rightarrow> wal_entry list db_result" where
  "snapshot_loop bc crc fr out =
    (case frame_next crc fr of
       Inl e \<Rightarrow> Inl e
     | Inr (FrameEnd, _) \<Rightarrow> Inr out
     | Inr (Incomplete _ _, _) \<Rightarrow> Inl (Storage ''torn WAL snapshot frame'')
     | Inr (Frame _ _ payload crc_ok, fr') \<Rightarrow>
         if \<not> crc_ok then Inl (Storage ''WAL snapshot checksum mismatch'')
         else (case entry_decode bc payload of Inl e \<Rightarrow> Inl e | Inr entry \<Rightarrow> snapshot_loop bc crc fr' (out @ [entry])))"
  by pat_completeness auto
termination
  by (relation "measure (\<lambda>(bc, crc, fr, out). fr_length fr - fr_offset fr)") (auto dest: frame_next_progress)

definition decode_snapshot :: "bincode \<Rightarrow> (bytes \<Rightarrow> u32) \<Rightarrow> bytes \<Rightarrow> nat \<Rightarrow> wal_entry list db_result" where
  "decode_snapshot bc crc r len = snapshot_loop bc crc (frame_reader_new r len) []"

declare repair_scan.simps [simp del] replay_loop.simps [simp del] snapshot_loop.simps [simp del] open_for_replay.simps [simp del]

section \<open>Reading back what was written\<close>

text \<open>A payload that \<^verbatim>\<open>append_batch\<close> accepts, and the entry it carries.\<close>

definition payload_ok :: "bincode \<Rightarrow> bytes \<Rightarrow> bool" where
  "payload_ok bc p = (length p \<le> MAX_FRAME_BYTES \<and> validate_frame_header p = Inr () \<and> (case entry_decode bc p of Inr _ \<Rightarrow> True | Inl _ \<Rightarrow> False))"

definition entries_of :: "bincode \<Rightarrow> bytes list \<Rightarrow> wal_entry list" where
  "entries_of bc ps = map (projr \<circ> entry_decode bc) ps"

lemma entries_of_simps [simp]:
  "entries_of bc [] = []" "entries_of bc (p # ps) = projr (entry_decode bc p) # entries_of bc ps"
  "entries_of bc (ps @ qs) = entries_of bc ps @ entries_of bc qs"
  by (simp_all add: entries_of_def)

lemma payload_okD:
  assumes "payload_ok bc p"
  shows "length p \<le> MAX_FRAME_BYTES" "entry_decode bc p = Inr (projr (entry_decode bc p))"
  using assms by (auto simp: payload_ok_def split: sum.splits)

lemma frames_simps [simp]:
  "frames crc [] = []" "frames crc (p # ps) = frame crc p @ frames crc ps" "frames crc (ps @ qs) = frames crc ps @ frames crc qs"
  by (simp_all add: frames_def)

lemma length_frame [simp]: "length (frame crc p) = length p + 8"
  by (simp add: frame_def)

lemma frame_length_fits: "n \<le> MAX_FRAME_BYTES \<Longrightarrow> unat (of_nat n :: u32) = n"
  by (simp add: MAX_FRAME_BYTES_def unat_of_nat)

text \<open>A reader at an offset with all the remaining bytes of the file before it.\<close>

definition reader_at :: "nat \<Rightarrow> bytes \<Rightarrow> frame_reader" where
  "reader_at off r = \<lparr>reader = r, fr_length = off + length r, fr_offset = off\<rparr>"

lemma reader_new [simp]: "n = length r \<Longrightarrow> frame_reader_new r n = reader_at 0 r"
  by (simp add: frame_reader_new_def reader_at_def)

lemma frame_next_shape:
  assumes "length p \<le> MAX_FRAME_BYTES" and "length c = 4"
  shows "frame_next crc (reader_at off (le32 (of_nat (length p)) @ p @ c @ rest))
    = Inr (Frame off (off + length p + 8) p (crc p = un_le32 c), reader_at (off + length p + 8) rest)"
  using assms by (simp add: frame_next_def reader_at_def read_exact_def Let_def frame_length_fits)

lemma frame_next_frame:
  assumes "length p \<le> MAX_FRAME_BYTES"
  shows "frame_next crc (reader_at off (frame crc p @ rest))
    = Inr (Frame off (off + length p + 8) p True, reader_at (off + length p + 8) rest)"
  using frame_next_shape[OF assms, of "le32 (crc p)" crc off rest] by (simp add: frame_def)

lemma frame_next_empty: "frame_next crc (reader_at off []) = Inr (FrameEnd, reader_at off [])"
  by (simp add: frame_next_def reader_at_def)

text \<open>A proper, non-empty beginning of a frame.\<close>

definition torn :: "(bytes \<Rightarrow> u32) \<Rightarrow> bytes \<Rightarrow> bool" where
  "torn crc t = (\<exists>p k. length p \<le> MAX_FRAME_BYTES \<and> 0 < k \<and> k < length p + 8 \<and> t = take k (frame crc p))"

lemma frame_next_torn:
  assumes "torn crc t"
  shows "\<exists>header fr. frame_next crc (reader_at off t) = Inr (Incomplete off header, fr)"
proof -
  obtain p k where p: "length p \<le> MAX_FRAME_BYTES" "0 < k" "k < length p + 8" and t: "t = take k (frame crc p)"
    using assms by (auto simp: torn_def)
  have len: "length t = k" using p by (simp add: t)
  show ?thesis
  proof (cases "k < 4")
    case True
    then show ?thesis using len p(2) by (auto simp: frame_next_def reader_at_def)
  next
    case False
    then have "take 4 t = le32 (of_nat (length p))" by (simp add: t frame_def)
    moreover have "t \<noteq> []" using len p(2) by auto
    ultimately show ?thesis using False len p by (auto simp: frame_next_def reader_at_def read_exact_def Let_def frame_length_fits)
  qed
qed

lemma repair_scan_frames:
  assumes "\<forall>p\<in>set ps. length p \<le> MAX_FRAME_BYTES"
  shows "repair_scan crc (reader_at off (frames crc ps @ rest)) = repair_scan crc (reader_at (off + length (frames crc ps)) rest)"
  using assms
proof (induction ps arbitrary: off)
  case (Cons p ps)
  then show ?case by (subst repair_scan.simps) (simp add: frame_next_frame ac_simps)
qed simp

lemma replay_loop_frames:
  assumes "\<forall>p\<in>set ps. payload_ok bc p"
  shows "replay_loop bc crc seald (reader_at off (frames crc ps @ rest)) out
    = replay_loop bc crc seald (reader_at (off + length (frames crc ps)) rest) (out @ entries_of bc ps)"
  using assms
proof (induction ps arbitrary: off out)
  case (Cons p ps)
  then have p: "length p \<le> MAX_FRAME_BYTES" "entry_decode bc p = Inr (projr (entry_decode bc p))" using payload_okD by auto
  show ?case
    by (subst replay_loop.simps, simp only: frames_simps append_assoc frame_next_frame[OF p(1)] prod.case sum.case frame_read.case)
      (subst p(2), use Cons in \<open>simp add: ac_simps\<close>)
qed simp

lemma repair_scan_tail:
  "repair_scan crc (reader_at off []) = Inr None"
  "torn crc t \<Longrightarrow> repair_scan crc (reader_at off t) = Inr (Some off)"
  using frame_next_torn[of crc t off] by (auto simp: repair_scan.simps frame_next_empty)

lemma replay_loop_tail:
  "replay_loop bc crc seald (reader_at off []) out = Inr out"
  "torn crc t \<Longrightarrow> replay_loop bc crc seald (reader_at off t) out
    = (if seald then Inl (Storage ''WalSegment replay (sealed): incomplete frame'') else Inr out)"
  using frame_next_torn[of crc t off] by (auto simp: replay_loop.simps frame_next_empty)

lemma snapshot_loop_prefix:
  assumes "\<forall>p\<in>set ps. payload_ok bc p" and "len = off + length (frames crc ps)"
  shows "snapshot_loop bc crc \<lparr>reader = frames crc ps @ rest, fr_length = len, fr_offset = off\<rparr> out = Inr (out @ entries_of bc ps)"
  using assms
proof (induction ps arbitrary: off out)
  case Nil
  then show ?case by (simp add: snapshot_loop.simps frame_next_def)
next
  case (Cons p ps)
  then have p: "length p \<le> MAX_FRAME_BYTES" "entry_decode bc p = Inr (projr (entry_decode bc p))" using payload_okD by auto
  have n: "frame_next crc \<lparr>reader = frames crc (p # ps) @ rest, fr_length = len, fr_offset = off\<rparr>
      = Inr (Frame off (off + length p + 8) p True, \<lparr>reader = frames crc ps @ rest, fr_length = len, fr_offset = off + length p + 8\<rparr>)"
    using p(1) Cons.prems(2) by (simp add: frame_next_def read_exact_def Let_def frame_def frame_length_fits)
  show ?case
    by (subst snapshot_loop.simps, simp only: n prod.case sum.case frame_read.case) (subst p(2), use Cons in simp)
qed

lemma snapshot_torn:
  assumes "\<forall>p\<in>set ps. payload_ok bc p" and "torn crc t"
  shows "snapshot_loop bc crc (reader_at off (frames crc ps @ t)) out = Inl (Storage ''torn WAL snapshot frame'')"
  using assms(1)
proof (induction ps arbitrary: off out)
  case Nil
  then show ?case using frame_next_torn[OF assms(2), of off] by (auto simp: snapshot_loop.simps)
next
  case (Cons p ps)
  then have p: "length p \<le> MAX_FRAME_BYTES" "entry_decode bc p = Inr (projr (entry_decode bc p))" using payload_okD by auto
  show ?case
    by (subst snapshot_loop.simps, simp only: frames_simps append_assoc frame_next_frame[OF p(1)] prod.case sum.case frame_read.case)
      (subst p(2), use Cons in simp)
qed

text \<open>Any beginning of a file of frames is some of the frames and possibly the beginning of the next.\<close>

lemma take_frames:
  assumes "\<forall>p\<in>set ps. length p \<le> MAX_FRAME_BYTES"
  shows "\<exists>n t. n \<le> length ps \<and> take k (frames crc ps) = frames crc (take n ps) @ t \<and> (t = [] \<or> torn crc t)
    \<and> (n < length ps \<longrightarrow> k < length (frames crc (take (Suc n) ps)))"
  using assms
proof (induction ps arbitrary: k)
  case (Cons p ps)
  show ?case
  proof (cases "k < length p + 8")
    case True
    then have "take k (frames crc (p # ps)) = frames crc (take 0 (p # ps)) @ take k (frame crc p)" by simp
    moreover have "take k (frame crc p) = [] \<or> torn crc (take k (frame crc p))"
      using True Cons.prems by (auto simp: torn_def)
    ultimately show ?thesis using True by (intro exI[of _ 0] exI[of _ "take k (frame crc p)"]) simp
  next
    case False
    then obtain n t where "n \<le> length ps" "take (k - (length p + 8)) (frames crc ps) = frames crc (take n ps) @ t" "t = [] \<or> torn crc t"
        "n < length ps \<longrightarrow> k - (length p + 8) < length (frames crc (take (Suc n) ps))"
      using Cons.IH[of "k - (length p + 8)"] Cons.prems by auto
    then show ?thesis using False by (intro exI[of _ "Suc n"] exI[of _ t]) auto
  qed
qed simp

lemma entry_roundtrip:
  assumes "\<forall>e body. bc_serialize bc e = Some body \<longrightarrow> bc_v3 bc body = Some e" and "entry_encode bc e = Inr p"
  shows "entry_decode bc p = Inr e" "validate_frame_header p = Inr ()"
proof -
  obtain body where "bc_serialize bc e = Some body" "p = WAL_V2_MAGIC @ [WAL_V2_VERSION] @ body"
    using assms(2) by (auto simp: entry_encode_def split: option.splits)
  moreover have "bc_v3 bc body = Some e" using assms(1) calculation(1) by blast
  ultimately show "entry_decode bc p = Inr e" "validate_frame_header p = Inr ()"
    by (simp_all add: entry_decode_def validate_frame_header_def WAL_V2_MAGIC_def WAL_V2_VERSION_def WAL_V2_VERSION_LEGACY_def
        WAL_V2_VERSION_PRE_EVENT_def)
qed

lemma check_payloads_iff:
  "check_payloads bc ps m pin = Inr (pm, pn) \<longleftrightarrow> (\<forall>p\<in>set ps. payload_ok bc p)
    \<and> pm = fold (\<lambda>e m. max m (commit_version e)) (entries_of bc ps) m \<and> (pn \<longleftrightarrow> pin \<or> (\<exists>e\<in>set (entries_of bc ps). commit_version e = 0))"
proof (induction ps arbitrary: m pin)
  case (Cons p ps)
  then show ?case by (auto simp: payload_ok_def split: sum.splits)
qed auto

lemma fold_max_upper:
  "m \<le> fold (\<lambda>e m. max m (commit_version e)) es m" "e \<in> set es \<Longrightarrow> commit_version e \<le> fold (\<lambda>e m. max m (commit_version e)) es m"
proof -
  show up: "m \<le> fold (\<lambda>e m. max m (commit_version e)) es m" for m es
  proof (induction es arbitrary: m)
    case (Cons e es)
    show ?case using order_trans[OF max.cobounded1 Cons.IH[of "max m (commit_version e)"]] by simp
  qed simp
  show "e \<in> set es \<Longrightarrow> commit_version e \<le> fold (\<lambda>e m. max m (commit_version e)) es m"
  proof (induction es arbitrary: m)
    case (Cons x es)
    then show ?case using up[of "max m (commit_version x)" es] by (auto intro: order_trans)
  qed simp
qed

lemma replay_intact:
  "\<forall>p\<in>set ps. payload_ok bc p \<Longrightarrow> replay_inner bc crc seald tol (\<lambda>_. Opened (frames crc ps)) = Inr (entries_of bc ps)"
  using replay_loop_frames[of ps bc crc seald 0 "[]" "[]"] by (simp add: replay_inner_def open_for_replay.simps replay_loop_tail)

lemma replay_torn:
  assumes "\<forall>p\<in>set ps. payload_ok bc p" and "torn crc t"
  shows "replay_inner bc crc seald tol (\<lambda>_. Opened (frames crc ps @ t))
    = (if seald then Inl (Storage ''WalSegment replay (sealed): incomplete frame'') else Inr (entries_of bc ps))"
  using replay_loop_frames[OF assms(1), of crc seald 0 t "[]"] assms(2)
  by (simp add: replay_inner_def open_for_replay.simps replay_loop_tail)

lemma repair_torn:
  assumes "\<forall>p\<in>set ps. length p \<le> MAX_FRAME_BYTES" and "t = [] \<or> torn crc t" and "bytes_written seg = length (frames crc ps @ t)"
  shows "repair_torn_tail crc seg (frames crc ps @ t) = (Inr (), seg\<lparr>bytes_written := length (frames crc ps)\<rparr>, frames crc ps)"
  using assms repair_scan_frames[OF assms(1), of crc 0 t]
  by (auto simp: repair_torn_tail_def repair_scan_tail split: option.splits)

section \<open>Properties\<close>

text \<open>A codec that knows one entry, for the examples.\<close>

definition sample_entry :: wal_entry where
  "sample_entry = with_commit_version 7 (entry_new 0 1 2 [Delete 3 (replicate 16 0)])"

definition sample_bincode :: bincode where
  "sample_bincode = \<lparr>bc_serialize = (\<lambda>e. if e = sample_entry then Some [1] else None),
    bc_v3 = (\<lambda>b. if b = [1] then Some sample_entry else None), bc_v2 = (\<lambda>_. None), bc_v1_pre = (\<lambda>_. None), bc_v1_post = (\<lambda>_. None)\<rparr>"

definition sample_payload :: bytes where "sample_payload = WAL_V2_MAGIC @ [WAL_V2_VERSION] @ [1]"

lemma sample_codec:
  "\<forall>e body. bc_serialize sample_bincode e = Some body \<longrightarrow> bc_v3 sample_bincode body = Some e"
  "entry_encode sample_bincode sample_entry = Inr sample_payload" "length sample_payload \<le> MAX_FRAME_BYTES"
  by (simp_all add: sample_bincode_def entry_encode_def sample_payload_def MAX_FRAME_BYTES_def WAL_V2_MAGIC_def)

lemma sample_payload_ok: "payload_ok sample_bincode sample_payload" "entries_of sample_bincode [sample_payload] = [sample_entry]"
  using entry_roundtrip[OF sample_codec(1,2)] sample_codec(3) by (simp_all add: payload_ok_def)

text \<open>C32: Entries that are encoded and appended to an intact segment are replayed exactly and in order,
  after the entries that were there before, from an active and from a sealed segment; and a snapshot
  bounded by the length published before the append still sees only the earlier ones.\<close>

theorem append_replay_roundtrip:
  assumes "\<forall>e body. bc_serialize bc e = Some body \<longrightarrow> bc_v3 bc body = Some e"
    and "map (entry_encode bc) es = map Inr ps" and "\<forall>p\<in>set ps. length p \<le> MAX_FRAME_BYTES"
    and "\<forall>p\<in>set old. payload_ok bc p" and "\<not> poisoned seg" and "bytes_written seg = length (frames crc old)"
  shows "\<exists>n seg' file'. seg_append_batch bc crc WriteOk ps v seg (frames crc old) = (Inr n, seg', file') \<and> \<not> poisoned seg'
    \<and> bytes_written seg' = length file'
    \<and> replay_inner bc crc seald tol (\<lambda>_. Opened file') = Inr (entries_of bc old @ es)
    \<and> decode_snapshot bc crc file' (bytes_written seg) = Inr (entries_of bc old)"
proof -
  have each: "payload_ok bc (ps ! i) \<and> entry_decode bc (ps ! i) = Inr (es ! i)" if "i < length ps" for i
  proof -
    have "length es = length ps" using assms(2) by (metis length_map)
    then have "entry_encode bc (es ! i) = Inr (ps ! i)" using assms(2) that by (metis nth_map)
    from entry_roundtrip[OF assms(1) this] assms(3) that show ?thesis by (simp add: payload_ok_def)
  qed
  then have ok: "\<forall>p\<in>set ps. payload_ok bc p" by (metis in_set_conv_nth)
  have "length es = length ps" using assms(2) by (metis length_map)
  then have es: "entries_of bc ps = es" using each by (auto simp: entries_of_def intro!: nth_equalityI)
  obtain pm pn where c: "check_payloads bc ps v False = Inr (pm, pn)" using ok check_payloads_iff by blast
  have r: "replay_inner bc crc seald tol (\<lambda>_. Opened (frames crc (old @ ps))) = Inr (entries_of bc old @ es)"
    using replay_intact[of "old @ ps" bc crc seald tol] assms(4) ok by (simp add: es ball_Un)
  have d: "decode_snapshot bc crc (frames crc (old @ ps)) (bytes_written seg) = Inr (entries_of bc old)"
    using snapshot_loop_prefix[OF assms(4), of "bytes_written seg" 0 crc "frames crc ps" "[]"] assms(6)
    by (simp add: decode_snapshot_def frame_reader_new_def)
  show ?thesis
  proof (cases "ps = []")
    case True
    then show ?thesis using c r d assms(5,6) by (simp add: seg_append_batch_def)
  next
    case False
    then show ?thesis using c r d assms(5,6) by (simp add: seg_append_batch_def write_frames_def Let_def)
  qed
qed

theorem append_replay_roundtrip_witness:
  "\<exists>n seg' file'. seg_append_batch sample_bincode (\<lambda>_. 9) WriteOk [sample_payload, sample_payload] 7 (seg_open []) [] = (Inr n, seg', file')
    \<and> replay_inner sample_bincode (\<lambda>_. 9) True False (\<lambda>_. Opened file') = Inr [sample_entry, sample_entry]"
proof -
  have "map (entry_encode sample_bincode) [sample_entry, sample_entry] = map Inr [sample_payload, sample_payload]"
    by (simp add: sample_codec)
  from append_replay_roundtrip[OF sample_codec(1) this, of "[]" "seg_open []" "\<lambda>_. 9" 7 True False] show ?thesis
    by (auto simp: sample_codec seg_open_def)
qed

text \<open>C33: Whatever beginning of an appended file survives a crash, repair keeps exactly the whole frames in
  it: the repaired file is intact, replays to the entries of those frames, and no frame that
  survived completely is lost.\<close>

theorem torn_tail_repaired:
  assumes "\<forall>p\<in>set ps. payload_ok bc p" and "file = take k (frames crc ps)"
  shows "\<exists>n \<le> length ps. repair_torn_tail crc (seg_open file) file
      = (Inr (), (seg_open file)\<lparr>bytes_written := length (frames crc (take n ps))\<rparr>, frames crc (take n ps))
    \<and> replay_inner bc crc seald tol (\<lambda>_. Opened (frames crc (take n ps))) = Inr (entries_of bc (take n ps))
    \<and> (n < length ps \<longrightarrow> k < length (frames crc (take (Suc n) ps)))"
proof -
  have len: "\<forall>p\<in>set ps. length p \<le> MAX_FRAME_BYTES" using assms(1) payload_okD by blast
  obtain n t where n: "n \<le> length ps" "file = frames crc (take n ps) @ t" "t = [] \<or> torn crc t"
      "n < length ps \<longrightarrow> k < length (frames crc (take (Suc n) ps))"
    using take_frames[OF len, of k crc] assms(2) by blast
  have sub: "\<forall>p\<in>set (take n ps). payload_ok bc p" "\<forall>p\<in>set (take n ps). length p \<le> MAX_FRAME_BYTES"
    using assms(1) len by (meson in_set_takeD)+
  have "repair_torn_tail crc (seg_open file) file
      = (Inr (), (seg_open file)\<lparr>bytes_written := length (frames crc (take n ps))\<rparr>, frames crc (take n ps))"
    unfolding n(2) by (rule repair_torn[OF sub(2) n(3)]) (simp add: seg_open_def)
  with n(1,4) replay_intact[OF sub(1)] show ?thesis by blast
qed

theorem torn_tail_repaired_witness:
  "\<exists>n \<le> 2. repair_torn_tail (\<lambda>_. 9) (seg_open (take 20 (frames (\<lambda>_. 9) [sample_payload, sample_payload])))
        (take 20 (frames (\<lambda>_. 9) [sample_payload, sample_payload]))
      = (Inr (), seg_open (frames (\<lambda>_. 9) (replicate n sample_payload)), frames (\<lambda>_. 9) (replicate n sample_payload))
    \<and> (n < 2 \<longrightarrow> 20 < length (frames (\<lambda>_. 9) (take (Suc n) [sample_payload, sample_payload])))"
proof -
  have "\<forall>p\<in>set [sample_payload, sample_payload]. payload_ok sample_bincode p" by (simp add: sample_payload_ok)
  from torn_tail_repaired[where crc = "\<lambda>_. 9" and k = 20 and seald = True and tol = True, OF this refl] obtain n where "n \<le> 2" and
    "repair_torn_tail (\<lambda>_. 9) (seg_open (take 20 (frames (\<lambda>_. 9) [sample_payload, sample_payload])))
        (take 20 (frames (\<lambda>_. 9) [sample_payload, sample_payload]))
      = (Inr (), (seg_open (take 20 (frames (\<lambda>_. 9) [sample_payload, sample_payload])))
          \<lparr>bytes_written := length (frames (\<lambda>_. 9) (take n [sample_payload, sample_payload]))\<rparr>,
         frames (\<lambda>_. 9) (take n [sample_payload, sample_payload]))"
    and "n < 2 \<longrightarrow> 20 < length (frames (\<lambda>_. 9) (take (Suc n) [sample_payload, sample_payload]))"
    by (auto simp: numeral_2_eq_2)
  moreover have "take m [sample_payload, sample_payload] = replicate m sample_payload" if "m \<le> 2" for m
    using that take_replicate[of m 2 sample_payload] by (simp add: numeral_2_eq_2)
  ultimately show ?thesis by (intro exI[of _ n]) (simp add: seg_open_def)
qed

text \<open>C34: A complete frame whose checksum does not match is never passed over in silence: in a sealed
  segment replay fails, and repair refuses to touch a file in which anything follows the
  frame; only a bad last frame is cut off, at the end of the good ones.\<close>

theorem corruption_refused:
  assumes "\<forall>p\<in>set ps. payload_ok bc p" and "length p \<le> MAX_FRAME_BYTES" and "length c = 4" and "un_le32 c \<noteq> crc p"
    and "file = frames crc ps @ (le32 (of_nat (length p)) @ p @ c) @ rest"
  shows "(\<exists>e. replay_inner bc crc True tol (\<lambda>_. Opened file) = Inl e)
    \<and> (if rest = [] then repair_torn_tail crc seg file = (Inr (), seg\<lparr>bytes_written := length (frames crc ps)\<rparr>, frames crc ps)
       else \<exists>e. repair_torn_tail crc seg file = (Inl e, seg, file))"
proof -
  let ?bad = "le32 (of_nat (length p)) @ p @ c @ rest"
  have len: "\<forall>q\<in>set ps. length q \<le> MAX_FRAME_BYTES" using assms(1) payload_okD by blast
  have bad: "frame_next crc (reader_at off ?bad) = Inr (Frame off (off + length p + 8) p False, reader_at (off + length p + 8) rest)" for off
    using frame_next_shape[OF assms(2,3), of crc off rest] assms(4) by simp
  have "\<exists>e. replay_inner bc crc True tol (\<lambda>_. Opened file) = Inl e"
    using replay_loop_frames[OF assms(1), of crc True 0 ?bad "[]"]
    by (simp add: assms(5) replay_inner_def open_for_replay.simps replay_loop.simps[of _ _ _ "reader_at _ ?bad"] bad)
  moreover have "repair_scan crc (reader_at 0 (frames crc ps @ ?bad))
      = (if rest = [] then Inr (Some (length (frames crc ps))) else Inl (Storage ''WalSegment repair found complete CRC-bad frame''))"
    using repair_scan_frames[OF len, of crc 0 ?bad] assms(3)
    by (simp add: repair_scan.simps[of _ "reader_at _ ?bad"] bad) (simp add: reader_at_def)
  ultimately show ?thesis by (cases "rest = []") (simp_all add: assms(5) repair_torn_tail_def)
qed

theorem corruption_refused_witness:
  "\<exists>e. repair_torn_tail (\<lambda>_. 9) (seg_open []) (frames (\<lambda>_. 9) [sample_payload] @ (le32 1 @ [5] @ le32 8) @ [0])
    = (Inl e, seg_open [], frames (\<lambda>_. 9) [sample_payload] @ (le32 1 @ [5] @ le32 8) @ [0])"
  using corruption_refused[of "[sample_payload]" sample_bincode "[5]" "le32 8" "\<lambda>_. 9" _ "[0]" True "seg_open []", OF _ _ _ _ refl]
  by (simp add: sample_payload_ok MAX_FRAME_BYTES_def)

end
