(* ===== verification/SegmentSet.thy ===== *)
theory SegmentSet
  imports WalFrame HashMap
begin

text \<open>
  The segmented log of \<^verbatim>\<open>shamir-wal/src/segment_set/segment_set.rs\<close>: a directory of
  numbered segments of which the last is active, with rotation, recovery from a failed
  write, truncation and reopening, and the sidecar of a sealed segment
  (\<^verbatim>\<open>entry/segment_meta.rs\<close>).  A directory holds the bytes of every segment file and
  sidecar by sequence number, and how many bytes of each segment an fsync has made
  durable, which no operation reads.  Outcomes of system calls are arguments.  One
  appender and one truncator run at a time, as the callers' locks have it.
\<close>

section \<open>Sidecars\<close>

definition META_MAGIC :: bytes where "META_MAGIC = [0x57, 0x4D, 0x54, 0x33]"
definition LEGACY_MAGIC :: bytes where "LEGACY_MAGIC = [0x57, 0x4D, 0x54, 0x32]"
definition META_VERSION :: u8 where "META_VERSION = 3"
definition META_BODY_LEN :: nat where "META_BODY_LEN = 4 + 1 + 8 + 1"
definition META_TOTAL_LEN :: nat where "META_TOTAL_LEN = META_BODY_LEN + 4"

definition meta_encode :: "(bytes \<Rightarrow> u32) \<Rightarrow> u64 \<Rightarrow> bool \<Rightarrow> bytes" where
  "meta_encode crc max_version pinned =
    (let body = META_MAGIC @ [META_VERSION] @ le64 max_version @ [if pinned then 1 else 0]
     in body @ le32 (crc body))"

definition meta_decode :: "(bytes \<Rightarrow> u32) \<Rightarrow> bytes \<Rightarrow> (u64 \<times> bool option) option" where
  "meta_decode crc buf =
    (if length buf = 17 \<and> slice 0 4 buf = LEGACY_MAGIC \<and> buf ! 4 = 2 then
       (if crc (take 13 buf) \<noteq> un_le32 (slice 13 17 buf) then None
        else Some (un_le64 (slice 5 13 buf), None))
     else if length buf \<noteq> META_TOTAL_LEN \<or> slice 0 4 buf \<noteq> META_MAGIC \<or> buf ! 4 \<noteq> META_VERSION then None
     else if buf ! 13 \<notin> {0, 1} then None
     else if crc (take META_BODY_LEN buf) \<noteq> un_le32 (slice 14 18 buf) then None
     else Some (un_le64 (slice 5 13 buf), Some (buf ! 13 = 1)))"

lemma meta_roundtrip [enc_simps]: "meta_decode crc (meta_encode crc mv pin) = Some (mv, Some pin)"
proof -
  let ?body = "META_MAGIC @ [META_VERSION] @ le64 mv @ [if pin then 1 else 0]"
  have len: "length ?body = 14" by (simp add: META_MAGIC_def)
  have "meta_encode crc mv pin = ?body @ le32 (crc ?body)" by (simp add: meta_encode_def Let_def)
  moreover have "take 14 (?body @ le32 (crc ?body)) = ?body" "slice 14 18 (?body @ le32 (crc ?body)) = le32 (crc ?body)"
    using len by (simp_all add: slice_def)
  moreover have "slice 5 13 (?body @ le32 (crc ?body)) = le64 mv" by (simp add: slice_def META_MAGIC_def)
  moreover have "(?body @ le32 (crc ?body)) ! 13 = (if pin then 1 else 0)" by (simp add: META_MAGIC_def nth_append nth_Cons')
  ultimately show ?thesis
    by (simp add: meta_decode_def META_TOTAL_LEN_def META_BODY_LEN_def slice_def META_MAGIC_def META_VERSION_def)
qed

section \<open>File names\<close>

definition digit_char :: "nat \<Rightarrow> char" where "digit_char d = char_of (48 + d)"

fun decimal :: "nat \<Rightarrow> string" where
  "decimal n = (if n < 10 then [digit_char n] else decimal (n div 10) @ [digit_char (n mod 10)])"

definition seg_file_name :: "nat \<Rightarrow> string" where
  "seg_file_name seq = replicate (8 - length (decimal seq)) (CHR ''0'') @ decimal seq @ ''.wal''"

fun parse_digits :: "string \<Rightarrow> nat \<Rightarrow> nat option" where
  "parse_digits [] acc = Some acc"
| "parse_digits (c # cs) acc =
    (let d = (of_char c :: nat) in if 48 \<le> d \<and> d \<le> 57 then parse_digits cs (10 * acc + (d - 48)) else None)"

text \<open>\<^verbatim>\<open>str::parse::<u64>\<close>: an optional plus sign, then digits, within range.\<close>

definition parse_u64 :: "string \<Rightarrow> nat option" where
  "parse_u64 s =
    (let ds = (if s \<noteq> [] \<and> hd s = CHR ''+'' then tl s else s) in
     if ds = [] then None
     else case parse_digits ds 0 of None \<Rightarrow> None | Some n \<Rightarrow> if n < 2 ^ 64 then Some n else None)"

definition strip_wal :: "string \<Rightarrow> string option" where
  "strip_wal name = (let n = length name - 4 in if 4 \<le> length name \<and> drop n name = ''.wal'' then Some (take n name) else None)"

definition parse_seg_seq :: "string \<Rightarrow> nat option" where
  "parse_seg_seq name =
    (case strip_wal name of
       None \<Rightarrow> None
     | Some stem \<Rightarrow> (case parse_u64 stem of None \<Rightarrow> None | Some seq \<Rightarrow> if seg_file_name seq = name then Some seq else None))"

fun scan_names :: "string list \<Rightarrow> nat list db_result" where
  "scan_names [] = Inr []"
| "scan_names (name # names) =
    (case parse_seg_seq name of
       Some seq \<Rightarrow> map_sum id ((#) seq) (scan_names names)
     | None \<Rightarrow>
         (case strip_wal name of
            Some stem \<Rightarrow> if parse_u64 stem \<noteq> None then Inl (Storage ''SegmentSet discovered non-canonical segment name'') else scan_names names
          | None \<Rightarrow> scan_names names))"

fun adjacent_equal :: "nat list \<Rightarrow> bool" where
  "adjacent_equal (x # y # xs) = (x = y \<or> adjacent_equal (y # xs))"
| "adjacent_equal xs = False"

definition scan_dir :: "string list \<Rightarrow> nat list db_result" where
  "scan_dir names =
    (case scan_names names of
       Inl e \<Rightarrow> Inl e
     | Inr out \<Rightarrow>
         if adjacent_equal (sort out) then Inl (Storage ''SegmentSet contains multiple filenames for the same segment sequence'')
         else Inr (sort out))"

section \<open>State\<close>

record wal_dir =
  wal_files :: "(nat \<times> bytes) list"
  metas :: "(nat \<times> bytes) list"
  synced_len :: "nat \<Rightarrow> nat"

record sealed_meta =
  sm_seq :: nat
  max_version :: u64
  pinned :: bool
  synced :: bool

record seg_set =
  max_bytes :: nat
  sealed :: "sealed_meta list"
  active :: wal_segment
  active_seq :: nat

definition file_of :: "wal_dir \<Rightarrow> nat \<Rightarrow> bytes" where
  "file_of d seq = (case map_of (wal_files d) seq of Some f \<Rightarrow> f | None \<Rightarrow> [])"

definition put_file :: "nat \<Rightarrow> bytes \<Rightarrow> wal_dir \<Rightarrow> wal_dir" where
  "put_file seq f d = d\<lparr>wal_files := hm_put seq f (wal_files d)\<rparr>"

text \<open>\<^verbatim>\<open>set_len\<close> to a shorter length: no more than that is durable afterwards.\<close>

definition trunc_file :: "nat \<Rightarrow> bytes \<Rightarrow> wal_dir \<Rightarrow> wal_dir" where
  "trunc_file seq f d = (put_file seq f d)\<lparr>synced_len := (synced_len d)(seq := min (synced_len d seq) (length f))\<rparr>"

definition hm_del :: "'k \<Rightarrow> ('k \<times> 'v) list \<Rightarrow> ('k \<times> 'v) list" where
  "hm_del k m = filter (\<lambda>e. fst e \<noteq> k) m"

text \<open>\<^verbatim>\<open>read_blocking\<close>, \<^verbatim>\<open>write_blocking\<close> and \<^verbatim>\<open>remove_blocking\<close> of the sidecar; the last
  argument of the latter two says whether the system calls succeed.\<close>

definition read_meta :: "(bytes \<Rightarrow> u32) \<Rightarrow> wal_dir \<Rightarrow> nat \<Rightarrow> (u64 \<times> bool option) option" where
  "read_meta crc d seq = (case map_of (metas d) seq of None \<Rightarrow> None | Some b \<Rightarrow> meta_decode crc b)"

definition write_meta :: "(bytes \<Rightarrow> u32) \<Rightarrow> nat \<Rightarrow> u64 \<Rightarrow> bool \<Rightarrow> bool \<Rightarrow> wal_dir \<Rightarrow> wal_dir" where
  "write_meta crc seq mv pin ok d = (if ok then d\<lparr>metas := hm_put seq (meta_encode crc mv pin) (metas d)\<rparr> else d)"

definition remove_meta :: "nat \<Rightarrow> bool \<Rightarrow> wal_dir \<Rightarrow> wal_dir" where
  "remove_meta seq ok d = (if ok then d\<lparr>metas := hm_del seq (metas d)\<rparr> else d)"

definition replay_path :: "bincode \<Rightarrow> (bytes \<Rightarrow> u32) \<Rightarrow> bool \<Rightarrow> bool \<Rightarrow> wal_dir \<Rightarrow> nat \<Rightarrow> wal_entry list db_result" where
  "replay_path bc crc seald tol d seq =
    replay_inner bc crc seald tol (\<lambda>_. case map_of (wal_files d) seq of Some f \<Rightarrow> Opened f | None \<Rightarrow> OpenNotFound)"

definition retention_summary :: "wal_entry list \<Rightarrow> u64 \<times> bool" where
  "retention_summary es = (fold (\<lambda>e m. max m (commit_version e)) es 0, list_ex (\<lambda>e. commit_version e = 0) es)"

section \<open>Opening\<close>

definition sealed_of :: "bincode \<Rightarrow> (bytes \<Rightarrow> u32) \<Rightarrow> wal_dir \<Rightarrow> nat \<Rightarrow> sealed_meta db_result" where
  "sealed_of bc crc d seq =
    (case read_meta crc d seq of
       Some (mv, Some pin) \<Rightarrow> Inr \<lparr>sm_seq = seq, max_version = mv, pinned = pin, synced = False\<rparr>
     | _ \<Rightarrow>
         (case replay_path bc crc True False d seq of
            Inl e \<Rightarrow> Inl e
          | Inr es \<Rightarrow> (let (mv, pin) = retention_summary es in
              Inr \<lparr>sm_seq = seq, max_version = mv, pinned = pin, synced = False\<rparr>)))"

fun seal_all :: "bincode \<Rightarrow> (bytes \<Rightarrow> u32) \<Rightarrow> wal_dir \<Rightarrow> nat list \<Rightarrow> sealed_meta list db_result" where
  "seal_all bc crc d [] = Inr []"
| "seal_all bc crc d (seq # seqs) =
    (case sealed_of bc crc d seq of Inl e \<Rightarrow> Inl e | Inr m \<Rightarrow> map_sum id ((#) m) (seal_all bc crc d seqs))"

text \<open>The highest segment stays sealed when it has a valid sidecar; then the next number becomes active.\<close>

definition pick_active :: "bincode \<Rightarrow> (bytes \<Rightarrow> u32) \<Rightarrow> wal_dir \<Rightarrow> sealed_meta list \<Rightarrow> nat \<Rightarrow> (sealed_meta list \<times> nat) db_result" where
  "pick_active bc crc d ms highest =
    (case read_meta crc d highest of
       None \<Rightarrow> Inr (ms, highest)
     | Some (cached_max, Some pin) \<Rightarrow>
         Inr (ms @ [\<lparr>sm_seq = highest, max_version = cached_max, pinned = pin, synced = True\<rparr>], highest + 1)
     | Some (_, None) \<Rightarrow>
         (case replay_path bc crc True False d highest of
            Inl e \<Rightarrow> Inl e
          | Inr es \<Rightarrow> (let (mv, pin) = retention_summary es in
              Inr (ms @ [\<lparr>sm_seq = highest, max_version = mv, pinned = pin, synced = True\<rparr>], highest + 1))))"

definition open_active :: "bincode \<Rightarrow> (bytes \<Rightarrow> u32) \<Rightarrow> bool \<Rightarrow> nat \<Rightarrow> nat \<Rightarrow> sealed_meta list \<Rightarrow> wal_dir \<Rightarrow> seg_set db_result \<times> wal_dir" where
  "open_active bc crc rm maxb seq ms d0 =
    (let file = file_of d0 seq; d = put_file seq file d0 in
     case repair_torn_tail crc (seg_open file) file of
       (Inl e, _, _) \<Rightarrow> (Inl e, d)
     | (Inr _, seg, file') \<Rightarrow>
         (let d' = trunc_file seq file' d in
          case replay_path bc crc False False d' seq of
            Inl e \<Rightarrow> (Inl e, d')
          | Inr es \<Rightarrow>
              (let (mv, pin) = retention_summary es in
               (Inr \<lparr>max_bytes = maxb, sealed = ms, active = restore_retention mv pin seg, active_seq = seq\<rparr>,
                remove_meta seq rm d'))))"

definition set_open :: "bincode \<Rightarrow> (bytes \<Rightarrow> u32) \<Rightarrow> bool \<Rightarrow> nat \<Rightarrow> wal_dir \<Rightarrow> seg_set db_result \<times> wal_dir" where
  "set_open bc crc rm maxb d =
    (case scan_dir (map (seg_file_name \<circ> fst) (wal_files d)) of
       Inl e \<Rightarrow> (Inl e, d)
     | Inr seqs \<Rightarrow>
         if seqs = [] then
           (Inr \<lparr>max_bytes = maxb, sealed = [], active = seg_open [], active_seq = 0\<rparr>, put_file 0 [] d)
         else
           (case seal_all bc crc d (butlast seqs) of
              Inl e \<Rightarrow> (Inl e, d)
            | Inr ms \<Rightarrow>
                (case pick_active bc crc d ms (last seqs) of
                   Inl e \<Rightarrow> (Inl e, d)
                 | Inr (ms', seq) \<Rightarrow> open_active bc crc rm maxb seq ms' d)))"

section \<open>Appending\<close>

record append_io =
  write1 :: write_outcome
  write2 :: write_outcome
  seal_sync :: bool
  new_open :: bool
  meta_write :: bool
  meta_remove :: bool

definition push_sealed :: "bool \<Rightarrow> seg_set \<Rightarrow> wal_dir \<Rightarrow> seg_set \<times> wal_dir" where
  "push_sealed sync S d =
    (let next = active_seq S + 1; file = file_of d next in
     (S\<lparr>sealed := sealed S @ [\<lparr>sm_seq = active_seq S, max_version = max_committed (active S),
          pinned = retention_pin (active S), synced = sync\<rparr>],
        active := seg_open file, active_seq := next\<rparr>, put_file next file d))"

definition rotate_after_poison :: "append_io \<Rightarrow> seg_set \<Rightarrow> wal_dir \<Rightarrow> unit db_result \<times> seg_set \<times> wal_dir" where
  "rotate_after_poison io S d0 =
    (let d = remove_meta (active_seq S) (meta_remove io) d0 in
     if \<not> new_open io then (Inl (Io ''WalSegment open''), S, d)
     else (Inr (), push_sealed False S d))"

definition mark_synced :: "nat \<Rightarrow> wal_dir \<Rightarrow> wal_dir" where
  "mark_synced seq d = d\<lparr>synced_len := (synced_len d)(seq := length (file_of d seq))\<rparr>"

definition set_sync :: "bool \<Rightarrow> seg_set \<Rightarrow> wal_dir \<Rightarrow> unit db_result \<times> seg_set \<times> wal_dir" where
  "set_sync ok S d =
    (let (res, seg) = seg_sync ok (active S) in
     (res, S\<lparr>active := seg\<rparr>, if ok then mark_synced (active_seq S) d else d))"

definition seal_and_rotate :: "(bytes \<Rightarrow> u32) \<Rightarrow> append_io \<Rightarrow> seg_set \<Rightarrow> wal_dir \<Rightarrow> unit db_result \<times> seg_set \<times> wal_dir" where
  "seal_and_rotate crc io S d =
    (if bytes_written (active S) < max_bytes S then (Inr (), S, d)
     else case set_sync (seal_sync io) S d of
       (Inl e, S1, d1) \<Rightarrow> (Inl e, S1, d1)
     | (Inr _, S1, d1) \<Rightarrow>
         if \<not> new_open io then (Inl (Io ''WalSegment open''), S1, d1)
         else (let (S2, d2) = push_sealed True S1 d1 in
           (Inr (), S2, write_meta crc (active_seq S) (max_committed (active S)) (retention_pin (active S)) (meta_write io) d2)))"

text \<open>One append to the active segment.\<close>

definition append_active :: "bincode \<Rightarrow> (bytes \<Rightarrow> u32) \<Rightarrow> write_outcome \<Rightarrow> bytes list \<Rightarrow> u64 \<Rightarrow> seg_set \<Rightarrow> wal_dir
    \<Rightarrow> u64 db_result \<times> seg_set \<times> wal_dir" where
  "append_active bc crc w ps mv S d =
    (case seg_append_batch bc crc w ps mv (active S) (file_of d (active_seq S)) of
       (res, seg, file) \<Rightarrow> (res, S\<lparr>active := seg\<rparr>, put_file (active_seq S) file d))"

definition append_fresh :: "bincode \<Rightarrow> (bytes \<Rightarrow> u32) \<Rightarrow> append_io \<Rightarrow> bytes list \<Rightarrow> u64 \<Rightarrow> seg_set \<Rightarrow> wal_dir
    \<Rightarrow> u64 db_result \<times> seg_set \<times> wal_dir" where
  "append_fresh bc crc io ps mv S d =
    (case append_active bc crc (write1 io) ps mv S d of
       (Inr last_seq, S1, d1) \<Rightarrow>
         if bytes_written (active S1) \<ge> max_bytes S1 then
           (case seal_and_rotate crc io S1 d1 of
              (Inl e, S2, d2) \<Rightarrow> (Inl e, S2, d2)
            | (Inr _, S2, d2) \<Rightarrow> (Inr last_seq, S2, d2))
         else (Inr last_seq, S1, d1)
     | (Inl e, S1, d1) \<Rightarrow>
         if \<not> poisoned (active S1) then (Inl e, S1, d1)
         else case rotate_after_poison io S1 d1 of
           (Inl e', S2, d2) \<Rightarrow> (Inl e', S2, d2)
         | (Inr _, S2, d2) \<Rightarrow> append_active bc crc (write2 io) ps mv S2 d2)"

definition set_append_batch :: "bincode \<Rightarrow> (bytes \<Rightarrow> u32) \<Rightarrow> append_io \<Rightarrow> bytes list \<Rightarrow> u64 \<Rightarrow> seg_set \<Rightarrow> wal_dir
    \<Rightarrow> u64 db_result \<times> seg_set \<times> wal_dir" where
  "set_append_batch bc crc io ps mv S d =
    (if poisoned (active S) then
       (case rotate_after_poison io S d of
          (Inl e, S1, d1) \<Rightarrow> (Inl e, S1, d1)
        | (Inr _, S1, d1) \<Rightarrow> append_fresh bc crc io ps mv S1 d1)
     else append_fresh bc crc io ps mv S d)"

section \<open>Reading and truncating\<close>

fun replay_all :: "bincode \<Rightarrow> (bytes \<Rightarrow> u32) \<Rightarrow> wal_dir \<Rightarrow> sealed_meta list \<Rightarrow> wal_entry list \<Rightarrow> wal_entry list db_result" where
  "replay_all bc crc d [] out = Inr out"
| "replay_all bc crc d (m # ms) out =
    (case replay_path bc crc True False d (sm_seq m) of Inl e \<Rightarrow> Inl e | Inr es \<Rightarrow> replay_all bc crc d ms (out @ es))"

definition set_replay :: "bincode \<Rightarrow> (bytes \<Rightarrow> u32) \<Rightarrow> seg_set \<Rightarrow> wal_dir \<Rightarrow> wal_entry list db_result" where
  "set_replay bc crc S d =
    (case replay_all bc crc d (sort_key sm_seq (sealed S)) [] of
       Inl e \<Rightarrow> Inl e
     | Inr out \<Rightarrow> (case replay_path bc crc False False d (active_seq S) of Inl e \<Rightarrow> Inl e | Inr es \<Rightarrow> Inr (out @ es)))"

definition reclaimable :: "u64 \<Rightarrow> sealed_meta \<Rightarrow> bool" where
  "reclaimable durable m = (\<not> pinned m \<and> max_version m > 0 \<and> max_version m \<le> durable)"

definition has_truncatable :: "u64 \<Rightarrow> seg_set \<Rightarrow> bool" where
  "has_truncatable durable S = list_ex (reclaimable durable) (sealed S)"

text \<open>The deletion loop; \<^verbatim>\<open>unlink seq\<close> says whether removing the file succeeds, and a file that is already
  gone counts as resolved.  The result counts deletions and failures.\<close>

fun truncate_loop :: "(nat \<Rightarrow> bool) \<Rightarrow> (nat \<Rightarrow> bool) \<Rightarrow> sealed_meta list \<Rightarrow> nat \<Rightarrow> nat \<Rightarrow> seg_set \<Rightarrow> wal_dir
    \<Rightarrow> (nat \<times> nat) \<times> seg_set \<times> wal_dir" where
  "truncate_loop unlink rm [] deleted failures S d = ((deleted, failures), S, d)"
| "truncate_loop unlink rm (m # ms) deleted failures S d =
    (let gone = (map_of (wal_files d) (sm_seq m) = None) in
     if \<not> gone \<and> \<not> unlink (sm_seq m) then truncate_loop unlink rm ms deleted (failures + 1) S d
     else truncate_loop unlink rm ms (if gone then deleted else deleted + 1) failures
       (S\<lparr>sealed := filter (\<lambda>x. sm_seq x \<noteq> sm_seq m) (sealed S)\<rparr>)
       (remove_meta (sm_seq m) (rm (sm_seq m)) (d\<lparr>wal_files := hm_del (sm_seq m) (wal_files d)\<rparr>)))"

definition truncate_below :: "(nat \<Rightarrow> bool) \<Rightarrow> (nat \<Rightarrow> bool) \<Rightarrow> u64 \<Rightarrow> seg_set \<Rightarrow> wal_dir \<Rightarrow> nat db_result \<times> seg_set \<times> wal_dir" where
  "truncate_below unlink rm durable S d =
    (case truncate_loop unlink rm (filter (reclaimable durable) (sealed S)) 0 0 S d of
       ((deleted, failures), S', d') \<Rightarrow>
         (if failures > 0 then Inl (Io ''SegmentSet truncate'') else Inr deleted, S', d'))"

definition set_max_committed :: "seg_set \<Rightarrow> u64" where
  "set_max_committed S = max (fold (\<lambda>m a. max a (max_version m)) (sealed S) 0) (max_committed (active S))"

text \<open>\<^verbatim>\<open>sync_snapshot\<close>: every sealed file is read strictly and, unless it is known to be durable, synced; \<^verbatim>\<open>ok seq\<close> says
  whether that fsync succeeds.  The active file is read up to its published length.\<close>

definition flag_synced :: "nat \<Rightarrow> seg_set \<Rightarrow> seg_set" where
  "flag_synced q S = S\<lparr>sealed := map (\<lambda>m. if sm_seq m = q then m\<lparr>synced := True\<rparr> else m) (sealed S)\<rparr>"

fun snapshot_sealed :: "bincode \<Rightarrow> (bytes \<Rightarrow> u32) \<Rightarrow> (nat \<Rightarrow> bool) \<Rightarrow> sealed_meta list \<Rightarrow> wal_entry list \<Rightarrow> seg_set \<Rightarrow> wal_dir
    \<Rightarrow> wal_entry list db_result \<times> seg_set \<times> wal_dir" where
  "snapshot_sealed bc crc ok [] out S d = (Inr out, S, d)"
| "snapshot_sealed bc crc ok (m # ms) out S d =
    (case map_of (wal_files d) (sm_seq m) of
       None \<Rightarrow> (Inl (Io ''sealed snapshot open''), S, d)
     | Some f \<Rightarrow>
         (case decode_snapshot bc crc f (length f) of
            Inl e \<Rightarrow> (Inl e, S, d)
          | Inr records \<Rightarrow>
              if synced m then snapshot_sealed bc crc ok ms (out @ records) S d
              else if \<not> ok (sm_seq m) then (Inl (Io ''sealed snapshot sync''), S, d)
              else snapshot_sealed bc crc ok ms (out @ records) (flag_synced (sm_seq m) S) (mark_synced (sm_seq m) d)))"

definition sync_snapshot :: "bincode \<Rightarrow> (bytes \<Rightarrow> u32) \<Rightarrow> (nat \<Rightarrow> bool) \<Rightarrow> seg_set \<Rightarrow> wal_dir \<Rightarrow> wal_entry list db_result \<times> seg_set \<times> wal_dir" where
  "sync_snapshot bc crc ok S d =
    (case snapshot_sealed bc crc ok (sealed S) [] S d of
       (Inl e, S', d') \<Rightarrow> (Inl e, S', d')
     | (Inr entries, S', d') \<Rightarrow>
         (case decode_snapshot bc crc (file_of d' (active_seq S)) (bytes_written (active S)) of
            Inl e \<Rightarrow> (Inl e, S', d')
          | Inr captured \<Rightarrow> (Inr (entries @ captured), S', d')))"

text \<open>\<^verbatim>\<open>sealed_retained_bytes\<close>, with the checked addition.\<close>

fun retained_bytes :: "wal_dir \<Rightarrow> sealed_meta list \<Rightarrow> nat \<Rightarrow> nat db_result" where
  "retained_bytes d [] tot = Inr tot"
| "retained_bytes d (m # ms) tot =
    (case map_of (wal_files d) (sm_seq m) of
       None \<Rightarrow> Inl (Storage ''WAL metadata'')
     | Some f \<Rightarrow> if tot + length f < 2 ^ 64 then retained_bytes d ms (tot + length f) else Inl (Storage ''WAL retained byte count overflow''))"

definition sealed_retained_bytes :: "seg_set \<Rightarrow> wal_dir \<Rightarrow> nat db_result" where
  "sealed_retained_bytes S d = retained_bytes d (sealed S) 0"

end
