(* ===== verification/SegmentLog.thy ===== *)
theory SegmentLog
  imports SegmentSet
begin

text \<open>
  What the files of a segmented log hold, and that appending, rotating, syncing, truncating
  and taking a snapshot keep it.  The invariant relates the directory and the state of the set to a
  list of payloads per segment; every operation acts on these lists the way a log should.
\<close>

declare decimal.simps [simp del]

section \<open>File names read back\<close>

lemma parse_digits_append:
  "parse_digits (xs @ ys) acc = (case parse_digits xs acc of None \<Rightarrow> None | Some b \<Rightarrow> parse_digits ys b)"
  by (induction xs arbitrary: acc) (simp_all add: Let_def)

lemma of_digit_char: "d < 10 \<Longrightarrow> of_char (digit_char d) = 48 + d"
  by (simp add: digit_char_def)

lemma parse_decimal: "parse_digits (decimal n) 0 = Some n"
proof (induction n rule: decimal.induct)
  case (1 n)
  then show ?case
    by (subst decimal.simps) (auto simp: parse_digits_append of_digit_char Let_def)
qed

lemma parse_zeros: "parse_digits (replicate k (CHR ''0'')) 0 = Some 0"
  by (induction k) simp_all

lemma parse_seg_file_name: "n < 2 ^ 64 \<Longrightarrow> parse_seg_seq (seg_file_name n) = Some n"
proof -
  assume n: "n < 2 ^ 64"
  let ?stem = "replicate (8 - length (decimal n)) (CHR ''0'') @ decimal n"
  have digits: "parse_digits ?stem 0 = Some n" by (simp add: parse_digits_append parse_zeros parse_decimal)
  have ne: "?stem \<noteq> []" by (subst decimal.simps) simp
  then have "hd ?stem \<noteq> CHR ''+''" using digits by (cases ?stem) (auto simp: Let_def split: if_splits)
  then have "parse_u64 ?stem = Some n" using digits ne n by (simp add: parse_u64_def Let_def)
  moreover have "strip_wal (seg_file_name n) = Some ?stem" by (simp add: strip_wal_def seg_file_name_def Let_def)
  ultimately show ?thesis by (simp add: parse_seg_seq_def)
qed

lemma scan_canonical: "\<forall>q\<in>set qs. q < 2 ^ 64 \<Longrightarrow> scan_names (map seg_file_name qs) = Inr qs"
  by (induction qs) (simp_all add: parse_seg_file_name)

lemma adjacent_equal_sorted: "sorted xs \<Longrightarrow> adjacent_equal xs \<longleftrightarrow> \<not> distinct xs"
  by (induction xs rule: adjacent_equal.induct) auto

lemma scan_dir_canonical:
  assumes "distinct qs" and "\<forall>q\<in>set qs. q < 2 ^ 64"
  shows "scan_dir (map seg_file_name qs) = Inr (sort qs)"
  using assms by (simp add: scan_dir_def scan_canonical adjacent_equal_sorted)

section \<open>What the files hold\<close>

text \<open>
  \<^verbatim>\<open>L q\<close> is the list of payloads whose whole frames are in file \<^verbatim>\<open>q\<close>; behind them there may be the beginning
  of one more frame.
\<close>

definition segs :: "seg_set \<Rightarrow> nat list" where
  "segs S = map sm_seq (sealed S) @ [active_seq S]"

definition log_of :: "(nat \<Rightarrow> bytes list) \<Rightarrow> nat list \<Rightarrow> bytes list" where
  "log_of L qs = concat (map L qs)"

definition seg_shape :: "(bytes \<Rightarrow> u32) \<Rightarrow> bytes list \<Rightarrow> bytes \<Rightarrow> bool" where
  "seg_shape crc ps f = (\<exists>t. f = frames crc ps @ t \<and> (t = [] \<or> torn crc t))"

definition covers :: "bincode \<Rightarrow> bytes list \<Rightarrow> u64 \<Rightarrow> bool \<Rightarrow> bool" where
  "covers bc ps mv pin = (\<forall>e\<in>set (entries_of bc ps). commit_version e \<le> mv \<and> (commit_version e = 0 \<longrightarrow> pin))"

definition dir_keys :: "wal_dir \<Rightarrow> nat set" where
  "dir_keys d = dom (map_of (wal_files d))"

definition dir_inv :: "bincode \<Rightarrow> (bytes \<Rightarrow> u32) \<Rightarrow> wal_dir \<Rightarrow> (nat \<Rightarrow> bytes list) \<Rightarrow> bool" where
  "dir_inv bc crc d L =
    (hm_ok (wal_files d) \<and> (\<forall>q. \<forall>p\<in>set (L q). payload_ok bc p)
     \<and> (\<forall>q\<in>dir_keys d. seg_shape crc (L q) (file_of d q) \<and> synced_len d q \<le> length (file_of d q))
     \<and> (\<forall>q mv pin. q \<in> dir_keys d \<and> read_meta crc d q = Some (mv, pin) \<longrightarrow>
          file_of d q = frames crc (L q) \<and> synced_len d q = length (file_of d q) \<and> (\<forall>b. pin = Some b \<longrightarrow> covers bc (L q) mv b))
     \<and> (\<forall>q. (\<forall>k\<in>dir_keys d. k < q) \<longrightarrow> read_meta crc d q = None \<and> synced_len d q = 0))"

definition set_inv :: "bincode \<Rightarrow> (bytes \<Rightarrow> u32) \<Rightarrow> seg_set \<Rightarrow> wal_dir \<Rightarrow> (nat \<Rightarrow> bytes list) \<Rightarrow> bool" where
  "set_inv bc crc S d L =
    (dir_inv bc crc d L \<and> sorted_wrt (<) (segs S) \<and> dir_keys d = set (segs S)
     \<and> (\<forall>m\<in>set (sealed S). covers bc (L (sm_seq m)) (max_version m) (pinned m)
          \<and> (synced m \<longrightarrow> synced_len d (sm_seq m) = length (file_of d (sm_seq m))))
     \<and> covers bc (L (active_seq S)) (max_committed (active S)) (retention_pin (active S))
     \<and> (\<not> poisoned (active S) \<longrightarrow> file_of d (active_seq S) = frames crc (L (active_seq S))
          \<and> bytes_written (active S) = length (file_of d (active_seq S)))
     \<and> read_meta crc d (active_seq S) = None)"

lemma log_of_simps [simp]:
  "log_of L [] = []" "log_of L (q # qs) = L q @ log_of L qs" "log_of L (qs @ rs) = log_of L qs @ log_of L rs"
  by (simp_all add: log_of_def)

lemma log_of_cong: "(\<And>q. q \<in> set qs \<Longrightarrow> L q = L' q) \<Longrightarrow> log_of L qs = log_of L' qs"
  by (induction qs) simp_all

lemma covers_simps [simp]: "covers bc [] mv pin"
  by (simp add: covers_def)

lemma map_of_hm_del [simp]: "map_of (hm_del k m) = (map_of m)(k := None)"
  by (induction m) (auto simp: hm_del_def)

lemma hm_ok_del [simp]: "hm_ok m \<Longrightarrow> hm_ok (hm_del k m)"
  by (simp add: hm_del_def hm_ok_def distinct_map_filter)

lemma dir_ops [simp]:
  "file_of (put_file q f d) q' = (if q' = q then f else file_of d q')" "dir_keys (put_file q f d) = insert q (dir_keys d)"
  "file_of (remove_meta q ok d) = file_of d" "dir_keys (remove_meta q ok d) = dir_keys d"
  "file_of (write_meta crc q mv pin ok d) = file_of d" "dir_keys (write_meta crc q mv pin ok d) = dir_keys d"
  "file_of (mark_synced q d) = file_of d" "dir_keys (mark_synced q d) = dir_keys d"
  "wal_files (remove_meta q ok d) = wal_files d" "wal_files (write_meta crc q mv pin ok d) = wal_files d" "wal_files (mark_synced q d) = wal_files d"
  "synced_len (put_file q f d) = synced_len d" "synced_len (remove_meta q ok d) = synced_len d" "synced_len (write_meta crc q mv pin ok d) = synced_len d"
  "synced_len (mark_synced q d) = (synced_len d)(q := length (file_of d q))"
  "read_meta crc (put_file q f d) = read_meta crc d" "read_meta crc (mark_synced q d) = read_meta crc d"
  by (auto simp: file_of_def put_file_def dir_keys_def remove_meta_def write_meta_def mark_synced_def read_meta_def fun_eq_iff)

lemma trunc_file_ops [simp]:
  "file_of (trunc_file q f d) q' = (if q' = q then f else file_of d q')" "dir_keys (trunc_file q f d) = insert q (dir_keys d)"
  "synced_len (trunc_file q f d) = (synced_len d)(q := min (synced_len d q) (length f))" "read_meta crc (trunc_file q f d) = read_meta crc d"
  "wal_files (trunc_file q f d) = wal_files (put_file q f d)"
  by (auto simp: trunc_file_def file_of_def put_file_def dir_keys_def read_meta_def fun_eq_iff)

lemma hm_ok_put_file [simp]: "hm_ok (wal_files d) \<Longrightarrow> hm_ok (wal_files (put_file q f d))"
  by (simp add: put_file_def)

lemma read_meta_remove: "read_meta crc (remove_meta q ok d) q' = (if ok \<and> q' = q then None else read_meta crc d q')"
  by (simp add: read_meta_def remove_meta_def)

lemma read_meta_write:
  "read_meta crc (write_meta crc q mv pin ok d) q' = (if ok \<and> q' = q then Some (mv, Some pin) else read_meta crc d q')"
  by (simp add: read_meta_def write_meta_def meta_roundtrip)

lemma replay_path_eq:
  assumes "q \<in> dir_keys d"
  shows "replay_path bc crc seald tol d q = replay_inner bc crc seald tol (\<lambda>_. Opened (file_of d q))"
  using assms by (auto simp: replay_path_def dir_keys_def file_of_def)

lemma replay_shape:
  assumes "q \<in> dir_keys d" and "seg_shape crc ps (file_of d q)" and "\<forall>p\<in>set ps. payload_ok bc p"
  shows "replay_path bc crc False tol d q = Inr (entries_of bc ps)"
    and "replay_path bc crc True tol d q = Inr es \<Longrightarrow> es = entries_of bc ps \<and> file_of d q = frames crc ps"
    and "file_of d q = frames crc ps \<Longrightarrow> replay_path bc crc seald tol d q = Inr (entries_of bc ps)"
  using assms replay_torn[OF assms(3)] replay_intact[OF assms(3)] by (auto simp: replay_path_eq seg_shape_def)

section \<open>Appending keeps the log\<close>

lemma covers_append [simp]: "covers bc (ps @ qs) mv pin \<longleftrightarrow> covers bc ps mv pin \<and> covers bc qs mv pin"
  by (auto simp: covers_def)

lemma covers_mono: "covers bc ps mv pin \<Longrightarrow> mv \<le> mv' \<Longrightarrow> (pin \<longrightarrow> pin') \<Longrightarrow> covers bc ps mv' pin'"
  by (auto simp: covers_def intro: order_trans)

lemma covers_take: "covers bc ps mv pin \<Longrightarrow> covers bc (take n ps) mv pin"
  by (auto simp: covers_def entries_of_def dest: in_set_takeD)

lemma check_payloads_covers:
  "check_payloads bc ps m pin = Inr (pm, pn) \<Longrightarrow> (\<forall>p\<in>set ps. payload_ok bc p) \<and> m \<le> pm \<and> covers bc ps pm pn"
  using fold_max_upper by (auto simp: check_payloads_iff covers_def)

lemma seg_append_keeps:
  assumes app: "seg_append_batch bc crc w ps mv seg (frames crc old) = (res, seg', file')"
    and seg: "\<not> poisoned seg" "bytes_written seg = length (frames crc old)" "covers bc old (max_committed seg) (retention_pin seg)"
  shows "\<exists>new. seg_shape crc (old @ new) file' \<and> (\<forall>p\<in>set new. payload_ok bc p) \<and> length (frames crc old) \<le> length file'
    \<and> covers bc (old @ new) (max_committed seg') (retention_pin seg')
    \<and> (\<not> poisoned seg' \<longrightarrow> file' = frames crc (old @ new) \<and> bytes_written seg' = length file')
    \<and> (\<forall>n. res = Inr n \<longrightarrow> new = ps \<and> \<not> poisoned seg')"
proof (cases "check_payloads bc ps mv False")
  case (Inl e)
  then show ?thesis using app seg by (intro exI[of _ "[]"]) (auto simp: seg_append_batch_def seg_shape_def)
next
  case (Inr pp)
  obtain pm pn where pp: "pp = (pm, pn)" by (cases pp)
  have ok: "\<forall>p\<in>set ps. payload_ok bc p" "mv \<le> pm" "covers bc ps pm pn" using check_payloads_covers[of bc ps mv False] Inr pp by auto
  have len: "\<forall>p\<in>set ps. length p \<le> MAX_FRAME_BYTES" using ok(1) payload_okD by blast
  have cov: "covers bc old (max (max_committed seg) m) (retention_pin seg \<or> b)" "covers bc ps (max m pm) (b \<or> pn)" for m b
    using covers_mono[OF seg(3), of "max (max_committed seg) m"] covers_mono[OF ok(3), of "max m pm"] by auto
  show ?thesis
  proof (cases "ps = []")
    case True
    then show ?thesis using app seg Inr pp cov(1)[of mv False] by (intro exI[of _ "[]"]) (auto simp: seg_append_batch_def seg_shape_def)
  next
    case False
    show ?thesis
    proof (cases w)
      case WriteOk
      then show ?thesis using False app seg Inr pp ok cov
        by (intro exI[of _ ps]) (auto simp: seg_append_batch_def write_frames_def Let_def seg_shape_def)
    next
      case (WriteFails n rolled)
      obtain j t where j: "take n (frames crc ps) = frames crc (take j ps) @ t" "t = [] \<or> torn crc t"
        using take_frames[OF len, of n crc] by blast
      show ?thesis
      proof (cases rolled)
        case True
        then show ?thesis using WriteFails False app seg Inr pp cov
          by (intro exI[of _ "[]"]) (auto simp: seg_append_batch_def write_frames_def Let_def seg_shape_def)
      next
        case rb: False
        have "covers bc (take j ps) (max (max_committed seg) pm) (retention_pin seg \<or> pn)" using covers_take[OF cov(2)] .
        then show ?thesis using rb WriteFails False app seg Inr pp cov j ok(1)
          by (intro exI[of _ "take j ps"]) (auto simp: seg_append_batch_def write_frames_def Let_def seg_shape_def dest: in_set_takeD)
      qed
    qed
  qed
qed

lemma set_invD:
  assumes "set_inv bc crc S d L"
  shows "dir_inv bc crc d L" "sorted_wrt (<) (segs S)" "dir_keys d = set (segs S)" "active_seq S \<in> dir_keys d"
    "m \<in> set (sealed S) \<Longrightarrow> covers bc (L (sm_seq m)) (max_version m) (pinned m)"
    "covers bc (L (active_seq S)) (max_committed (active S)) (retention_pin (active S))"
    "\<not> poisoned (active S) \<Longrightarrow> file_of d (active_seq S) = frames crc (L (active_seq S)) \<and> bytes_written (active S) = length (file_of d (active_seq S))"
    "read_meta crc d (active_seq S) = None"
    "q \<in> dir_keys d \<Longrightarrow> q \<le> active_seq S"
    "m \<in> set (sealed S) \<Longrightarrow> synced m \<Longrightarrow> synced_len d (sm_seq m) = length (file_of d (sm_seq m))"
  using assms by (auto simp: set_inv_def segs_def sorted_wrt_append)

lemma dir_invD:
  assumes "dir_inv bc crc d L"
  shows "hm_ok (wal_files d)" "\<forall>p\<in>set (L q). payload_ok bc p"
    "q \<in> dir_keys d \<Longrightarrow> seg_shape crc (L q) (file_of d q)" "q \<in> dir_keys d \<Longrightarrow> synced_len d q \<le> length (file_of d q)"
    "q \<in> dir_keys d \<Longrightarrow> read_meta crc d q = Some (mv, pin) \<Longrightarrow> file_of d q = frames crc (L q) \<and> synced_len d q = length (file_of d q)"
    "q \<in> dir_keys d \<Longrightarrow> read_meta crc d q = Some (mv, Some b) \<Longrightarrow> covers bc (L q) mv b"
    "(\<And>k. k \<in> dir_keys d \<Longrightarrow> k < q) \<Longrightarrow> read_meta crc d q = None \<and> synced_len d q = 0"
  using assms by (auto simp: dir_inv_def)

lemma set_inv_active:
  assumes inv: "set_inv bc crc S d L" and q: "q = active_seq S"
    and f: "seg_shape crc (L q @ new) f" "\<forall>p\<in>set new. payload_ok bc p" "length (file_of d q) \<le> length f"
    and seg: "covers bc (L q @ new) (max_committed seg) (retention_pin seg)"
      "\<not> poisoned seg \<longrightarrow> f = frames crc (L q @ new) \<and> bytes_written seg = length f"
  shows "set_inv bc crc (S\<lparr>active := seg\<rparr>) (put_file q f d) (L(q := L q @ new))"
proof -
  note I = set_invD[OF inv]
  note D = dir_invD[OF I(1)]
  have "dir_inv bc crc (put_file q f d) (L(q := L q @ new))"
    unfolding dir_inv_def
  proof (intro conjI allI impI ballI, goal_cases)
    case 1
    then show ?case using D(1) by simp
  next
    case (2 k p)
    then show ?case using D(2)[of k] D(2)[of q] f(2) by (auto split: if_splits)
  next
    case (3 k)
    then show ?case using D(3)[of k] f(1) by auto
  next
    case (4 k)
    then show ?case using D(4)[of k] D(4)[of q] f(3) I(4) q by (auto intro: order_trans)
  next
    case (5 k mv pin)
    then show ?case using D(5)[of k] I(4,8) q by auto
  next
    case (6 k mv pin)
    then show ?case using D(5)[of k] I(4,8) q by auto
  next
    case (7 k mv pin b)
    then show ?case using D(6)[of k] I(4,8) q by auto
  next
    case (8 k)
    then show ?case using D(7)[of k] by simp
  next
    case (9 k)
    then show ?case using D(7)[of k] by simp
  qed
  moreover have "sm_seq m \<noteq> q" if "m \<in> set (sealed S)" for m
    using I(2) that q by (auto simp: segs_def sorted_wrt_append)
  ultimately show ?thesis using I seg q by (simp add: set_inv_def segs_def insert_absorb)
qed

lemma append_active_keeps:
  assumes inv: "set_inv bc crc S d L" and app: "append_active bc crc w ps mv S d = (res, S', d')"
  shows "\<exists>new. set_inv bc crc S' d' (L(active_seq S := L (active_seq S) @ new)) \<and> S' = S\<lparr>active := active S'\<rparr> \<and> synced_len d' = synced_len d
    \<and> (\<forall>n. res = Inr n \<longrightarrow> new = ps \<and> \<not> poisoned (active S'))"
proof -
  let ?q = "active_seq S"
  note I = set_invD[OF inv]
  obtain r seg f where "seg_append_batch bc crc w ps mv (active S) (file_of d ?q) = (r, seg, f)"
    by (rule prod_cases3)
  with app have sa: "seg_append_batch bc crc w ps mv (active S) (file_of d ?q) = (res, seg, f)"
    and eq: "S' = S\<lparr>active := seg\<rparr>" "d' = put_file ?q f d" by (simp_all add: append_active_def)
  show ?thesis
  proof (cases "poisoned (active S)")
    case True
    then have "seg = active S" "f = file_of d ?q" "\<exists>e. res = Inl e" using sa by (auto simp: seg_append_batch_def)
    moreover have "set_inv bc crc (S\<lparr>active := active S\<rparr>) (put_file ?q (file_of d ?q) d) (L(?q := L ?q @ []))"
      using dir_invD(3)[OF I(1) I(4)] I(6) True by (intro set_inv_active[OF inv refl]) auto
    ultimately show ?thesis by (intro exI[of _ "[]"]) (auto simp: eq)
  next
    case False
    then have c: "file_of d ?q = frames crc (L ?q)" "bytes_written (active S) = length (file_of d ?q)" using I(7) by auto
    obtain new where new: "seg_shape crc (L ?q @ new) f" "\<forall>p\<in>set new. payload_ok bc p" "length (file_of d ?q) \<le> length f"
        "covers bc (L ?q @ new) (max_committed seg) (retention_pin seg)"
        "\<not> poisoned seg \<longrightarrow> f = frames crc (L ?q @ new) \<and> bytes_written seg = length f"
        "\<forall>n. res = Inr n \<longrightarrow> new = ps \<and> \<not> poisoned seg"
      using seg_append_keeps[of bc crc w ps mv "active S" "L ?q" res seg f] sa c False I(6) by auto
    show ?thesis using set_inv_active[OF inv refl new(1-5)] new(6) by (intro exI[of _ new]) (simp add: eq)
  qed
qed

lemma active_not_sealed: "set_inv bc crc S d L \<Longrightarrow> m \<in> set (sealed S) \<Longrightarrow> sm_seq m \<noteq> active_seq S"
  by (auto simp: set_inv_def segs_def sorted_wrt_append)

lemma next_is_new: "set_inv bc crc S d L \<Longrightarrow> active_seq S + 1 \<notin> dir_keys d"
  using set_invD(9)[of bc crc S d L "active_seq S + 1"] by auto

lemma log_of_upd: "q \<notin> set qs \<Longrightarrow> log_of (L(q := ps)) qs = log_of L qs"
  by (rule log_of_cong) auto

lemma log_active:
  assumes "set_inv bc crc S d L"
  shows "log_of (L(active_seq S := ps)) (segs S) = log_of L (map sm_seq (sealed S)) @ ps"
proof -
  have "active_seq S \<notin> set (map sm_seq (sealed S))" using active_not_sealed[OF assms] by (metis (no_types, lifting) imageE list.set_map)
  then show ?thesis by (simp add: segs_def log_of_upd)
qed

lemma set_inv_remove_meta: "set_inv bc crc S d L \<Longrightarrow> set_inv bc crc S (remove_meta q ok d) L"
  by (auto simp: set_inv_def dir_inv_def read_meta_remove)

lemma set_inv_sync: "set_inv bc crc S d L \<Longrightarrow> set_inv bc crc S (mark_synced (active_seq S) d) L"
  by (auto simp: set_inv_def dir_inv_def segs_def)

lemma set_inv_poison: "set_inv bc crc S d L \<Longrightarrow> set_inv bc crc (S\<lparr>active := (active S)\<lparr>poisoned := True\<rparr>\<rparr>) d L"
  by (simp add: set_inv_def segs_def)

lemma set_inv_write_meta:
  assumes "set_inv bc crc S d L" and "m \<in> set (sealed S)" and "file_of d (sm_seq m) = frames crc (L (sm_seq m))"
    and "synced_len d (sm_seq m) = length (file_of d (sm_seq m))" and "mv = max_version m" "pin = pinned m"
  shows "set_inv bc crc S (write_meta crc (sm_seq m) mv pin ok d) L"
proof -
  have "sm_seq m \<noteq> active_seq S" "sm_seq m \<in> dir_keys d" using active_not_sealed[OF assms(1,2)] assms(1,2) by (auto simp: set_inv_def segs_def)
  with assms show ?thesis by (auto simp: set_inv_def dir_inv_def read_meta_write)
qed

lemma set_inv_push:
  assumes inv: "set_inv bc crc S d L" and p: "push_sealed sy S d = (S', d')"
    and sy: "sy \<longrightarrow> synced_len d (active_seq S) = length (file_of d (active_seq S))"
  shows "set_inv bc crc S' d' (L(active_seq S + 1 := []))" "segs S' = segs S @ [active_seq S + 1]" "\<not> poisoned (active S')"
    "synced_len d' = synced_len d" "q \<in> dir_keys d \<Longrightarrow> file_of d' q = file_of d q"
    "sealed S' = sealed S @ [\<lparr>sm_seq = active_seq S, max_version = max_committed (active S), pinned = retention_pin (active S), synced = sy\<rparr>]"
    "active_seq S' = active_seq S + 1" "max_bytes S' = max_bytes S"
proof -
  let ?n = "active_seq S + 1"
  note I = set_invD[OF inv]
  note D = dir_invD[OF I(1)]
  have new: "k < ?n" if "k \<in> dir_keys d" for k using I(9) that by (auto simp: less_Suc_eq_le)
  have n: "?n \<notin> dir_keys d" by (rule next_is_new[OF inv])
  then have f: "file_of d ?n = []" by (auto simp: file_of_def dir_keys_def split: option.splits)
  have z: "read_meta crc d ?n = None" "synced_len d ?n = 0" using D(7)[of ?n] new by auto
  have eq: "S' = S\<lparr>sealed := sealed S @ [\<lparr>sm_seq = active_seq S, max_version = max_committed (active S), pinned = retention_pin (active S), synced = sy\<rparr>],
      active := seg_open [], active_seq := ?n\<rparr>" "d' = put_file ?n [] d"
    using p f by (auto simp: push_sealed_def Let_def)
  have "dir_inv bc crc d' (L(?n := []))"
    using I(1) n z by (auto simp: eq dir_inv_def seg_shape_def)
  moreover have "sorted_wrt (<) (segs S @ [?n])" using I(2,3,9) by (auto simp: sorted_wrt_append less_Suc_eq_le)
  moreover have "sm_seq m \<noteq> ?n" if "m \<in> set (sealed S)" for m using n I(3) that by (force simp: segs_def)
  ultimately show "set_inv bc crc S' d' (L(?n := []))"
    using I z sy n by (auto simp: set_inv_def eq segs_def seg_open_def)
  show "segs S' = segs S @ [?n]" "\<not> poisoned (active S')" "synced_len d' = synced_len d"
    "q \<in> dir_keys d \<Longrightarrow> file_of d' q = file_of d q"
    "sealed S' = sealed S @ [\<lparr>sm_seq = active_seq S, max_version = max_committed (active S), pinned = retention_pin (active S), synced = sy\<rparr>]"
    "active_seq S' = active_seq S + 1" "max_bytes S' = max_bytes S"
    using n by (auto simp: eq segs_def seg_open_def)
qed

lemma log_push:
  assumes "set_inv bc crc S d L" and "segs S' = segs S @ [active_seq S + 1]"
  shows "log_of (L(active_seq S + 1 := [])) (segs S') = log_of L (segs S)"
proof -
  have "active_seq S + 1 \<notin> set (segs S)" using next_is_new[OF assms(1)] set_invD(3)[OF assms(1)] by simp
  then show ?thesis by (simp add: assms(2) log_of_upd)
qed

lemma rotate_keeps:
  assumes inv: "set_inv bc crc S d L" and r: "rotate_after_poison io S d = (res, S', d')"
  shows "\<exists>L'. set_inv bc crc S' d' L' \<and> log_of L' (segs S') = log_of L (segs S)
    \<and> (\<forall>u. res = Inr u \<longrightarrow> \<not> poisoned (active S') \<and> max_bytes S' = max_bytes S)"
proof (cases "new_open io")
  case True
  then have push: "push_sealed False S (remove_meta (active_seq S) (meta_remove io) d) = (S', d')" using r by (simp add: rotate_after_poison_def Let_def)
  have ns: "False \<longrightarrow> synced_len (remove_meta (active_seq S) (meta_remove io) d) (active_seq S)
      = length (file_of (remove_meta (active_seq S) (meta_remove io) d) (active_seq S))" by simp
  note P = set_inv_push[OF set_inv_remove_meta[OF inv] push ns]
  then show ?thesis using log_push[OF inv P(2)] by blast
next
  case False
  then show ?thesis using r set_inv_remove_meta[OF inv] by (auto simp: rotate_after_poison_def Let_def)
qed

lemma sync_keeps:
  assumes inv: "set_inv bc crc S d L" and r: "set_sync ok S d = (res, S', d')"
  shows "set_inv bc crc S' d' L" "segs S' = segs S" "sealed S' = sealed S" "active_seq S' = active_seq S" "max_bytes S' = max_bytes S"
    "res = Inr u \<Longrightarrow> active S' = active S \<and> d' = mark_synced (active_seq S) d"
  using r set_inv_sync[OF inv] set_inv_poison[OF inv] inv by (auto simp: set_sync_def seg_sync_def segs_def split: if_splits)

text \<open>Where an acknowledged batch is: at the end of the active segment, or of a segment that is durable on disk.\<close>

definition batch_in :: "(bytes \<Rightarrow> u32) \<Rightarrow> seg_set \<Rightarrow> wal_dir \<Rightarrow> (nat \<Rightarrow> bytes list) \<Rightarrow> bytes list \<Rightarrow> bool" where
  "batch_in crc S d L ps = (\<exists>q\<in>set (segs S). suffix ps (L q) \<and> file_of d q = frames crc (L q)
    \<and> (q = active_seq S \<or> synced_len d q = length (file_of d q)))"

lemma seal_keeps:
  assumes inv: "set_inv bc crc S d L" and np: "\<not> poisoned (active S)" and r: "seal_and_rotate crc io S d = (res, S', d')" and b: "suffix ps (L (active_seq S))"
  shows "\<exists>L'. set_inv bc crc S' d' L' \<and> log_of L' (segs S') = log_of L (segs S) \<and> (\<forall>u. res = Inr u \<longrightarrow> batch_in crc S' d' L' ps)"
proof (cases "bytes_written (active S) < max_bytes S")
  case True
  then have "S' = S" "d' = d" using r by (simp_all add: seal_and_rotate_def)
  then show ?thesis using inv b set_invD(7)[OF inv np] by (auto simp: batch_in_def segs_def)
next
  case False
  obtain sres S1 d1 where sy: "set_sync (seal_sync io) S d = (sres, S1, d1)" by (rule prod_cases3)
  note Y = sync_keeps[OF inv sy]
  show ?thesis
  proof (cases "(\<exists>e. sres = Inl e) \<or> \<not> new_open io")
    case True
    then have "S' = S1" "d' = d1" "\<exists>e. res = Inl e" using r sy False by (auto simp: seal_and_rotate_def split: sum.splits)
    then show ?thesis using Y(1,2) by auto
  next
    case ok: False
    then obtain u where u: "sres = Inr u" by (cases sres) auto
    have d1: "active S1 = active S" "d1 = mark_synced (active_seq S) d" using Y(6)[OF u] by auto
    obtain S2 d2 where p: "push_sealed True S1 d1 = (S2, d2)" by (cases "push_sealed True S1 d1")
    have "synced_len d1 (active_seq S1) = length (file_of d1 (active_seq S1))" using Y(4) by (simp add: d1(2))
    note P = set_inv_push[OF Y(1) p impI[OF this]]
    let ?q = "active_seq S" and ?L = "L(active_seq S1 + 1 := [])"
    have eq: "S' = S2" "d' = write_meta crc ?q (max_committed (active S)) (retention_pin (active S)) (meta_write io) d2"
      using r sy False ok u p by (auto simp: seal_and_rotate_def)
    let ?m = "\<lparr>sm_seq = ?q, max_version = max_committed (active S), pinned = retention_pin (active S), synced = True\<rparr>"
    have q: "file_of d2 ?q = frames crc (?L ?q)" "synced_len d2 ?q = length (file_of d2 ?q)" "?q \<in> dir_keys d1"
      using set_invD(4)[OF inv] P(5)[of ?q] P(4) set_invD(7)[OF inv np] Y(4) by (auto simp: d1)
    have "set_inv bc crc S' d' ?L"
      unfolding eq using set_inv_write_meta[OF P(1), of ?m] q P(6) Y(3,4) d1(1) by simp
    moreover have "log_of ?L (segs S') = log_of L (segs S)" using log_push[OF Y(1) P(2)] Y(2) by (simp add: eq)
    moreover have "batch_in crc S' d' ?L ps"
      using q b P(2) Y(2,4) by (auto simp: batch_in_def eq segs_def intro!: bexI[of _ ?q])
    ultimately show ?thesis by blast
  qed
qed

lemma append_active_log:
  assumes inv: "set_inv bc crc S d L" and app: "append_active bc crc w ps mv S d = (res, S', d')"
  shows "\<exists>L' ext. set_inv bc crc S' d' L' \<and> log_of L' (segs S') = log_of L (segs S) @ ext \<and> max_bytes S' = max_bytes S
    \<and> (\<forall>n. res = Inr n \<longrightarrow> ext = ps \<and> \<not> poisoned (active S') \<and> suffix ps (L' (active_seq S')) \<and> batch_in crc S' d' L' ps)"
proof -
  let ?q = "active_seq S"
  obtain new where new: "set_inv bc crc S' d' (L(?q := L ?q @ new))" "S' = S\<lparr>active := active S'\<rparr>"
      "\<forall>n. res = Inr n \<longrightarrow> new = ps \<and> \<not> poisoned (active S')"
    using append_active_keeps[OF inv app] by blast
  have sg: "segs S' = segs S" "active_seq S' = ?q" "max_bytes S' = max_bytes S" by (subst new(2), simp add: segs_def)+
  have l: "log_of (L(?q := L ?q @ new)) (segs S') = log_of L (segs S) @ new"
    using log_active[OF inv, of "L ?q @ new"] by (simp add: sg) (simp add: segs_def)
  have "batch_in crc S' d' (L(?q := L ?q @ new)) ps \<and> suffix ps ((L(?q := L ?q @ new)) ?q)" if "res = Inr n" for n
    using new(3) that set_invD(7)[OF new(1)] sg by (auto simp: batch_in_def suffix_def segs_def)
  with new l sg show ?thesis by (intro exI[of _ "L(?q := L ?q @ new)"] exI[of _ new]) simp
qed

lemma append_fresh_log:
  assumes inv: "set_inv bc crc S d L" and app: "append_fresh bc crc io ps mv S d = (res, S', d')"
  shows "\<exists>L' ext. set_inv bc crc S' d' L' \<and> log_of L' (segs S') = log_of L (segs S) @ ext
    \<and> (\<forall>n. res = Inr n \<longrightarrow> suffix ps ext \<and> batch_in crc S' d' L' ps)"
proof -
  obtain r1 S1 d1 where a: "append_active bc crc (write1 io) ps mv S d = (r1, S1, d1)" by (rule prod_cases3)
  obtain L1 e1 where 1: "set_inv bc crc S1 d1 L1" "log_of L1 (segs S1) = log_of L (segs S) @ e1"
      "\<And>n. r1 = Inr n \<Longrightarrow> e1 = ps \<and> \<not> poisoned (active S1) \<and> suffix ps (L1 (active_seq S1)) \<and> batch_in crc S1 d1 L1 ps"
    using append_active_log[OF inv a] by blast
  show ?thesis
  proof (cases r1)
    case (Inr n)
    show ?thesis
    proof (cases "bytes_written (active S1) \<ge> max_bytes S1")
      case True
      obtain r2 S2 d2 where s: "seal_and_rotate crc io S1 d1 = (r2, S2, d2)" by (rule prod_cases3)
      obtain L2 where "set_inv bc crc S2 d2 L2" "log_of L2 (segs S2) = log_of L1 (segs S1)" "\<forall>u. r2 = Inr u \<longrightarrow> batch_in crc S2 d2 L2 ps"
        using seal_keeps[OF 1(1) _ s, of ps] 1(3)[OF Inr] by blast
      then show ?thesis using app a Inr True s 1(2) 1(3)[OF Inr] by (auto simp: append_fresh_def split: sum.splits)
    next
      case False
      then show ?thesis using app a Inr 1(1,2) 1(3)[OF Inr] by (auto simp: append_fresh_def)
    qed
  next
    case (Inl e)
    show ?thesis
    proof (cases "poisoned (active S1)")
      case True
      obtain r2 S2 d2 where s: "rotate_after_poison io S1 d1 = (r2, S2, d2)" by (rule prod_cases3)
      obtain L2 where 2: "set_inv bc crc S2 d2 L2" "log_of L2 (segs S2) = log_of L1 (segs S1)"
        using rotate_keeps[OF 1(1) s] by blast
      obtain r3 S3 d3 where b: "append_active bc crc (write2 io) ps mv S2 d2 = (r3, S3, d3)" by (rule prod_cases3)
      obtain L3 e3 where 3: "set_inv bc crc S3 d3 L3" "log_of L3 (segs S3) = log_of L2 (segs S2) @ e3"
          "\<And>n. r3 = Inr n \<Longrightarrow> e3 = ps \<and> batch_in crc S3 d3 L3 ps"
        using append_active_log[OF 2(1) b] by blast
      show ?thesis
      proof (cases r2)
        case (Inl e')
        then show ?thesis using app a \<open>r1 = Inl e\<close> True s 1(2) 2 by (auto simp: append_fresh_def)
      next
        case (Inr u)
        then have "res = r3" "S' = S3" "d' = d3" using app a \<open>r1 = Inl e\<close> True s b by (simp_all add: append_fresh_def)
        then show ?thesis using 1(2) 2(2) 3 by (intro exI[of _ L3] exI[of _ "e1 @ e3"]) (auto simp: suffix_def)
      qed
    next
      case False
      then show ?thesis using app a Inl 1(1,2) by (auto simp: append_fresh_def)
    qed
  qed
qed

lemma set_append_log:
  assumes inv: "set_inv bc crc S d L" and app: "set_append_batch bc crc io ps mv S d = (res, S', d')"
  shows "\<exists>L' ext. set_inv bc crc S' d' L' \<and> log_of L' (segs S') = log_of L (segs S) @ ext
    \<and> (\<forall>n. res = Inr n \<longrightarrow> suffix ps ext \<and> batch_in crc S' d' L' ps)"
proof (cases "poisoned (active S)")
  case True
  obtain r1 S1 d1 where s: "rotate_after_poison io S d = (r1, S1, d1)" by (rule prod_cases3)
  obtain L1 where 1: "set_inv bc crc S1 d1 L1" "log_of L1 (segs S1) = log_of L (segs S)" using rotate_keeps[OF inv s] by blast
  show ?thesis
  proof (cases r1)
    case (Inl e)
    then show ?thesis using app True s 1 by (auto simp: set_append_batch_def)
  next
    case (Inr u)
    then have "append_fresh bc crc io ps mv S1 d1 = (res, S', d')" using app True s by (simp add: set_append_batch_def)
    from append_fresh_log[OF 1(1) this] 1(2) show ?thesis by simp
  qed
next
  case False
  then have "append_fresh bc crc io ps mv S d = (res, S', d')" using app by (simp add: set_append_batch_def)
  from append_fresh_log[OF inv this] show ?thesis .
qed

section \<open>Replay and truncation\<close>

lemma sealed_sorted: "set_inv bc crc S d L \<Longrightarrow> sort_key sm_seq (sealed S) = sealed S"
  by (auto simp: set_inv_def segs_def sorted_wrt_append intro!: sort_key_id_if_sorted strict_sorted_imp_sorted)

lemma replay_all_sound:
  assumes "dir_inv bc crc d L" and "\<forall>m\<in>set ms. sm_seq m \<in> dir_keys d" and "replay_all bc crc d ms out = Inr es"
  shows "es = out @ entries_of bc (log_of L (map sm_seq ms)) \<and> (\<forall>m\<in>set ms. file_of d (sm_seq m) = frames crc (L (sm_seq m)))"
  using assms(2,3)
proof (induction ms arbitrary: out)
  case (Cons m ms)
  obtain es1 where r: "replay_path bc crc True False d (sm_seq m) = Inr es1" using Cons.prems by (auto split: sum.splits)
  have "es1 = entries_of bc (L (sm_seq m)) \<and> file_of d (sm_seq m) = frames crc (L (sm_seq m))" using replay_shape(2)[OF _ dir_invD(3,2)[OF assms(1)] r] Cons.prems(1) by auto
  then show ?case using Cons.IH[of "out @ es1"] Cons.prems r by simp
qed simp

lemma replay_all_complete:
  assumes "dir_inv bc crc d L" and "\<forall>m\<in>set ms. sm_seq m \<in> dir_keys d \<and> file_of d (sm_seq m) = frames crc (L (sm_seq m))"
  shows "replay_all bc crc d ms out = Inr (out @ entries_of bc (log_of L (map sm_seq ms)))"
  using assms(2)
proof (induction ms arbitrary: out)
  case (Cons m ms)
  then show ?case using replay_shape(3)[OF _ dir_invD(3,2)[OF assms(1)]] by auto
qed simp

lemma replay_log:
  assumes inv: "set_inv bc crc S d L"
  shows "set_replay bc crc S d = Inr es \<Longrightarrow> es = entries_of bc (log_of L (segs S))
      \<and> (\<forall>m\<in>set (sealed S). file_of d (sm_seq m) = frames crc (L (sm_seq m)))"
    and "\<forall>m\<in>set (sealed S). file_of d (sm_seq m) = frames crc (L (sm_seq m)) \<Longrightarrow> set_replay bc crc S d = Inr (entries_of bc (log_of L (segs S)))"
proof -
  note I = set_invD[OF inv]
  have keys: "\<forall>m\<in>set (sealed S). sm_seq m \<in> dir_keys d" using I(3) by (auto simp: segs_def)
  have act: "replay_path bc crc False False d (active_seq S) = Inr (entries_of bc (L (active_seq S)))"
    by (rule replay_shape(1)[OF I(4) dir_invD(3,2)[OF I(1)]]) (rule I(4))
  show "set_replay bc crc S d = Inr es \<Longrightarrow> es = entries_of bc (log_of L (segs S))
      \<and> (\<forall>m\<in>set (sealed S). file_of d (sm_seq m) = frames crc (L (sm_seq m)))"
    using replay_all_sound[OF I(1) keys, of "[]"] act by (auto simp: set_replay_def sealed_sorted[OF inv] segs_def split: sum.splits)
  show "set_replay bc crc S d = Inr (entries_of bc (log_of L (segs S)))"
    if "\<forall>m\<in>set (sealed S). file_of d (sm_seq m) = frames crc (L (sm_seq m))"
    using replay_all_complete[OF I(1), of "sealed S" "[]"] keys that act by (simp add: set_replay_def sealed_sorted[OF inv] segs_def)
qed

definition drop_segment :: "nat \<Rightarrow> bool \<Rightarrow> seg_set \<Rightarrow> wal_dir \<Rightarrow> seg_set \<times> wal_dir" where
  "drop_segment q rm S d = (S\<lparr>sealed := filter (\<lambda>x. sm_seq x \<noteq> q) (sealed S)\<rparr>, remove_meta q rm (d\<lparr>wal_files := hm_del q (wal_files d)\<rparr>))"

lemma drop_segment_keeps:
  assumes inv: "set_inv bc crc S d L" and q: "q \<noteq> active_seq S" and r: "drop_segment q rm S d = (S', d')"
  shows "set_inv bc crc S' d' L" "active_seq S' = active_seq S" "\<forall>k\<in>set (segs S'). file_of d' k = file_of d k"
proof -
  note I = set_invD[OF inv]
  have eq: "S' = S\<lparr>sealed := filter (\<lambda>x. sm_seq x \<noteq> q) (sealed S)\<rparr>" "d' = remove_meta q rm (d\<lparr>wal_files := hm_del q (wal_files d)\<rparr>)"
    using r by (auto simp: drop_segment_def)
  have ops: "dir_keys d' = dir_keys d - {q}" "synced_len d' = synced_len d" "wal_files d' = hm_del q (wal_files d)"
    by (auto simp: eq dir_keys_def remove_meta_def)
  have f: "file_of d' k = file_of d k" if "k \<noteq> q" for k using that by (simp add: eq file_of_def remove_meta_def)
  have m: "read_meta crc d' k = (if rm \<and> k = q then None else read_meta crc d k)" for k
    by (simp add: eq read_meta_remove) (simp add: read_meta_def)
  have "dir_inv bc crc d' L"
    unfolding dir_inv_def
  proof (intro conjI allI impI ballI, goal_cases)
    case (8 k)
    then have "\<forall>x\<in>dir_keys d. x < k" using I(4,9) q ops(1) by (metis DiffI le_less_trans singletonD)
    then show ?case using dir_invD(7)[OF I(1), of k] m by simp
  next
    case (9 k)
    then have "\<forall>x\<in>dir_keys d. x < k" using I(4,9) q ops(1) by (metis DiffI le_less_trans singletonD)
    then show ?case using dir_invD(7)[OF I(1), of k] ops(2) by simp
  qed (use dir_invD[OF I(1)] ops f m in \<open>auto split: if_splits\<close>)
  moreover have "set (segs S') = set (segs S) - {q}" using q by (auto simp: eq segs_def)
  moreover have "sorted_wrt (<) (segs S')"
    using I(2) by (auto simp: eq segs_def sorted_wrt_append sorted_wrt_map sorted_wrt_filter)
  ultimately show "set_inv bc crc S' d' L" using I q f ops m by (auto simp: set_inv_def eq)
  show "active_seq S' = active_seq S" by (simp add: eq)
  show "\<forall>k\<in>set (segs S'). file_of d' k = file_of d k" using f q by (auto simp: eq segs_def)
qed

lemma filter_log_drop:
  assumes "\<forall>e\<in>set (entries_of bc (L q)). \<not> keep e"
  shows "filter keep (entries_of bc (log_of L (map sm_seq (filter (\<lambda>x. sm_seq x \<noteq> q) ms)))) = filter keep (entries_of bc (log_of L (map sm_seq ms)))"
proof (induction ms)
  case (Cons m ms)
  then show ?case using assms by (auto simp: filter_empty_conv)
qed simp

lemma truncate_loop_keeps:
  assumes inv: "set_inv bc crc S d L"
    and ms: "\<forall>m\<in>set ms. sm_seq m \<noteq> active_seq S \<and> (\<forall>e\<in>set (entries_of bc (L (sm_seq m))). \<not> keep e)"
    and r: "truncate_loop unlink rm ms del fail S d = (cnt, S', d')"
  shows "set_inv bc crc S' d' L \<and> filter keep (entries_of bc (log_of L (segs S'))) = filter keep (entries_of bc (log_of L (segs S)))
    \<and> set (segs S') \<subseteq> set (segs S) \<and> (\<forall>k\<in>set (segs S'). file_of d' k = file_of d k) \<and> active_seq S' = active_seq S"
  using inv ms r
proof (induction ms arbitrary: del fail S d)
  case (Cons m ms)
  let ?gone = "map_of (wal_files d) (sm_seq m) = None"
  show ?case
  proof (cases "\<not> ?gone \<and> \<not> unlink (sm_seq m)")
    case True
    then show ?thesis using Cons by simp
  next
    case False
    obtain S1 d1 where t: "drop_segment (sm_seq m) (rm (sm_seq m)) S d = (S1, d1)"
      by (cases "drop_segment (sm_seq m) (rm (sm_seq m)) S d")
    have k: "set_inv bc crc S1 d1 L" "active_seq S1 = active_seq S" "\<forall>k\<in>set (segs S1). file_of d1 k = file_of d k"
      using drop_segment_keeps[OF Cons.prems(1) _ t] Cons.prems(2) by auto
    have s1: "sealed S1 = filter (\<lambda>x. sm_seq x \<noteq> sm_seq m) (sealed S)" using t by (auto simp: drop_segment_def)
    have "truncate_loop unlink rm ms (if ?gone then del else del + 1) fail S1 d1 = (cnt, S', d')"
      using Cons.prems(3) False t by (auto simp: Let_def drop_segment_def split: if_splits)
    from Cons.IH[OF k(1) _ this] Cons.prems(2) k(2)
    have "set_inv bc crc S' d' L \<and> filter keep (entries_of bc (log_of L (segs S'))) = filter keep (entries_of bc (log_of L (segs S1)))
        \<and> set (segs S') \<subseteq> set (segs S1) \<and> (\<forall>k\<in>set (segs S'). file_of d' k = file_of d1 k) \<and> active_seq S' = active_seq S1" by simp
    moreover have "filter keep (entries_of bc (log_of L (segs S1))) = filter keep (entries_of bc (log_of L (segs S)))"
      using filter_log_drop[of bc L "sm_seq m" keep "sealed S"] Cons.prems(2) k(2) by (simp add: segs_def s1)
    moreover have "set (segs S1) \<subseteq> set (segs S)" using s1 k(2) by (auto simp: segs_def)
    ultimately show ?thesis using k(2,3) by auto
  qed
qed simp

definition drained :: "u64 \<Rightarrow> wal_entry \<Rightarrow> bool" where
  "drained durable e = (0 < commit_version e \<and> commit_version e \<le> durable)"

lemma covers_drained:
  "covers bc ps mv pin \<Longrightarrow> \<not> pin \<Longrightarrow> mv \<le> durable \<Longrightarrow> e \<in> set (entries_of bc ps) \<Longrightarrow> drained durable e"
  by (auto simp: covers_def drained_def word_gt_0 intro: order_trans)

lemma truncate_keeps:
  assumes inv: "set_inv bc crc S d L" and r: "truncate_below unlink rm durable S d = (res, S', d')"
  shows "set_inv bc crc S' d' L \<and> filter (\<lambda>e. \<not> drained durable e) (entries_of bc (log_of L (segs S')))
      = filter (\<lambda>e. \<not> drained durable e) (entries_of bc (log_of L (segs S)))
    \<and> set (segs S') \<subseteq> set (segs S) \<and> (\<forall>k\<in>set (segs S'). file_of d' k = file_of d k) \<and> active_seq S' = active_seq S"
proof -
  have "\<forall>m\<in>set (filter (reclaimable durable) (sealed S)). sm_seq m \<noteq> active_seq S
      \<and> (\<forall>e\<in>set (entries_of bc (L (sm_seq m))). \<not> \<not> drained durable e)"
    using active_not_sealed[OF inv] covers_drained[OF set_invD(5)[OF inv]] by (auto simp: reclaimable_def)
  from truncate_loop_keeps[OF inv this] r show ?thesis by (auto simp: truncate_below_def split: prod.splits)
qed

section \<open>The exact snapshot\<close>

lemma flag_synced_simps [simp]:
  "active (flag_synced q S) = active S" "active_seq (flag_synced q S) = active_seq S" "segs (flag_synced q S) = segs S"
  by (auto simp: flag_synced_def segs_def)

lemma set_inv_flag:
  assumes inv: "set_inv bc crc S d L" and q: "q \<in> dir_keys d"
  shows "set_inv bc crc (flag_synced q S) (mark_synced q d) L"
proof -
  have "dir_inv bc crc (mark_synced q d) L" using set_invD(1)[OF inv] q by (auto simp: dir_inv_def)
  moreover have "\<forall>m\<in>set (sealed (flag_synced q S)). covers bc (L (sm_seq m)) (max_version m) (pinned m)
      \<and> (synced m \<longrightarrow> synced_len (mark_synced q d) (sm_seq m) = length (file_of (mark_synced q d) (sm_seq m)))"
    using set_invD(5,10)[OF inv] by (auto simp: flag_synced_def)
  ultimately show ?thesis using inv by (simp add: set_inv_def)
qed

lemma decode_snapshot_sound:
  assumes "dir_inv bc crc d L" and "q \<in> dir_keys d" and "decode_snapshot bc crc (file_of d q) (length (file_of d q)) = Inr es"
  shows "es = entries_of bc (L q) \<and> file_of d q = frames crc (L q)"
proof -
  note D = dir_invD[OF assms(1)]
  obtain t where t: "file_of d q = frames crc (L q) @ t" "t = [] \<or> torn crc t" using D(3)[OF assms(2)] by (auto simp: seg_shape_def)
  have "t = []" using snapshot_torn[OF D(2)[of q], of crc t 0 "[]"] assms(3) t by (auto simp: decode_snapshot_def)
  then show ?thesis
    using assms(3) t(1) snapshot_loop_prefix[OF D(2)[of q], of "length (file_of d q)" 0 crc "[]" "[]"]
    by (simp add: decode_snapshot_def frame_reader_new_def)
qed

lemma snapshot_sealed_sound:
  assumes "set_inv bc crc S d L" and "\<forall>m\<in>set ms. sm_seq m \<in> dir_keys d"
    and "snapshot_sealed bc crc ok ms out S d = (Inr es, S', d')"
  shows "set_inv bc crc S' d' L \<and> segs S' = segs S \<and> active S' = active S \<and> file_of d' = file_of d
    \<and> es = out @ entries_of bc (log_of L (map sm_seq ms))
    \<and> (\<forall>m\<in>set ms. file_of d (sm_seq m) = frames crc (L (sm_seq m)) \<and> (synced m \<or> synced_len d' (sm_seq m) = length (file_of d (sm_seq m))))
    \<and> (\<forall>q. synced_len d q = length (file_of d q) \<longrightarrow> synced_len d' q = length (file_of d q))"
  using assms
proof (induction ms arbitrary: out S d)
  case (Cons m ms)
  let ?q = "sm_seq m"
  have q: "?q \<in> dir_keys d" "map_of (wal_files d) ?q = Some (file_of d ?q)"
    using Cons.prems(2) by (auto simp: dir_keys_def file_of_def)
  obtain rec where rec: "decode_snapshot bc crc (file_of d ?q) (length (file_of d ?q)) = Inr rec"
    using Cons.prems(3) q(2) by (auto split: sum.splits)
  have e: "rec = entries_of bc (L ?q)" "file_of d ?q = frames crc (L ?q)"
    using decode_snapshot_sound[OF set_invD(1)[OF Cons.prems(1)] q(1) rec] by auto
  show ?case
  proof (cases "synced m")
    case True
    then have "snapshot_sealed bc crc ok ms (out @ rec) S d = (Inr es, S', d')" using Cons.prems(3) q(2) rec by simp
    from Cons.IH[OF Cons.prems(1) _ this] Cons.prems(2) e True show ?thesis by auto
  next
    case False
    then have r: "snapshot_sealed bc crc ok ms (out @ rec) (flag_synced ?q S) (mark_synced ?q d) = (Inr es, S', d')"
      using Cons.prems(3) q(2) rec by (auto split: if_splits)
    from Cons.IH[OF set_inv_flag[OF Cons.prems(1) q(1)] _ r] Cons.prems(2) e False show ?thesis by auto
  qed
qed simp

lemma snapshot_sealed_inv:
  assumes "set_inv bc crc S d L" and "snapshot_sealed bc crc ok ms out S d = (res, S', d')"
  shows "set_inv bc crc S' d' L"
  using assms
proof (induction ms arbitrary: out S d)
  case (Cons m ms)
  have "set_inv bc crc (flag_synced (sm_seq m) S) (mark_synced (sm_seq m) d) L" if "map_of (wal_files d) (sm_seq m) = Some f" for f
    using set_inv_flag[OF Cons.prems(1), of "sm_seq m"] that by (auto simp: dir_keys_def)
  with Cons show ?case by (fastforce split: option.splits sum.splits if_splits)
qed simp

lemma sync_snapshot_inv:
  "set_inv bc crc S d L \<Longrightarrow> sync_snapshot bc crc ok S d = (res, S', d') \<Longrightarrow> set_inv bc crc S' d' L"
  using snapshot_sealed_inv by (fastforce simp: sync_snapshot_def split: prod.splits sum.splits)

lemma sync_snapshot_sound:
  assumes inv: "set_inv bc crc S d L" and np: "\<not> poisoned (active S)" and r: "sync_snapshot bc crc ok S d = (Inr es, S', d')"
  shows "set_inv bc crc S' d' L" "segs S' = segs S" "active S' = active S" "es = entries_of bc (log_of L (segs S))"
    "m \<in> set (sealed S') \<Longrightarrow> file_of d' (sm_seq m) = frames crc (L (sm_seq m)) \<and> synced_len d' (sm_seq m) = length (file_of d' (sm_seq m))"
proof -
  note I = set_invD[OF inv]
  obtain es1 S1 d1 where s: "snapshot_sealed bc crc ok (sealed S) [] S d = (Inr es1, S1, d1)" "S1 = S'" "d1 = d'"
    using r by (auto simp: sync_snapshot_def split: prod.splits sum.splits)
  have "\<forall>m\<in>set (sealed S). sm_seq m \<in> dir_keys d" using I(3) by (auto simp: segs_def)
  note snd = snapshot_sealed_sound[OF inv this s(1)]
  have "decode_snapshot bc crc (file_of d' (active_seq S)) (bytes_written (active S)) = Inr (entries_of bc (L (active_seq S)))"
    using I(7)[OF np] snd s(3) snapshot_loop_prefix[OF dir_invD(2)[OF I(1), of "active_seq S"], of "bytes_written (active S)" 0 crc "[]" "[]"]
    by (simp add: decode_snapshot_def frame_reader_new_def)
  then show "es = entries_of bc (log_of L (segs S))" using r s snd by (auto simp: sync_snapshot_def segs_def)
  show seg: "set_inv bc crc S' d' L" "segs S' = segs S" "active S' = active S" using snd s by auto
  assume "m \<in> set (sealed S')"
  moreover have "map sm_seq (sealed S') = map sm_seq (sealed S)" using seg(2) by (simp add: segs_def)
  ultimately obtain m0 where m0: "m0 \<in> set (sealed S)" "sm_seq m0 = sm_seq m" by (metis (mono_tags) image_iff list.set_map)
  then show "file_of d' (sm_seq m) = frames crc (L (sm_seq m)) \<and> synced_len d' (sm_seq m) = length (file_of d' (sm_seq m))"
    using snd s I(10)[OF m0(1)] by metis
qed

end
