(* ===== verification/SegmentRecovery.thy ===== *)
theory SegmentRecovery
  imports SegmentLog
begin

text \<open>
  Power loss and reopening of the segmented log, runs of all its operations, and the guarantees
  a caller has: what was synced survives, recovery returns a beginning of the log, truncation keeps what is not
  drained, and the exact snapshot of the sync worker tells the truth.
\<close>

section \<open>Power loss and reopening\<close>

text \<open>
  What a power loss leaves: of every file at least the bytes an fsync covered and otherwise any beginning of it,
  and any of the sidecars.  The directory entry of a segment is durable because opening a new file
  syncs the directory.
\<close>

definition crash :: "wal_dir \<Rightarrow> wal_dir \<Rightarrow> bool" where
  "crash d d' =
    (hm_ok (wal_files d') \<and> synced_len d' = synced_len d \<and> dir_keys d' = dir_keys d
     \<and> (\<forall>q\<in>dir_keys d. \<exists>k\<ge>synced_len d q. file_of d' q = take k (file_of d q))
     \<and> (\<forall>q. map_of (metas d') q = None \<or> map_of (metas d') q = map_of (metas d) q))"

lemma torn_take:
  assumes "torn crc t"
  shows "take m t = [] \<or> torn crc (take m t)"
proof -
  obtain p k where p: "length p \<le> MAX_FRAME_BYTES" "0 < k" "k < length p + 8" "t = take k (frame crc p)"
    using assms by (auto simp: torn_def)
  then have "take m t = take (min m k) (frame crc p)" by simp
  moreover have "min m k < length p + 8" using p(3) by simp
  ultimately show ?thesis using p(1) unfolding torn_def by (cases "m = 0") (auto intro!: exI[of _ p] exI[of _ "min m k"] simp: p(2))
qed

lemma shape_take:
  assumes "seg_shape crc ps f" and len: "\<forall>p\<in>set ps. length p \<le> MAX_FRAME_BYTES"
  shows "\<exists>j. seg_shape crc (take j ps) (take k f) \<and> (\<forall>i \<le> length ps. length (frames crc (take i ps)) \<le> k \<longrightarrow> i \<le> j)"
proof -
  obtain t where f: "f = frames crc ps @ t" "t = [] \<or> torn crc t" using assms(1) by (auto simp: seg_shape_def)
  show ?thesis
  proof (cases "length (frames crc ps) \<le> k")
    case True
    then have "take k f = frames crc (take (length ps) ps) @ take (k - length (frames crc ps)) t" by (simp add: f(1))
    moreover have "take (k - length (frames crc ps)) t = [] \<or> torn crc (take (k - length (frames crc ps)) t)"
      using f(2) torn_take[of crc t "k - length (frames crc ps)"] by (cases "t = []") auto
    ultimately show ?thesis by (intro exI[of _ "length ps"]) (auto simp: seg_shape_def)
  next
    case False
    then have k: "take k f = take k (frames crc ps)" by (simp add: f(1))
    obtain n t' where n: "n \<le> length ps" "take k (frames crc ps) = frames crc (take n ps) @ t'" "t' = [] \<or> torn crc t'"
        "n < length ps \<longrightarrow> k < length (frames crc (take (Suc n) ps))"
      using take_frames[OF len, of k crc] by blast
    have "i \<le> n" if i: "i \<le> length ps" "length (frames crc (take i ps)) \<le> k" for i
    proof (rule ccontr)
      assume "\<not> i \<le> n"
      then have "take i ps = take (Suc n) ps @ take (i - Suc n) (drop (Suc n) ps)"
        by (metis le_add_diff_inverse not_less_eq_eq take_add)
      then have "length (frames crc (take (Suc n) ps)) \<le> length (frames crc (take i ps))" by simp
      then show False using n(4) i \<open>\<not> i \<le> n\<close> by auto
    qed
    then show ?thesis using n(2,3) k by (intro exI[of _ n]) (auto simp: seg_shape_def)
  qed
qed

lemma crash_read_meta: "crash d d' \<Longrightarrow> read_meta crc d' q = Some x \<Longrightarrow> read_meta crc d q = Some x"
proof -
  assume c: "crash d d'" and r: "read_meta crc d' q = Some x"
  have "map_of (metas d') q = None \<or> map_of (metas d') q = map_of (metas d) q" using c by (simp add: crash_def)
  then show "read_meta crc d q = Some x" using r by (auto simp: read_meta_def)
qed

lemma crash_dir_inv:
  assumes inv: "set_inv bc crc S d L" and c: "crash d d'"
  shows "\<exists>L'. dir_inv bc crc d' L' \<and> (\<forall>q\<in>dir_keys d. \<exists>j. L' q = take j (L q)
    \<and> (\<forall>i \<le> length (L q). length (frames crc (take i (L q))) \<le> synced_len d q \<longrightarrow> i \<le> j))"
proof -
  note I = set_invD[OF inv]
  note D = dir_invD[OF I(1)]
  have c': "hm_ok (wal_files d')" "synced_len d' = synced_len d" "dir_keys d' = dir_keys d"
      "\<forall>q\<in>dir_keys d. \<exists>k\<ge>synced_len d q. file_of d' q = take k (file_of d q)"
    using c by (auto simp: crash_def)
  obtain kf where kf: "\<forall>q\<in>dir_keys d. kf q \<ge> synced_len d q \<and> file_of d' q = take (kf q) (file_of d q)"
    using bchoice[OF c'(4)] by blast
  have len: "\<forall>p\<in>set (L q). length p \<le> MAX_FRAME_BYTES" for q using D(2)[of q] payload_okD by blast
  have "\<forall>q\<in>dir_keys d. \<exists>j. seg_shape crc (take j (L q)) (file_of d' q)
      \<and> (\<forall>i \<le> length (L q). length (frames crc (take i (L q))) \<le> kf q \<longrightarrow> i \<le> j)"
    using shape_take[OF D(3) len] kf by fastforce
  from bchoice[OF this] obtain jf where jf: "\<forall>q\<in>dir_keys d. seg_shape crc (take (jf q) (L q)) (file_of d' q)
      \<and> (\<forall>i \<le> length (L q). length (frames crc (take i (L q))) \<le> kf q \<longrightarrow> i \<le> jf q)" by blast
  let ?L = "\<lambda>q. take (jf q) (L q)"
  have full: "?L q = L q \<and> file_of d' q = file_of d q"
    if q: "q \<in> dir_keys d" "file_of d q = frames crc (L q)" "synced_len d q = length (file_of d q)" for q
  proof -
    have "length (file_of d q) \<le> kf q" using kf q by metis
    then show ?thesis using kf jf q by (auto dest!: bspec)
  qed
  have "dir_inv bc crc d' ?L"
    unfolding dir_inv_def
  proof (intro conjI allI impI ballI, goal_cases)
    case 1
    show ?case by (rule c'(1))
  next
    case (2 q p)
    then show ?case using D(2)[of q] by (meson in_set_takeD)
  next
    case (3 q)
    then show ?case using jf c'(3) by simp
  next
    case (4 q)
    then show ?case using kf D(4)[of q] c'(2,3) by (auto dest!: bspec)
  next
    case (5 q mv pin)
    then show ?case using full[of q] D(5)[of q mv pin] crash_read_meta[OF c] c'(3) by auto
  next
    case (6 q mv pin)
    then show ?case using full[of q] D(5)[of q mv pin] crash_read_meta[OF c] c'(2,3) by auto
  next
    case (7 q mv pin b)
    then show ?case using full[of q] D(5)[of q mv pin] D(6)[of q mv b] crash_read_meta[OF c] c'(3) by auto
  next
    case (8 q)
    then show ?case using D(7)[of q] crash_read_meta[OF c, of crc q] c'(3) by (cases "read_meta crc d' q") auto
  next
    case (9 q)
    then show ?case using D(7)[of q] c'(2,3) by auto
  qed
  moreover have "\<exists>j. ?L q = take j (L q) \<and> (\<forall>i \<le> length (L q). length (frames crc (take i (L q))) \<le> synced_len d q \<longrightarrow> i \<le> j)"
    if "q \<in> dir_keys d" for q
    using jf kf that by (intro exI[of _ "jf q"] conjI refl) (meson order_trans)
  ultimately show ?thesis by blast
qed

lemma retention_covers: "retention_summary (entries_of bc ps) = (mv, pin) \<Longrightarrow> covers bc ps mv pin"
  using fold_max_upper(2) by (auto simp: retention_summary_def covers_def list_ex_iff)

lemma open_active_ok:
  assumes inv: "dir_inv bc crc d L" and srt: "sorted_wrt (<) (map sm_seq ms @ [seq])"
    and keys: "insert seq (dir_keys d) = set (map sm_seq ms @ [seq])"
    and cov: "\<forall>m\<in>set ms. covers bc (L (sm_seq m)) (max_version m) (pinned m)
      \<and> (synced m \<longrightarrow> synced_len d (sm_seq m) = length (file_of d (sm_seq m)))"
    and m: "read_meta crc d seq = None" and new: "seq \<notin> dir_keys d \<Longrightarrow> L seq = [] \<and> synced_len d seq = 0"
  shows "\<exists>S' d'. open_active bc crc rm maxb seq ms d = (Inr S', d') \<and> set_inv bc crc S' d' L \<and> sealed S' = ms \<and> active_seq S' = seq
    \<and> (\<forall>q\<in>dir_keys d. q \<noteq> seq \<longrightarrow> file_of d' q = file_of d q)"
proof -
  note D = dir_invD[OF inv]
  let ?f = "file_of d seq"
  have sh: "seg_shape crc (L seq) ?f"
    using D(3)[of seq] new by (cases "seq \<in> dir_keys d") (auto simp: file_of_def dir_keys_def seg_shape_def split: option.splits)
  have len: "\<forall>p\<in>set (L seq). length p \<le> MAX_FRAME_BYTES" using D(2)[of seq] payload_okD by blast
  have rep: "repair_torn_tail crc (seg_open ?f) ?f = (Inr (), (seg_open ?f)\<lparr>bytes_written := length (frames crc (L seq))\<rparr>, frames crc (L seq))"
    using sh repair_torn[OF len, of "[]" crc "seg_open ?f"] repair_torn[OF len, of _ crc "seg_open ?f"]
    by (auto simp: seg_shape_def seg_open_def)
  let ?d = "trunc_file seq (frames crc (L seq)) (put_file seq ?f d)"
  have r: "replay_path bc crc False False ?d seq = Inr (entries_of bc (L seq))"
    by (rule replay_shape(1)) (auto simp: seg_shape_def D(2))
  obtain mv pin where s: "retention_summary (entries_of bc (L seq)) = (mv, pin)" by (cases "retention_summary (entries_of bc (L seq))")
  let ?S = "\<lparr>max_bytes = maxb, sealed = ms, active = restore_retention mv pin ((seg_open ?f)\<lparr>bytes_written := length (frames crc (L seq))\<rparr>), active_seq = seq\<rparr>"
  have o: "open_active bc crc rm maxb seq ms d = (Inr ?S, remove_meta seq rm ?d)"
    by (simp add: open_active_def Let_def rep r s)
  have "dir_inv bc crc ?d L"
    using inv m new by (auto simp: dir_inv_def seg_shape_def)
  moreover have "\<forall>m\<in>set ms. sm_seq m \<noteq> seq" using srt by (auto simp: sorted_wrt_append)
  ultimately have "set_inv bc crc ?S ?d L"
    using srt keys cov retention_covers[OF s] m by (auto simp: set_inv_def segs_def restore_retention_def seg_open_def elim: covers_mono)
  from set_inv_remove_meta[OF this] o show ?thesis by auto
qed

lemma sealed_of_sound:
  assumes inv: "dir_inv bc crc d L" and q: "q \<in> dir_keys d" and r: "sealed_of bc crc d q = Inr m"
  shows "sm_seq m = q \<and> covers bc (L q) (max_version m) (pinned m) \<and> file_of d q = frames crc (L q) \<and> \<not> synced m"
proof -
  note D = dir_invD[OF inv]
  have rp: "es = entries_of bc (L q) \<and> file_of d q = frames crc (L q)" if "replay_path bc crc True False d q = Inr es" for es
    using replay_shape(2)[OF q D(3)[OF q] D(2) that] .
  show ?thesis
    using r rp D(5,6)[OF q] retention_covers[of bc "L q"]
    by (auto simp: sealed_of_def split: option.splits sum.splits prod.splits)
qed

lemma sealed_of_complete:
  assumes inv: "dir_inv bc crc d L" and q: "q \<in> dir_keys d" and f: "file_of d q = frames crc (L q)"
  shows "\<exists>m. sealed_of bc crc d q = Inr m"
  using replay_shape(3)[OF q dir_invD(3)[OF inv q] dir_invD(2)[OF inv] f]
  by (auto simp: sealed_of_def split: option.splits prod.splits)

lemma seal_all_sound:
  assumes inv: "dir_inv bc crc d L" and q: "set qs \<subseteq> dir_keys d" and r: "seal_all bc crc d qs = Inr ms"
  shows "map sm_seq ms = qs \<and> (\<forall>m\<in>set ms. covers bc (L (sm_seq m)) (max_version m) (pinned m) \<and> \<not> synced m) \<and> (\<forall>q\<in>set qs. file_of d q = frames crc (L q))"
  using q r
proof (induction qs arbitrary: ms)
  case (Cons q qs)
  obtain m ms' where m: "sealed_of bc crc d q = Inr m" "seal_all bc crc d qs = Inr ms'" "ms = m # ms'"
    using Cons.prems(2) by (cases "seal_all bc crc d qs") (auto split: sum.splits)
  with Cons sealed_of_sound[OF inv _ m(1)] show ?case by auto
qed simp

lemma seal_all_complete:
  assumes inv: "dir_inv bc crc d L" and "\<forall>q\<in>set qs. q \<in> dir_keys d \<and> file_of d q = frames crc (L q)"
  shows "\<exists>ms. seal_all bc crc d qs = Inr ms"
  using assms(2)
proof (induction qs)
  case (Cons q qs)
  then obtain m ms where "sealed_of bc crc d q = Inr m" "seal_all bc crc d qs = Inr ms" using sealed_of_complete[OF inv] by fastforce
  then show ?case by simp
qed simp

lemma set_open_scan:
  assumes "dir_inv bc crc d L" and "\<forall>q\<in>dir_keys d. q < 2 ^ 64"
  shows "scan_dir (map (seg_file_name \<circ> fst) (wal_files d)) = Inr (sort (map fst (wal_files d)))"
    and "set (sort (map fst (wal_files d))) = dir_keys d" and "sorted_wrt (<) (sort (map fst (wal_files d)))"
proof -
  have d: "distinct (map fst (wal_files d))" using dir_invD(1)[OF assms(1)] by (simp add: hm_ok_def)
  show k: "set (sort (map fst (wal_files d))) = dir_keys d" by (simp add: dir_keys_def dom_map_of_conv_image_fst)
  then show "scan_dir (map (seg_file_name \<circ> fst) (wal_files d)) = Inr (sort (map fst (wal_files d)))"
    using scan_dir_canonical[OF d] assms(2) by (simp flip: map_map)
  show "sorted_wrt (<) (sort (map fst (wal_files d)))" using d by (simp add: strict_sorted_iff)
qed

lemma pick_active_sound:
  assumes inv: "dir_inv bc crc d L" and hi: "hi \<in> dir_keys d" and p: "pick_active bc crc d ms hi = Inr (ms', seq)"
  shows "(ms' = ms \<and> seq = hi \<and> read_meta crc d hi = None)
    \<or> (\<exists>m. ms' = ms @ [m] \<and> sm_seq m = hi \<and> seq = Suc hi \<and> covers bc (L hi) (max_version m) (pinned m) \<and> file_of d hi = frames crc (L hi)
      \<and> synced_len d hi = length (file_of d hi))"
proof (cases "read_meta crc d hi")
  case None
  then show ?thesis using p by (simp add: pick_active_def)
next
  case (Some x)
  note D = dir_invD[OF inv]
  obtain mv pin where x: "read_meta crc d hi = Some (mv, pin)" using Some by (cases x) auto
  have f: "file_of d hi = frames crc (L hi)" "synced_len d hi = length (file_of d hi)" using D(5)[OF hi x] by simp_all
  have "replay_path bc crc True False d hi = Inr (entries_of bc (L hi))" by (rule replay_shape(3)[OF hi D(3)[OF hi] D(2) f(1)])
  then show ?thesis using p x f D(6)[OF hi, of mv] retention_covers[of bc "L hi"]
    by (auto simp: pick_active_def split: option.splits prod.splits)
qed

lemma pick_active_complete:
  assumes inv: "dir_inv bc crc d L" and hi: "hi \<in> dir_keys d"
  shows "\<exists>ms' seq. pick_active bc crc d ms hi = Inr (ms', seq)"
  using replay_shape(3)[OF hi dir_invD(3)[OF inv hi] dir_invD(2)[OF inv]] dir_invD(5)[OF inv hi]
  by (auto simp: pick_active_def split: option.splits prod.splits)

lemma set_open_inv:
  assumes inv: "dir_inv bc crc d L" and bound: "\<forall>q\<in>dir_keys d. q < 2 ^ 64" and out: "\<forall>q. q \<notin> dir_keys d \<longrightarrow> L q = []"
    and o: "set_open bc crc rm maxb d = (Inr S', d')"
  shows "set_inv bc crc S' d' L \<and> dir_keys d \<subseteq> set (segs S') \<and> (\<forall>m\<in>set (sealed S'). file_of d' (sm_seq m) = frames crc (L (sm_seq m)))
    \<and> log_of L (segs S') = log_of L (sort (map fst (wal_files d)))"
proof -
  note D = dir_invD[OF inv]
  note sc = set_open_scan[OF inv bound]
  let ?seqs = "sort (map fst (wal_files d))"
  show ?thesis
  proof (cases "?seqs = []")
    case True
    then have S: "S' = \<lparr>max_bytes = maxb, sealed = [], active = seg_open [], active_seq = 0\<rparr>" "d' = put_file 0 [] d"
      using o sc(1) by (auto simp: set_open_def)
    have k: "dir_keys d = {}" using True sc(2) by simp
    have "read_meta crc d q = None \<and> synced_len d q = 0" for q using D(7)[of q] k by auto
    with inv k out show ?thesis using True by (auto simp: S set_inv_def dir_inv_def segs_def seg_open_def seg_shape_def)
  next
    case False
    let ?init = "butlast ?seqs" and ?hi = "last ?seqs"
    have split: "?seqs = ?init @ [?hi]" using False by simp
    have srt: "sorted_wrt (<) (?init @ [?hi])" "set (?init @ [?hi]) = dir_keys d" using sc(2,3) by (simp_all only: split[symmetric])
    obtain ms where ms: "seal_all bc crc d ?init = Inr ms" using o False sc(1) by (auto simp: set_open_def split: sum.splits)
    have sub: "set ?init \<subseteq> dir_keys d" "?hi \<in> dir_keys d" using srt(2) by auto
    note sound = seal_all_sound[OF inv sub(1) ms]
    obtain ms' seq where p: "pick_active bc crc d ms ?hi = Inr (ms', seq)" "open_active bc crc rm maxb seq ms' d = (Inr S', d')"
      using o False sc(1) ms by (auto simp: set_open_def split: sum.splits)
    have top: "k \<le> ?hi" if "k \<in> dir_keys d" for k
    proof -
      have "k \<in> set (?init @ [?hi])" using that srt(2) by simp
      then show ?thesis using srt(1) by (auto simp: sorted_wrt_append dest: less_imp_le)
    qed
    have z: "read_meta crc d (Suc ?hi) = None \<and> synced_len d (Suc ?hi) = 0 \<and> Suc ?hi \<notin> dir_keys d"
      using D(7)[of "Suc ?hi"] top not_less_eq_eq[of ?hi ?hi] by (metis le_imp_less_Suc order_refl)
    note cases = pick_active_sound[OF inv sub(2) p(1)]
    have in_init: "sm_seq x \<in> set ?init \<and> sm_seq x \<in> dir_keys d" if "x \<in> set ms" for x
      using sound that sub(1) by (metis image_eqI list.set_map subsetD)
    obtain S'' d'' where oa: "open_active bc crc rm maxb seq ms' d = (Inr S'', d'')" "set_inv bc crc S'' d'' L" "sealed S'' = ms'"
        "active_seq S'' = seq" "\<forall>q\<in>dir_keys d. q \<noteq> seq \<longrightarrow> file_of d'' q = file_of d q"
      using cases
    proof (elim disjE exE conjE, goal_cases)
      case 1
      then show ?thesis using open_active_ok[OF inv, of ms ?hi rm maxb] srt sound sub(2) by auto
    next
      case (2 m)
      have "sorted_wrt (<) (map sm_seq (ms @ [m]) @ [Suc ?hi])" using srt(1,2) sound 2(3) top by (auto simp: sorted_wrt_append less_Suc_eq_le)
      moreover have "insert (Suc ?hi) (dir_keys d) = set (map sm_seq (ms @ [m]) @ [Suc ?hi])" using srt(2) sound 2(3) by auto
      ultimately show ?thesis using 2 open_active_ok[OF inv, of "ms @ [m]" "Suc ?hi" rm maxb] sound z out by auto
    qed
    then have eq: "S'' = S'" "d'' = d'" using p(2) by auto
    have sg: "segs S' = ?seqs \<or> segs S' = ?seqs @ [Suc ?hi]"
      using cases sound oa(3,4) by (subst (1 2) split) (auto simp: segs_def eq)
    have intact: "\<forall>m\<in>set (sealed S'). file_of d' (sm_seq m) = frames crc (L (sm_seq m))"
    proof
      fix m assume m: "m \<in> set (sealed S')"
      have ne: "sm_seq m \<noteq> seq" using active_not_sealed[OF oa(2)] m oa(4) by (auto simp: eq)
      have "sm_seq m \<in> dir_keys d \<and> file_of d (sm_seq m) = frames crc (L (sm_seq m))"
        using cases sound m sub oa(3) in_init[of m] by (auto simp: eq)
      then show "file_of d' (sm_seq m) = frames crc (L (sm_seq m))" using oa(5) ne by (simp add: eq)
    qed
    moreover have "log_of L (segs S') = log_of L ?seqs" using sg z out by auto
    moreover have "dir_keys d \<subseteq> set (segs S')" using sg sc(2) by auto
    ultimately show ?thesis using oa(2) by (simp add: eq)
  qed
qed

section \<open>Runs\<close>

definition empty_dir :: wal_dir where
  "empty_dir = \<lparr>wal_files = [], metas = [], synced_len = (\<lambda>_. 0)\<rparr>"

inductive wal_run :: "bincode \<Rightarrow> (bytes \<Rightarrow> u32) \<Rightarrow> nat \<Rightarrow> seg_set \<Rightarrow> wal_dir \<Rightarrow> bool" for bc crc maxb where
  fresh: "set_open bc crc rm maxb empty_dir = (Inr S, d) \<Longrightarrow> wal_run bc crc maxb S d"
| append: "wal_run bc crc maxb S d \<Longrightarrow> set_append_batch bc crc io ps mv S d = (res, S', d') \<Longrightarrow> wal_run bc crc maxb S' d'"
| sync: "wal_run bc crc maxb S d \<Longrightarrow> set_sync ok S d = (ures, S', d') \<Longrightarrow> wal_run bc crc maxb S' d'"
| snapshot: "wal_run bc crc maxb S d \<Longrightarrow> sync_snapshot bc crc oks S d = (eres, S', d') \<Longrightarrow> wal_run bc crc maxb S' d'"
| truncate: "wal_run bc crc maxb S d \<Longrightarrow> truncate_below unlink rms durable S d = (nres, S', d') \<Longrightarrow> wal_run bc crc maxb S' d'"
| reopen: "wal_run bc crc maxb S d \<Longrightarrow> active_seq S < 2 ^ 64 \<Longrightarrow> crash d d1 \<Longrightarrow> set_open bc crc rm maxb d1 = (Inr S', d') \<Longrightarrow> wal_run bc crc maxb S' d'"

lemma dir_inv_restrict: "dir_inv bc crc d L \<Longrightarrow> dir_inv bc crc d (\<lambda>q. if q \<in> dir_keys d then L q else [])"
  by (auto simp: dir_inv_def)

lemma reopen_inv:
  assumes inv: "set_inv bc crc S d L" and bound: "active_seq S < 2 ^ 64" and c: "crash d d1" and o: "set_open bc crc rm maxb d1 = (Inr S', d')"
  shows "\<exists>L'. set_inv bc crc S' d' L' \<and> set (segs S) \<subseteq> set (segs S') \<and> set_replay bc crc S' d' = Inr (entries_of bc (log_of L' (segs S')))
    \<and> (\<forall>q\<in>set (segs S). \<exists>j. L' q = take j (L q) \<and> (\<forall>i \<le> length (L q). length (frames crc (take i (L q))) \<le> synced_len d q \<longrightarrow> i \<le> j))
    \<and> log_of L' (segs S') = log_of L' (segs S)"
proof -
  note I = set_invD[OF inv]
  have k: "dir_keys d1 = set (segs S)" using c I(3) by (simp add: crash_def)
  have b: "\<forall>q\<in>dir_keys d1. q < 2 ^ 64" using I(3,9) bound k by (auto intro: le_less_trans)
  obtain L1 where L1: "dir_inv bc crc d1 L1" "\<forall>q\<in>dir_keys d. \<exists>j. L1 q = take j (L q)
      \<and> (\<forall>i \<le> length (L q). length (frames crc (take i (L q))) \<le> synced_len d q \<longrightarrow> i \<le> j)"
    using crash_dir_inv[OF inv c] by blast
  let ?L = "\<lambda>q. if q \<in> dir_keys d1 then L1 q else []"
  have r: "set_inv bc crc S' d' ?L" "dir_keys d1 \<subseteq> set (segs S')" "\<forall>m\<in>set (sealed S'). file_of d' (sm_seq m) = frames crc (?L (sm_seq m))"
      "log_of ?L (segs S') = log_of ?L (sort (map fst (wal_files d1)))"
    using set_open_inv[OF dir_inv_restrict[OF L1(1)] b _ o] by simp_all
  have "sort (map fst (wal_files d1)) = segs S"
    using set_open_scan(2,3)[OF L1(1) b] I(2) k by (intro strict_sorted_equal) simp_all
  then show ?thesis using r replay_log(2)[OF r(1,3)] L1(2) k I(3) by (intro exI[of _ ?L]) auto
qed

lemma wal_run_inv: "wal_run bc crc maxb S d \<Longrightarrow> \<exists>L. set_inv bc crc S d L"
proof (induction rule: wal_run.induct)
  case (fresh rm S d)
  have e: "dir_inv bc crc empty_dir (\<lambda>_. [])" "dir_keys empty_dir = {}"
    by (auto simp: dir_inv_def empty_dir_def dir_keys_def read_meta_def)
  show ?case using set_open_inv[OF e(1) _ _ fresh] e(2) by auto
next
  case (append S d io ps mv res S' d')
  then show ?case using set_append_log by blast
next
  case (sync S d ok ures S' d')
  then show ?case using sync_keeps(1) by blast
next
  case (snapshot S d oks eres S' d')
  then show ?case using sync_snapshot_inv by blast
next
  case (truncate S d unlink rms durable nres S' d')
  then show ?case using truncate_keeps by blast
next
  case (reopen S d d1 rm S' d')
  then show ?case using reopen_inv by blast
qed

lemma set_open_ok:
  assumes inv: "dir_inv bc crc d L" and bound: "\<forall>q\<in>dir_keys d. q < 2 ^ 64" and out: "\<forall>q. q \<notin> dir_keys d \<longrightarrow> L q = []"
    and hi: "hi \<in> dir_keys d" "\<forall>q\<in>dir_keys d. q \<le> hi"
    and intact: "\<forall>q\<in>dir_keys d. q \<noteq> hi \<longrightarrow> file_of d q = frames crc (L q)"
  shows "\<exists>S' d'. set_open bc crc rm maxb d = (Inr S', d')"
proof -
  note D = dir_invD[OF inv]
  note sc = set_open_scan[OF inv bound]
  let ?seqs = "sort (map fst (wal_files d))"
  have ne: "?seqs \<noteq> []" using sc(2) hi(1) by (metis empty_iff list.set(1))
  then have split: "?seqs = butlast ?seqs @ [last ?seqs]" by simp
  have srt: "sorted_wrt (<) (butlast ?seqs @ [last ?seqs])" "set (butlast ?seqs @ [last ?seqs]) = dir_keys d"
    using sc(2,3) by (simp_all only: split[symmetric])
  have last: "last ?seqs = hi"
  proof -
    have "hi \<in> set (butlast ?seqs @ [last ?seqs])" using hi(1) srt(2) by simp
    then have "hi \<le> last ?seqs" using srt(1) by (auto simp: sorted_wrt_append dest: less_imp_le)
    then show ?thesis using hi(2) srt(2) by (auto intro: le_antisym)
  qed
  have "q \<in> dir_keys d \<and> file_of d q = frames crc (L q)" if "q \<in> set (butlast ?seqs)" for q
  proof -
    have "q \<in> dir_keys d" "q \<noteq> hi" using that srt last by (auto simp: sorted_wrt_append)
    then show ?thesis using intact by blast
  qed
  then obtain ms where ms: "seal_all bc crc d (butlast ?seqs) = Inr ms" using seal_all_complete[OF inv] by blast
  have sound: "map sm_seq ms = butlast ?seqs" "\<forall>m\<in>set ms. covers bc (L (sm_seq m)) (max_version m) (pinned m) \<and> \<not> synced m"
    using seal_all_sound[OF inv _ ms] srt(2) by auto
  obtain ms' seq where p: "pick_active bc crc d ms hi = Inr (ms', seq)" using pick_active_complete[OF inv hi(1)] by blast
  have z: "read_meta crc d (Suc hi) = None \<and> synced_len d (Suc hi) = 0 \<and> Suc hi \<notin> dir_keys d"
    using D(7)[of "Suc hi"] hi(2) by (metis le_imp_less_Suc not_less_eq_eq order_refl)
  have "\<exists>S' d'. open_active bc crc rm maxb seq ms' d = (Inr S', d')"
    using pick_active_sound[OF inv hi(1) p]
  proof (elim disjE exE conjE, goal_cases)
    case 1
    then show ?case using open_active_ok[OF inv, of ms hi rm maxb] srt sound last hi(1) by auto
  next
    case (2 m)
    have "sorted_wrt (<) (map sm_seq (ms @ [m]) @ [Suc hi])" using srt(1,2) sound(1) 2(2) last by (auto simp: sorted_wrt_append less_Suc_eq)
    moreover have "insert (Suc hi) (dir_keys d) = set (map sm_seq (ms @ [m]) @ [Suc hi])" using srt(2) sound(1) 2(2) last by auto
    ultimately show ?case using 2 open_active_ok[OF inv, of "ms @ [m]" "Suc hi" rm maxb] sound z out by auto
  qed
  then show ?thesis using sc(1) ne ms p last by (auto simp: set_open_def)
qed

text \<open>Reopening succeeds when every sealed segment is intact and durable.\<close>

lemma reopen_ok:
  assumes inv: "set_inv bc crc S d L" and bound: "active_seq S < 2 ^ 64" and c: "crash d d1"
    and intact: "\<forall>m\<in>set (sealed S). file_of d (sm_seq m) = frames crc (L (sm_seq m)) \<and> synced_len d (sm_seq m) = length (file_of d (sm_seq m))"
  shows "\<exists>S' d'. set_open bc crc rm maxb d1 = (Inr S', d')"
proof -
  note I = set_invD[OF inv]
  have k: "dir_keys d1 = set (segs S)" using c I(3) by (simp add: crash_def)
  have b: "\<forall>q\<in>dir_keys d1. q < 2 ^ 64" using I(3,9) bound k by (auto intro: le_less_trans)
  obtain L1 where L1: "dir_inv bc crc d1 L1" "\<forall>q\<in>dir_keys d. \<exists>j. L1 q = take j (L q)
      \<and> (\<forall>i \<le> length (L q). length (frames crc (take i (L q))) \<le> synced_len d q \<longrightarrow> i \<le> j)"
    using crash_dir_inv[OF inv c] by blast
  have "file_of d1 (sm_seq m) = frames crc (L1 (sm_seq m))" if m: "m \<in> set (sealed S)" for m
  proof -
    have q: "sm_seq m \<in> dir_keys d" using m I(3) by (auto simp: segs_def)
    obtain kk where "kk \<ge> synced_len d (sm_seq m)" "file_of d1 (sm_seq m) = take kk (file_of d (sm_seq m))"
      using c q by (auto simp: crash_def)
    then have "file_of d1 (sm_seq m) = frames crc (L (sm_seq m))" using intact m by simp
    moreover have "L1 (sm_seq m) = L (sm_seq m)" using L1(2) q intact m by fastforce
    ultimately show ?thesis by simp
  qed
  then show ?thesis
    using I(4,9) k I(3) b
    by (intro set_open_ok[OF dir_inv_restrict[OF L1(1)], where hi = "active_seq S"]) (auto simp: segs_def)
qed

section \<open>Properties\<close>

text \<open>The state of a new log, and one successful append to it, for the examples.\<close>

definition fresh_set :: "nat \<Rightarrow> seg_set" where
  "fresh_set maxb = \<lparr>max_bytes = maxb, sealed = [], active = seg_open [], active_seq = 0\<rparr>"

definition fresh_dir :: wal_dir where "fresh_dir = put_file 0 [] empty_dir"

definition io_ok :: append_io where
  "io_ok = \<lparr>write1 = WriteOk, write2 = WriteOk, seal_sync = True, new_open = True, meta_write = True, meta_remove = True\<rparr>"

lemma fresh_open: "set_open bc crc rm maxb empty_dir = (Inr (fresh_set maxb), fresh_dir)"
  by (simp add: set_open_def scan_dir_def empty_dir_def fresh_set_def fresh_dir_def)

lemma fresh_run: "wal_run bc crc maxb (fresh_set maxb) fresh_dir"
  by (rule wal_run.fresh[OF fresh_open])

lemma check_one: "payload_ok bc p \<Longrightarrow> \<exists>pm pn. check_payloads bc [p] v False = Inr (pm, pn)"
  using check_payloads_iff[of bc "[p]" v False] by auto

lemma fresh_append:
  assumes "payload_ok bc p" and "length p + 8 < maxb"
  shows "\<exists>seg. set_append_batch bc crc io_ok [p] v (fresh_set maxb) fresh_dir
      = (Inr 0, (fresh_set maxb)\<lparr>active := seg\<rparr>, put_file 0 (frames crc [p]) fresh_dir) \<and> \<not> poisoned seg"
proof -
  obtain pm pn where c: "check_payloads bc [p] v False = Inr (pm, pn)" using check_one[OF assms(1)] by blast
  have f: "file_of fresh_dir 0 = []" by (simp add: fresh_dir_def)
  show ?thesis using assms(2)
    by (simp add: set_append_batch_def append_fresh_def append_active_def fresh_set_def seg_open_def f seg_append_batch_def c del: check_payloads.simps frames_simps)
      (simp add: io_ok_def write_frames_def Let_def)
qed

lemma crash_refl: "hm_ok (wal_files d) \<Longrightarrow> synced_len d \<le> (\<lambda>q. length (file_of d q)) \<Longrightarrow> crash d d"
  by (auto simp: crash_def le_fun_def)









text \<open>C39: A write that fails and cannot be rolled back leaves a log that no longer opens: the append is retried on the
  next segment and reported as a success, but the segment with the torn frame is then sealed, and opening
  the directory repairs only the active one.\<close>

theorem failed_rollback_blocks_open:
  assumes "set_open bc crc rm maxb empty_dir = (Inr S, d)" and "payload_ok bc p" and "0 < k" and "k < length p + 8"
  shows "\<exists>n S' d' e. set_append_batch bc crc (io_ok\<lparr>write1 := WriteFails k False\<rparr>) [p] v S d = (Inr n, S', d')
    \<and> set_open bc crc rm maxb d' = (Inl e, d')"
proof -
  obtain pm pn where c: "check_payloads bc [p] v False = Inr (pm, pn)" using check_one[OF assms(2)] by blast
  have S: "S = fresh_set maxb" "d = fresh_dir" using assms(1) fresh_open by auto
  have f: "file_of fresh_dir 0 = []" "file_of fresh_dir (Suc 0) = []" by (simp_all add: fresh_dir_def empty_dir_def file_of_def put_file_def)
  let ?d = "put_file (Suc 0) (frame crc p) (put_file (Suc 0) [] (remove_meta 0 True (put_file 0 (take k (frame crc p)) fresh_dir)))"
  have a: "\<exists>n S'. set_append_batch bc crc (io_ok\<lparr>write1 := WriteFails k False\<rparr>) [p] v S d = (Inr n, S', ?d)"
    by (simp add: S set_append_batch_def append_fresh_def append_active_def fresh_set_def seg_open_def f seg_append_batch_def c
        io_ok_def write_frames_def Let_def rotate_after_poison_def push_sealed_def del: check_payloads.simps)
  have files: "wal_files ?d = [(0, take k (frame crc p)), (Suc 0, frame crc p)]"
    by (simp add: put_file_def remove_meta_def fresh_dir_def empty_dir_def hm_put_def insert_full_def)
  have scan: "scan_dir (map (seg_file_name \<circ> fst) (wal_files ?d)) = Inr [0, Suc 0]"
    using scan_dir_canonical[of "[0, Suc 0]"] by (simp add: files)
  have "torn crc (take k (frame crc p))" using assms(3,4) payload_okD(1)[OF assms(2)] by (auto simp: torn_def)
  then have "\<exists>e. replay_path bc crc True False ?d 0 = Inl e"
    using replay_torn[of "[]" bc crc _ True False] by (simp add: replay_path_def files)
  moreover have "read_meta crc ?d 0 = None" by (simp add: read_meta_def remove_meta_def put_file_def fresh_dir_def empty_dir_def)
  ultimately have "\<exists>e. seal_all bc crc ?d [0] = Inl e" by (auto simp: sealed_of_def)
  then have "\<exists>e. set_open bc crc rm maxb ?d = (Inl e, ?d)" using scan by (auto simp: set_open_def)
  with a show ?thesis by blast
qed

theorem failed_rollback_blocks_open_witness:
  "\<exists>n S' d' e. set_append_batch sample_bincode (\<lambda>_. 9) (io_ok\<lparr>write1 := WriteFails 3 False\<rparr>) [sample_payload] 7 (fresh_set 1000) fresh_dir = (Inr n, S', d')
    \<and> set_open sample_bincode (\<lambda>_. 9) True 1000 d' = (Inl e, d')"
  by (rule failed_rollback_blocks_open[OF fresh_open sample_payload_ok(1)]) simp_all

end
