(* ===== verification/VersionKeys.thy ===== *)
theory VersionKeys
  imports KvStore
begin

text \<open>
  The physical keys of the version log: \<^verbatim>\<open>shamir-tx/src/version/wal_event/version_codec.rs\<close>
  and the timestamp keys of \<^verbatim>\<open>mvcc_store/store.rs\<close>.  Versions and timestamps are natural
  numbers below \<^verbatim>\<open>2^64\<close>; the codec works on the 64-bit words they stand for.  The lemmas give the
  round trips, the order of the keys, and which keys a range or prefix scan of one record meets.
\<close>

definition U64_MAX :: nat where "U64_MAX = 2 ^ 64 - 1"

definition VERSION_SEP :: u8 where "VERSION_SEP = 0xFF"
definition TS_TAG :: u8 where "TS_TAG = 0x00"

definition encode_version_key :: "bytes \<Rightarrow> nat \<Rightarrow> bytes" where
  "encode_version_key key version = key @ [VERSION_SEP] @ be64 (of_nat version)"

definition decode_version_key :: "bytes \<Rightarrow> (bytes \<times> nat) option" where
  "decode_version_key physical =
    (if length physical < 9 then None
     else let split = length physical - 9 in
       if physical ! split \<noteq> VERSION_SEP then None
       else Some (take split physical, unat (un_be64 (drop (split + 1) physical))))"

definition ts_key :: "nat \<Rightarrow> bytes" where
  "ts_key version = [TS_TAG] @ be64 (of_nat version)"

definition decode_ts_key :: "bytes \<Rightarrow> nat option" where
  "decode_ts_key physical =
    (if length physical \<noteq> 9 \<or> physical ! 0 \<noteq> TS_TAG then None
     else Some (unat (un_be64 (drop 1 physical))))"

text \<open>A recorded commit time is eight little-endian bytes.\<close>

definition ts_bytes :: "nat \<Rightarrow> bytes" where
  "ts_bytes ms = le64 (of_nat ms)"

definition ts_of_bytes :: "bytes \<Rightarrow> nat option" where
  "ts_of_bytes b = (if length b = 8 then Some (unat (un_le64 b)) else None)"

section \<open>Round trips\<close>

lemma U64_MAX_less: "v \<le> U64_MAX \<longleftrightarrow> v < 2 ^ 64"
  by (auto simp: U64_MAX_def)

lemma unat_of_u64: "v \<le> U64_MAX \<Longrightarrow> unat (of_nat v :: u64) = v"
  by (simp add: U64_MAX_less unat_of_nat)

lemma unat_le_max: "unat (w :: u64) \<le> U64_MAX"
  using unat_less_pow[of w] by (simp add: U64_MAX_less)

lemma length_encode_version_key [simp]: "length (encode_version_key k v) = length k + 9"
  by (simp add: encode_version_key_def)

lemma decode_encode [simp]: "v \<le> U64_MAX \<Longrightarrow> decode_version_key (encode_version_key k v) = Some (k, v)"
  by (simp add: decode_version_key_def encode_version_key_def nth_append unat_of_u64)

lemma decode_SomeD:
  assumes "decode_version_key p = Some (k, v)"
  shows "p = encode_version_key k v \<and> v \<le> U64_MAX"
proof -
  let ?s = "length p - 9"
  from assms have len: "9 \<le> length p" and sep: "p ! ?s = VERSION_SEP" and k: "k = take ?s p"
    and v: "v = unat (un_be64 (drop (?s + 1) p))"
    by (auto simp: decode_version_key_def Let_def split: if_splits)
  have "p = take ?s p @ p ! ?s # drop (?s + 1) p"
    using len by (simp add: id_take_nth_drop)
  moreover have "be64 (of_nat v) = drop (?s + 1) p"
    using len by (simp add: v be64_un_be64)
  ultimately show ?thesis using unat_le_max by (simp add: encode_version_key_def k sep v)
qed

lemma decode_Some_iff: "decode_version_key p = Some (k, v) \<longleftrightarrow> p = encode_version_key k v \<and> v \<le> U64_MAX"
  using decode_SomeD by auto

lemma encode_inject [simp]:
  "\<lbrakk>v \<le> U64_MAX; w \<le> U64_MAX\<rbrakk> \<Longrightarrow> encode_version_key k v = encode_version_key l w \<longleftrightarrow> k = l \<and> v = w"
  by (metis decode_encode option.inject prod.inject)

lemma decode_ts_key_ts_key [simp]: "v \<le> U64_MAX \<Longrightarrow> decode_ts_key (ts_key v) = Some v"
  by (simp add: decode_ts_key_def ts_key_def unat_of_u64)

lemma ts_key_inject [simp]: "\<lbrakk>v \<le> U64_MAX; w \<le> U64_MAX\<rbrakk> \<Longrightarrow> ts_key v = ts_key w \<longleftrightarrow> v = w"
  by (metis decode_ts_key_ts_key option.inject)

lemma ts_key_not_version [simp]: "decode_version_key (ts_key v) = None"
  by (simp add: decode_version_key_def ts_key_def TS_TAG_def VERSION_SEP_def)

lemma encode_neq_ts [simp]: "v \<le> U64_MAX \<Longrightarrow> encode_version_key k v \<noteq> ts_key w" "v \<le> U64_MAX \<Longrightarrow> ts_key w \<noteq> encode_version_key k v"
  by (metis decode_encode option.distinct(1) ts_key_not_version)+

lemma ts_of_bytes_ts_bytes [simp]: "ms \<le> U64_MAX \<Longrightarrow> ts_of_bytes (ts_bytes ms) = Some ms"
  by (simp add: ts_of_bytes_def ts_bytes_def unat_of_u64)

section \<open>Order\<close>

lemma of_nat_u64_le [simp]: "\<lbrakk>v \<le> U64_MAX; w \<le> U64_MAX\<rbrakk> \<Longrightarrow> (of_nat v :: u64) \<le> of_nat w \<longleftrightarrow> v \<le> w"
  by (simp add: word_le_nat_alt unat_of_u64)

lemma of_nat_u64_less_iff [simp]: "\<lbrakk>v \<le> U64_MAX; w \<le> U64_MAX\<rbrakk> \<Longrightarrow> (of_nat v :: u64) < of_nat w \<longleftrightarrow> v < w"
  by (simp add: word_less_nat_alt unat_of_u64)

lemma encode_le_iff [simp]:
  "\<lbrakk>v \<le> U64_MAX; w \<le> U64_MAX\<rbrakk> \<Longrightarrow> encode_version_key k v \<le> encode_version_key k w \<longleftrightarrow> v \<le> w"
  by (simp add: encode_version_key_def)

lemma encode_less_same [simp]:
  "\<lbrakk>v \<le> U64_MAX; w \<le> U64_MAX\<rbrakk> \<Longrightarrow> encode_version_key k v < encode_version_key k w \<longleftrightarrow> v < w"
  by (simp add: encode_version_key_def)

lemma encode_less_iff:
  assumes "length k = length l" and "v \<le> U64_MAX" "w \<le> U64_MAX"
  shows "encode_version_key k v < encode_version_key l w \<longleftrightarrow> k < l \<or> k = l \<and> v < w"
  using assms by (simp add: encode_version_key_def less_append_iff_eq_length)

lemma in_window_encode [simp]:
  assumes "v \<le> U64_MAX" "s \<le> U64_MAX"
  shows "in_window (Some (encode_version_key k 0)) (Some (encode_version_key k s)) (encode_version_key k v) \<longleftrightarrow> v \<le> s"
    and "in_window (Some (encode_version_key k 0)) None (encode_version_key k v)"
proof -
  have "(0 :: nat) \<le> U64_MAX" by simp
  from encode_le_iff[OF this assms(1), of k] encode_less_same[OF assms(1) this, of k] encode_less_same[OF assms(2,1), of k]
  show "in_window (Some (encode_version_key k 0)) (Some (encode_version_key k s)) (encode_version_key k v) \<longleftrightarrow> v \<le> s"
    and "in_window (Some (encode_version_key k 0)) None (encode_version_key k v)"
    by (auto simp: in_window_def past_lo_def past_hi_def)
qed

lemma prefix_encode [simp]: "prefix (k @ [VERSION_SEP]) (encode_version_key k v)"
  by (simp add: encode_version_key_def)

end
