(* ===== verification/VersionedOverlay.thy ===== *)
theory VersionedOverlay
  imports VersionKeys "HOL-Library.Product_Lexorder"
begin

text \<open>
  The in-memory overlay of committed values the version log does not hold yet
  (\<^verbatim>\<open>shamir-tx/src/version/versioned_overlay.rs\<close>): a key-major tree for reads, a version-major
  tree for reclamation, the map whose entry guard serialises the mutations of an entry, and two
  counters.  The identity of an \<^verbatim>\<open>Arc\<close> is a number drawn at its allocation, so that a
  reclamation that found an entry before somebody replaced it can be told from one that did not.
  The lemmas show that the three indexes always agree, what each read returns in terms of the one map
  they represent, and that reclamation removes exactly the versions up to its threshold.
\<close>

record overlay_entry =
  oe_id :: nat
  ovalue :: bytes
  obytes :: nat

record overlay =
  tree :: "((bytes \<times> nat) \<times> overlay_entry) list"
  by_version :: "((nat \<times> bytes) \<times> overlay_entry) list"
  mutations :: "bytes \<times> nat \<rightharpoonup> overlay_entry"
  byte_size :: nat
  ocount :: nat
  next_id :: nat

definition PER_ENTRY_OVERHEAD :: nat where "PER_ENTRY_OVERHEAD = 64"

definition overlay_new :: overlay where
  "overlay_new = \<lparr>tree = [], by_version = [], mutations = Map.empty, byte_size = 0, ocount = 0, next_id = 0\<rparr>"

definition overlay_insert :: "bytes \<Rightarrow> nat \<Rightarrow> bytes \<Rightarrow> overlay \<Rightarrow> overlay" where
  "overlay_insert key version value ov =
    (case mutations ov (key, version) of
       Some _ \<Rightarrow> ov
     | None \<Rightarrow>
         let entry = \<lparr>oe_id = next_id ov, ovalue = value, obytes = length key + length value + PER_ENTRY_OVERHEAD\<rparr>
         in ov\<lparr>tree := snd (insert_sync (key, version) entry (tree ov)),
               by_version := snd (insert_sync (version, key) entry (by_version ov)),
               mutations := (mutations ov)((key, version) \<mapsto> entry),
               byte_size := byte_size ov + obytes entry, ocount := ocount ov + 1, next_id := next_id ov + 1\<rparr>)"

definition overlay_get :: "overlay \<Rightarrow> bytes \<Rightarrow> nat \<Rightarrow> bytes option" where
  "overlay_get ov key version = map_option ovalue (map_of (tree ov) (key, version))"

definition remove_if_current :: "bytes \<times> nat \<Rightarrow> overlay_entry option \<Rightarrow> overlay \<Rightarrow> overlay" where
  "remove_if_current composite expected ov =
    (case mutations ov composite of
       None \<Rightarrow> ov
     | Some entry \<Rightarrow>
         if (case expected of None \<Rightarrow> False | Some candidate \<Rightarrow> oe_id candidate \<noteq> oe_id entry) then ov
         else ov\<lparr>tree := snd (remove_sync composite (tree ov)),
                 by_version := snd (remove_sync (snd composite, fst composite) (by_version ov)),
                 mutations := (mutations ov)(composite := None),
                 byte_size := byte_size ov - obytes entry, ocount := ocount ov - 1\<rparr>)"

definition overlay_remove :: "bytes \<Rightarrow> nat \<Rightarrow> overlay \<Rightarrow> overlay" where
  "overlay_remove key version ov = remove_if_current (key, version) None ov"

definition newest_visible :: "overlay \<Rightarrow> bytes \<Rightarrow> nat \<Rightarrow> (nat \<times> bytes) option" where
  "newest_visible ov key max_version =
    (let r = ti_range (Included (key, 0)) (Included (key, max_version)) (tree ov)
     in if r = [] then None else Some (snd (fst (last r)), ovalue (snd (last r))))"

definition versions_of :: "overlay \<Rightarrow> bytes \<Rightarrow> (nat \<times> bytes) list" where
  "versions_of ov key =
    map (\<lambda>(k, e). (snd k, ovalue e)) (ti_range (Included (key, 0)) (Included (key, U64_MAX)) (tree ov))"

text \<open>The candidate of one round: the first entry past the cursor that is not above the threshold.\<close>

definition gc_candidate :: "nat \<Rightarrow> (nat \<times> bytes) option \<Rightarrow> overlay \<Rightarrow> ((nat \<times> bytes) \<times> overlay_entry) option" where
  "gc_candidate threshold cursor ov =
    (let lower = (case cursor of None \<Rightarrow> Unbounded | Some c \<Rightarrow> Excluded c);
         upper = (if threshold + 1 \<le> U64_MAX then Excluded (threshold + 1, []) else Unbounded);
         r = ti_range lower upper (by_version ov)
     in if r = [] then None else Some (hd r))"

definition past_cursor :: "(nat \<times> bytes) option \<Rightarrow> nat \<times> bytes \<Rightarrow> bool" where
  "past_cursor cursor k = (case cursor of None \<Rightarrow> True | Some c \<Rightarrow> c < k)"

lemma gc_candidate_SomeD:
  "gc_candidate threshold cursor ov = Some ((version, key), entry) \<Longrightarrow>
    ((version, key), entry) \<in> set (by_version ov) \<and> past_cursor cursor (version, key)
    \<and> (threshold + 1 \<le> U64_MAX \<longrightarrow> (version, key) < (threshold + 1, []))"
proof -
  assume a: "gc_candidate threshold cursor ov = Some ((version, key), entry)"
  let ?r = "ti_range (case cursor of None \<Rightarrow> Unbounded | Some c \<Rightarrow> Excluded c)
    (if threshold + 1 \<le> U64_MAX then Excluded (threshold + 1, []) else Unbounded) (by_version ov)"
  from a have "?r \<noteq> []" "hd ?r = ((version, key), entry)"
    by (auto simp: gc_candidate_def Let_def split: if_splits)
  then have "((version, key), entry) \<in> set ?r" by (metis hd_in_set)
  then show ?thesis unfolding set_ti_range past_cursor_def by (cases cursor) (auto split: if_splits)
qed

lemma by_version_remove_if_current: "set (by_version (remove_if_current c x ov)) \<subseteq> set (by_version ov)"
  by (auto simp: remove_if_current_def remove_sync_def split: option.splits)

lemma by_version_remove_filter:
  "length (filter P (by_version (remove_if_current c x ov))) \<le> length (filter P (by_version ov))"
proof -
  have "\<exists>Q. by_version (remove_if_current c x ov) = filter Q (by_version ov)"
  proof (cases "by_version (remove_if_current c x ov) = by_version ov")
    case True
    then show ?thesis by (intro exI[of _ "\<lambda>_. True"]) simp
  next
    case False
    then show ?thesis by (auto simp: remove_if_current_def remove_sync_def split: option.splits if_splits)
  qed
  then obtain Q where "by_version (remove_if_current c x ov) = filter Q (by_version ov)" ..
  moreover have "filter P (filter Q xs) = filter Q (filter P xs)" for xs :: "((nat \<times> bytes) \<times> overlay_entry) list"
    by (simp add: conj_commute)
  ultimately show ?thesis by (simp only: length_filter_le)
qed

lemma gc_round_decreases:
  assumes "gc_candidate threshold cursor ov = Some ((version, key), entry)"
  shows "length (filter (\<lambda>e. past_cursor (Some (version, key)) (fst e)) (by_version (remove_if_current (key, version) (Some entry) ov)))
    < length (filter (\<lambda>e. past_cursor cursor (fst e)) (by_version ov))"
proof -
  note c = gc_candidate_SomeD[OF assms]
  let ?A = "\<lambda>e :: (nat \<times> bytes) \<times> overlay_entry. past_cursor cursor (fst e)"
  let ?B = "\<lambda>e :: (nat \<times> bytes) \<times> overlay_entry. past_cursor (Some (version, key)) (fst e)"
  have imp: "?B e \<Longrightarrow> ?A e" for e
    using c[THEN conjunct2, THEN conjunct1] unfolding past_cursor_def option.case by (cases cursor) (simp_all only: option.case less_trans)
  have "((version, key), entry) \<in> set (filter ?A (by_version ov))" using c by simp
  moreover have "\<not> ?B ((version, key), entry)" by (simp add: past_cursor_def)
  ultimately have "length (filter ?B (filter ?A (by_version ov))) < length (filter ?A (by_version ov))"
    by (rule length_filter_less)
  then have "length (filter ?B (by_version ov)) < length (filter ?A (by_version ov))"
    using filter_filter_implied[of "by_version ov" ?B ?A] imp by simp
  with by_version_remove_filter show ?thesis by (rule le_less_trans)
qed

function gc_candidates :: "nat \<Rightarrow> (nat \<times> bytes) option \<Rightarrow> overlay \<Rightarrow> overlay" where
  "gc_candidates threshold cursor ov =
    (case gc_candidate threshold cursor ov of
       None \<Rightarrow> ov
     | Some ((version, key), entry) \<Rightarrow>
         gc_candidates threshold (Some (version, key)) (remove_if_current (key, version) (Some entry) ov))"
  by pat_completeness auto
termination
  by (relation "measure (\<lambda>(t, cursor, ov). length (filter (\<lambda>e. past_cursor cursor (fst e)) (by_version ov)))")
    (use gc_round_decreases in auto)

declare gc_candidates.simps [simp del]

definition gc_upto :: "nat \<Rightarrow> nat \<Rightarrow> overlay \<Rightarrow> overlay" where
  "gc_upto durable_watermark floor ov =
    (let threshold = min durable_watermark floor in if threshold = 0 then ov else gc_candidates threshold None ov)"

definition snapshot_push :: "nat \<Rightarrow> (bytes \<times> nat) \<times> overlay_entry \<Rightarrow> (bytes \<times> nat \<times> bytes) list \<Rightarrow> (bytes \<times> nat \<times> bytes) list" where
  "snapshot_push floor e out =
    (let ((k, v), val) = e in
     if v > floor then out
     else if out \<noteq> [] \<and> fst (last out) = k then butlast out @ [(k, v, ovalue val)]
     else out @ [(k, v, ovalue val)])"

definition snapshot_le :: "overlay \<Rightarrow> nat \<Rightarrow> (bytes \<times> nat \<times> bytes) list" where
  "snapshot_le ov floor = (if floor = 0 then [] else fold (snapshot_push floor) (tree ov) [])"

definition iter_all_le :: "overlay \<Rightarrow> nat \<Rightarrow> (bytes \<times> nat \<times> bytes) list" where
  "iter_all_le ov floor =
    (if floor = 0 then []
     else map (\<lambda>((k, v), e). (k, v, ovalue e)) (filter (\<lambda>((k, v), e). v \<le> floor) (tree ov)))"

definition overlay_len :: "overlay \<Rightarrow> nat" where "overlay_len ov = ocount ov"
definition overlay_is_empty :: "overlay \<Rightarrow> bool" where "overlay_is_empty ov = (overlay_len ov = 0)"
definition approx_bytes :: "overlay \<Rightarrow> nat" where "approx_bytes ov = byte_size ov"

section \<open>Invariant\<close>

text \<open>The three indexes hold the same entries, and the counters count them.\<close>

definition ov_ok :: "overlay \<Rightarrow> bool" where
  "ov_ok ov = (ti_ok (tree ov) \<and> ti_ok (by_version ov) \<and> map_of (tree ov) = mutations ov
    \<and> (\<forall>k v. map_of (by_version ov) (v, k) = mutations ov (k, v))
    \<and> byte_size ov = sum_list (map (\<lambda>((k, v), e). length k + length (ovalue e) + PER_ENTRY_OVERHEAD) (tree ov))
    \<and> ocount ov = length (tree ov)
    \<and> (\<forall>k v e. mutations ov (k, v) = Some e \<longrightarrow> obytes e = length k + length (ovalue e) + PER_ENTRY_OVERHEAD))"

text \<open>The map the overlay stands for.\<close>

definition ov_map :: "overlay \<Rightarrow> bytes \<times> nat \<rightharpoonup> bytes" where
  "ov_map ov c = map_option ovalue (mutations ov c)"

lemma ov_ok_new [simp]: "ov_ok overlay_new" "ov_map overlay_new = Map.empty"
  by (auto simp: ov_ok_def overlay_new_def ov_map_def)

lemma overlay_get_eq: "ov_ok ov \<Longrightarrow> overlay_get ov k v = ov_map ov (k, v)"
  by (simp add: overlay_get_def ov_map_def ov_ok_def)

lemma sum_upsert_new:
  "\<lbrakk>ti_ok t; map_of t k = None\<rbrakk> \<Longrightarrow> sum_list (map f (upsert_sync k v t)) = sum_list (map f t) + (f (k, v) :: nat)"
  by (induction k v t rule: upsert_sync.induct) (auto simp: ti_ok_Cons split: if_splits)

lemma length_upsert_new: "\<lbrakk>ti_ok t; map_of t k = None\<rbrakk> \<Longrightarrow> length (upsert_sync k v t) = length t + 1"
  by (induction k v t rule: upsert_sync.induct) (auto simp: ti_ok_Cons split: if_splits)

lemma sum_filter_key:
  "\<lbrakk>ti_ok t; map_of t k = Some v\<rbrakk> \<Longrightarrow> sum_list (map f (filter (\<lambda>e. fst e \<noteq> k) t)) = sum_list (map f t) - (f (k, v) :: nat)"
proof (induction t)
  case (Cons e t)
  show ?case
  proof (cases "fst e = k")
    case True
    with Cons.prems have "filter (\<lambda>e. fst e \<noteq> k) t = t" by (auto simp: ti_ok_Cons intro!: filter_True)
    with True Cons.prems show ?thesis by (cases e) auto
  next
    case False
    with Cons have "(k, v) \<in> set t" by (cases e) (auto simp: ti_ok_Cons map_of_SomeD)
    then have "f (k, v) \<le> sum_list (map f t)" by (simp add: member_le_sum_list)
    with False Cons show ?thesis by (cases e) (auto simp: ti_ok_Cons)
  qed
qed simp

lemma length_filter_key_Some: "\<lbrakk>ti_ok t; map_of t k = Some v\<rbrakk> \<Longrightarrow> length (filter (\<lambda>e. fst e \<noteq> k) t) = length t - 1"
  using sum_filter_key[of t k v "\<lambda>_. 1"] by (simp add: sum_list_triv)

lemma ov_ok_insert [simp]:
  assumes "ov_ok ov"
  shows "ov_ok (overlay_insert k v val ov)"
proof (cases "mutations ov (k, v)")
  case None
  with assms have "map_of (tree ov) (k, v) = None" "map_of (by_version ov) (v, k) = None" by (auto simp: ov_ok_def)
  with None assms show ?thesis
    unfolding ov_ok_def overlay_insert_def insert_sync_def Let_def by (auto simp: sum_upsert_new length_upsert_new)
qed (simp add: overlay_insert_def assms)

lemma ov_map_insert [simp]:
  "ov_map (overlay_insert k v val ov) = (if ov_map ov (k, v) = None then (ov_map ov)((k, v) \<mapsto> val) else ov_map ov)"
  by (auto simp: ov_map_def overlay_insert_def Let_def fun_eq_iff split: option.splits)

text \<open>Both \<^verbatim>\<open>assert!\<close>s of an insertion hold: the trees do not know the entry yet.\<close>

lemma insert_asserts:
  "\<lbrakk>ov_ok ov; mutations ov (k, v) = None\<rbrakk> \<Longrightarrow> fst (insert_sync (v, k) e (by_version ov)) \<and> fst (insert_sync (k, v) e (tree ov))"
  by (simp add: ov_ok_def insert_sync_def)

lemma remove_asserts:
  "\<lbrakk>ov_ok ov; mutations ov (k, v) = Some e\<rbrakk> \<Longrightarrow> fst (remove_sync (k, v) (tree ov)) \<and> fst (remove_sync (v, k) (by_version ov))"
  by (simp add: ov_ok_def remove_sync_def)

lemma ov_ok_remove_if_current [simp]:
  assumes "ov_ok ov"
  shows "ov_ok (remove_if_current c x ov)"
proof (cases "mutations ov c")
  case (Some e)
  obtain k v where c: "c = (k, v)" by (cases c)
  with Some assms have m: "map_of (tree ov) (k, v) = Some e" "map_of (by_version ov) (v, k) = Some e"
    and b: "obytes e = length k + length (ovalue e) + PER_ENTRY_OVERHEAD" by (auto simp: ov_ok_def)
  have ok: "ti_ok (tree ov)" "byte_size ov = sum_list (map (\<lambda>((k, v), e). length k + length (ovalue e) + PER_ENTRY_OVERHEAD) (tree ov))"
    using assms by (simp_all add: ov_ok_def)
  note sums = sum_filter_key[OF ok(1) m(1), of "\<lambda>((k, v), e). length k + length (ovalue e) + PER_ENTRY_OVERHEAD"]
    length_filter_key_Some[OF ok(1) m(1)]
  from assms Some c b sums show ?thesis
    unfolding ov_ok_def remove_if_current_def remove_sync_def by (auto simp: fun_eq_iff split: option.splits)
qed (simp add: remove_if_current_def assms)

lemma ov_map_remove [simp]: "ov_map (overlay_remove k v ov) = (ov_map ov)((k, v) := None)"
  by (auto simp: ov_map_def overlay_remove_def remove_if_current_def fun_eq_iff split: option.splits)

lemma ov_ok_overlay_remove [simp]: "ov_ok ov \<Longrightarrow> ov_ok (overlay_remove k v ov)"
  by (simp add: overlay_remove_def)

section \<open>Reads\<close>

definition ov_newest :: "overlay \<Rightarrow> bytes \<Rightarrow> nat \<Rightarrow> nat \<Rightarrow> bool" where
  "ov_newest ov k m v = (ov_map ov (k, v) \<noteq> None \<and> v \<le> m \<and> (\<forall>w. ov_map ov (k, w) \<noteq> None \<longrightarrow> w \<le> m \<longrightarrow> w \<le> v))"

lemma tree_mem: "ov_ok ov \<Longrightarrow> ((k, v), e) \<in> set (tree ov) \<longleftrightarrow> mutations ov (k, v) = Some e"
  by (metis map_of_iff_set ov_ok_def)

lemma key_range_mem:
  "ov_ok ov \<Longrightarrow> ((k', v), e) \<in> set (ti_range (Included (k, 0)) (Included (k, m)) (tree ov)) \<longleftrightarrow> k' = k \<and> v \<le> m \<and> mutations ov (k, v) = Some e"
  by (auto simp: tree_mem)

lemma newest_visible_Some:
  assumes "ov_ok ov" and "newest_visible ov k m = Some (v, val)"
  shows "ov_map ov (k, v) = Some val \<and> ov_newest ov k m v"
proof -
  let ?r = "ti_range (Included (k, 0)) (Included (k, m)) (tree ov)"
  have ok: "ti_ok ?r" using assms(1) by (simp add: ov_ok_def)
  from assms(2) have ne: "?r \<noteq> []" and l: "v = snd (fst (last ?r))" "val = ovalue (snd (last ?r))"
    by (auto simp: newest_visible_def Let_def split: if_splits)
  obtain k' e where last: "last ?r = ((k', v), e)" by (metis l(1) prod.collapse)
  then have "((k', v), e) \<in> set ?r" using ne by (metis last_in_set)
  then have e: "k' = k" "v \<le> m" "mutations ov (k, v) = Some e" unfolding key_range_mem[OF assms(1)] by auto
  moreover have "w \<le> v" if "mutations ov (k, w) = Some e'" "w \<le> m" for w e'
  proof -
    obtain b where b: "?r = b @ [((k, v), e)]" using ne last e(1) by (metis append_butlast_last_id)
    have "((k, w), e') \<in> set ?r" unfolding key_range_mem[OF assms(1)] using that by simp
    then have "((k, w), e') \<in> set b \<or> w = v" unfolding b by auto
    moreover have "(k, w) < (k, v)" if "((k, w), e') \<in> set b"
      using ok[unfolded b ti_ok_append, THEN conjunct2, THEN conjunct2, rule_format, OF that] by simp
    ultimately show ?thesis by (auto simp del: not_less)
  qed
  moreover have "val = ovalue e" using l(2) last by simp
  ultimately show ?thesis by (auto simp: ov_map_def ov_newest_def)
qed

lemma newest_visible_None:
  "ov_ok ov \<Longrightarrow> newest_visible ov k m = None \<longleftrightarrow> (\<forall>v \<le> m. ov_map ov (k, v) = None)"
proof -
  assume ok: "ov_ok ov"
  have "newest_visible ov k m = None \<longleftrightarrow> set (ti_range (Included (k, 0)) (Included (k, m)) (tree ov)) = {}"
    unfolding newest_visible_def Let_def set_empty by simp
  also have "\<dots> \<longleftrightarrow> (\<forall>v e. \<not> (v \<le> m \<and> mutations ov (k, v) = Some e))"
    unfolding set_eq_iff split_paired_All key_range_mem[OF ok] by auto
  finally show ?thesis by (auto simp: ov_map_def)
qed

lemma newest_visible_exact:
  "ov_ok ov \<Longrightarrow> ov_newest ov k m v \<Longrightarrow> newest_visible ov k m = map_option (Pair v) (ov_map ov (k, v))"
proof -
  assume ok: "ov_ok ov" and n: "ov_newest ov k m v"
  then have "newest_visible ov k m \<noteq> None" by (auto simp: newest_visible_None ov_newest_def)
  then obtain w val where w: "newest_visible ov k m = Some (w, val)" by auto
  from newest_visible_Some[OF ok w] n have "w = v" by (auto simp: ov_newest_def intro: antisym)
  with newest_visible_Some[OF ok w] w show ?thesis by simp
qed

lemma versions_of_sorted: "ov_ok ov \<Longrightarrow> sorted_wrt (<) (map fst (versions_of ov k))"
proof -
  assume ok: "ov_ok ov"
  let ?r = "ti_range (Included (k, 0)) (Included (k, U64_MAX)) (tree ov)"
  have "sorted_wrt (\<lambda>x y. fst x < fst y) ?r" using ok by (simp add: ov_ok_def sorted_ti_range)
  then have "sorted_wrt (\<lambda>x y. snd (fst x) < snd (fst y)) ?r"
    by (rule sorted_wrt_mono_rel[rotated]) (auto simp: key_range_mem[OF ok] tree_mem[OF ok])
  then show ?thesis by (simp add: versions_of_def sorted_wrt_map case_prod_beta)
qed

lemma versions_of_mem: "ov_ok ov \<Longrightarrow> (v, val) \<in> set (versions_of ov k) \<longleftrightarrow> v \<le> U64_MAX \<and> ov_map ov (k, v) = Some val"
  unfolding versions_of_def set_map image_iff
  by (auto simp del: set_ti_range simp: key_range_mem ov_map_def split_paired_Ex Bex_def)

lemma iter_all_le_mem: "ov_ok ov \<Longrightarrow> (k, v, val) \<in> set (iter_all_le ov floor) \<longleftrightarrow> 0 < floor \<and> v \<le> floor \<and> ov_map ov (k, v) = Some val"
  unfolding iter_all_le_def
  by (auto simp: tree_mem ov_map_def image_iff case_prod_beta split_paired_Ex Bex_def)

section \<open>Reclamation\<close>

lemma by_version_mem: "ov_ok ov \<Longrightarrow> ((v, k), e) \<in> set (by_version ov) \<longleftrightarrow> mutations ov (k, v) = Some e"
  by (metis map_of_iff_set ov_ok_def)

lemma ti_hd_least: "\<lbrakk>ti_ok r; x \<in> set r\<rbrakk> \<Longrightarrow> fst (hd r) \<le> fst x"
  by (cases r) (auto simp: ti_ok_Cons intro: less_imp_le)

lemma gc_candidate_least:
  assumes "ov_ok ov" and "gc_candidate t c ov = Some ((v0, k0), e0)" and "t < U64_MAX"
    and "mutations ov (k, v) \<noteq> None" "past_cursor c (v, k)" "v \<le> t"
  shows "(v0, k0) \<le> (v, k)"
proof -
  let ?r = "ti_range (case c of None \<Rightarrow> Unbounded | Some c \<Rightarrow> Excluded c) (Excluded (t + 1, [])) (by_version ov)"
  have r: "?r \<noteq> []" "hd ?r = ((v0, k0), e0)" using assms(2,3) by (auto simp: gc_candidate_def Let_def split: if_splits)
  from assms(4) obtain e where "mutations ov (k, v) = Some e" by auto
  with assms(1,5,6) have "((v, k), e) \<in> set ?r"
    by (cases c) (auto simp: by_version_mem past_cursor_def)
  moreover have "ti_ok ?r" using assms(1) by (simp add: ov_ok_def)
  ultimately have "fst (hd ?r) \<le> fst ((v, k), e)" by (rule ti_hd_least[rotated])
  then show ?thesis unfolding r by simp
qed

lemma gc_candidate_None:
  assumes "ov_ok ov" and "gc_candidate t c ov = None" and "t < U64_MAX" and "past_cursor c (v, k)" "v \<le> t"
  shows "mutations ov (k, v) = None"
proof (rule ccontr)
  assume "mutations ov (k, v) \<noteq> None"
  then obtain e where "mutations ov (k, v) = Some e" by auto
  with assms(1,4,5) have "((v, k), e) \<in> set (ti_range (case c of None \<Rightarrow> Unbounded | Some c \<Rightarrow> Excluded c) (Excluded (t + 1, [])) (by_version ov))"
    by (cases c) (auto simp: by_version_mem past_cursor_def)
  with assms(2,3) show False by (auto simp: gc_candidate_def Let_def simp del: set_ti_range split: if_splits)
qed

lemma remove_candidate:
  assumes "ov_ok ov" and "gc_candidate t c ov = Some ((v0, k0), e0)"
  shows "mutations (remove_if_current (k0, v0) (Some e0) ov) = (mutations ov)((k0, v0) := None)"
  using gc_candidate_SomeD[OF assms(2)] assms(1) by (auto simp: by_version_mem remove_if_current_def)

lemma gc_candidates_map:
  assumes "ov_ok ov" and "t < U64_MAX"
  shows "ov_ok (gc_candidates t c ov)
    \<and> mutations (gc_candidates t c ov) (k, v) = (if past_cursor c (v, k) \<and> v \<le> t then None else mutations ov (k, v))"
  using assms
proof (induction t c ov rule: gc_candidates.induct)
  case (1 t c ov)
  show ?case
  proof (cases "gc_candidate t c ov")
    case None
    with gc_candidate_None[OF "1.prems"(1) None "1.prems"(2)] "1.prems" show ?thesis
      by (auto simp: gc_candidates.simps[of t c ov])
  next
    case (Some p)
    obtain v0 k0 e0 where p: "p = ((v0, k0), e0)" by (metis prod.exhaust)
    note S = Some[unfolded p]
    let ?ov = "remove_if_current (k0, v0) (Some e0) ov"
    have eq: "gc_candidates t c ov = gc_candidates t (Some (v0, k0)) ?ov" by (simp add: gc_candidates.simps[of t c ov] S)
    have IH: "ov_ok (gc_candidates t (Some (v0, k0)) ?ov)" "mutations (gc_candidates t (Some (v0, k0)) ?ov) (k, v)
        = (if past_cursor (Some (v0, k0)) (v, k) \<and> v \<le> t then None else mutations ?ov (k, v))"
      using "1.IH"[OF S refl refl] "1.prems" by simp_all
    have c: "past_cursor c (v0, k0)" "v0 \<le> t" using gc_candidate_SomeD[OF S] "1.prems"(2) by auto
    have mono: "past_cursor (Some (v0, k0)) x \<Longrightarrow> past_cursor c x" for x
      using c(1) unfolding past_cursor_def by (cases c) (simp_all only: option.case less_trans)
    show ?thesis unfolding eq IH(2) remove_candidate[OF "1.prems"(1) S]
      using IH(1) mono[of "(v, k)"] c gc_candidate_least[OF "1.prems"(1) S "1.prems"(2), of k v]
      by (cases "mutations ov (k, v)"; cases "(v, k) = (v0, k0)") (auto simp: past_cursor_def[of "Some _"])
  qed
qed

lemma gc_upto_eq:
  assumes "ov_ok ov" and "d < U64_MAX"
  shows "ov_ok (gc_upto d floor ov)"
    and "ov_map (gc_upto d floor ov) = (\<lambda>(k, v). if 0 < min d floor \<and> v \<le> min d floor then None else ov_map ov (k, v))"
proof -
  have t: "min d floor < U64_MAX" using assms(2) by simp
  note g = gc_candidates_map[OF assms(1) t]
  show "ov_ok (gc_upto d floor ov)" using g assms(1) by (simp add: gc_upto_def Let_def)
  show "ov_map (gc_upto d floor ov) = (\<lambda>(k, v). if 0 < min d floor \<and> v \<le> min d floor then None else ov_map ov (k, v))"
    using g by (auto simp: gc_upto_def Let_def ov_map_def fun_eq_iff past_cursor_def)
qed

section \<open>Winners per key\<close>

definition winner :: "((bytes \<times> nat) \<times> overlay_entry) list \<Rightarrow> nat \<Rightarrow> bytes \<Rightarrow> nat \<Rightarrow> bytes \<Rightarrow> bool" where
  "winner t floor k v val = ((\<exists>e. ((k, v), e) \<in> set t \<and> ovalue e = val) \<and> v \<le> floor
    \<and> (\<forall>w e. ((k, w), e) \<in> set t \<longrightarrow> w \<le> floor \<longrightarrow> w \<le> v))"

lemma snapshot_push_last:
  assumes "sorted_wrt (<) (map fst out)" and "\<forall>y \<in> set out. fst y \<le> k0" and "v0 \<le> floor"
  shows "sorted_wrt (<) (map fst (snapshot_push floor ((k0, v0), e0) out))
    \<and> set (snapshot_push floor ((k0, v0), e0) out) = insert (k0, v0, ovalue e0) {y \<in> set out. fst y \<noteq> k0}"
proof (cases out rule: rev_cases)
  case Nil
  then show ?thesis using assms(3) by (simp add: snapshot_push_def)
next
  case (snoc b l)
  have b: "\<forall>y \<in> set b. fst y < fst l" and srt: "sorted_wrt (<) (map fst b)"
    using assms(1) by (auto simp: snoc sorted_wrt_append)
  show ?thesis
  proof (cases "fst l = k0")
    case True
    then have "snapshot_push floor ((k0, v0), e0) out = b @ [(k0, v0, ovalue e0)]"
      using assms(3) by (simp add: snapshot_push_def snoc)
    moreover have "{y \<in> set out. fst y \<noteq> k0} = set b" using True b by (auto simp: snoc)
    ultimately show ?thesis using srt b True by (simp add: sorted_wrt_append)
  next
    case False
    then have "fst l < k0" using assms(2) by (simp add: snoc order.not_eq_order_implies_strict)
    then have all: "\<forall>y \<in> set out. fst y < k0" using b by (auto simp: snoc intro: less_trans)
    moreover have "snapshot_push floor ((k0, v0), e0) out = out @ [(k0, v0, ovalue e0)]"
      using assms(3) False by (simp add: snapshot_push_def snoc)
    moreover have "{y \<in> set out. fst y \<noteq> k0} = set out" using all by blast
    ultimately show ?thesis using assms(1) by (simp add: sorted_wrt_append)
  qed
qed

lemma snapshot_fold:
  "ti_ok t \<Longrightarrow> sorted_wrt (<) (map fst (fold (snapshot_push floor) t [])) \<and>
    (\<forall>k v val. (k, v, val) \<in> set (fold (snapshot_push floor) t []) \<longleftrightarrow> winner t floor k v val)"
proof (induction t rule: rev_induct)
  case (snoc x t)
  obtain k0 v0 e0 where x: "x = ((k0, v0), e0)" by (metis prod.exhaust)
  define out where "out = fold (snapshot_push floor) t []"
  from snoc.prems have ok: "ti_ok t" and "\<forall>y \<in> set t. fst y < (k0, v0)" by (auto simp: ti_ok_append x)
  then have below: "((k, v), e) \<in> set t \<Longrightarrow> k < k0 \<or> k = k0 \<and> v < v0" for k v e by fastforce
  from snoc.IH[OF ok] have srt: "sorted_wrt (<) (map fst out)" and w: "\<And>k v val. (k, v, val) \<in> set out \<longleftrightarrow> winner t floor k v val"
    unfolding out_def by auto
  have keys: "\<forall>y \<in> set out. fst y \<le> k0"
  proof
    fix y assume "y \<in> set out"
    then have "winner t floor (fst y) (fst (snd y)) (snd (snd y))" using w[of "fst y" "fst (snd y)" "snd (snd y)"] by simp
    then obtain e where "((fst y, fst (snd y)), e) \<in> set t" by (auto simp: winner_def)
    from below[OF this] show "fst y \<le> k0" by (auto intro: less_imp_le)
  qed
  have fd: "fold (snapshot_push floor) (t @ [x]) [] = snapshot_push floor x out" by (simp add: out_def)
  show ?case
  proof (cases "v0 \<le> floor")
    case False
    then have "snapshot_push floor x out = out" by (simp add: snapshot_push_def x)
    moreover have "winner (t @ [x]) floor k v val \<longleftrightarrow> winner t floor k v val" for k v val
      using False by (auto simp: winner_def x)
    ultimately show ?thesis unfolding fd using srt w by simp
  next
    case True
    note p = snapshot_push_last[OF srt keys True, of e0]
    have top: "winner (t @ [x]) floor k0 v val \<longleftrightarrow> v = v0 \<and> val = ovalue e0" for v val
    proof
      assume W: "winner (t @ [x]) floor k0 v val"
      then have "v0 \<le> v" using True by (auto simp: winner_def x)
      moreover obtain e where "((k0, v), e) \<in> set t \<or> v = v0 \<and> e = e0" "ovalue e = val" using W by (auto simp: winner_def x)
      ultimately show "v = v0 \<and> val = ovalue e0" using below[of k0 v e] by auto
    next
      assume "v = v0 \<and> val = ovalue e0"
      then show "winner (t @ [x]) floor k0 v val" using True by (auto simp: winner_def x dest!: below)
    qed
    have other: "k \<noteq> k0 \<Longrightarrow> winner (t @ [x]) floor k v val \<longleftrightarrow> winner t floor k v val" for k v val
      by (auto simp: winner_def x)
    have "(k, v, val) \<in> set (snapshot_push floor x out) \<longleftrightarrow> winner (t @ [x]) floor k v val" for k v val
      unfolding x p[THEN conjunct2] by (cases "k = k0") (simp_all add: top[unfolded x] other[unfolded x] w)
    then show ?thesis unfolding fd using p[THEN conjunct1, folded x] by simp
  qed
qed (simp add: winner_def)

lemma snapshot_le_sorted: "ov_ok ov \<Longrightarrow> sorted_wrt (<) (map fst (snapshot_le ov floor))"
  using snapshot_fold[of "tree ov" floor] by (simp add: snapshot_le_def ov_ok_def)

lemma snapshot_le_mem:
  assumes "ov_ok ov"
  shows "(k, v, val) \<in> set (snapshot_le ov floor) \<longleftrightarrow> 0 < floor \<and> newest_visible ov k floor = Some (v, val)"
proof (cases "floor = 0")
  case False
  then have "(k, v, val) \<in> set (snapshot_le ov floor) \<longleftrightarrow> winner (tree ov) floor k v val"
    using snapshot_fold[of "tree ov" floor] assms by (simp add: snapshot_le_def ov_ok_def)
  also have "\<dots> \<longleftrightarrow> ov_map ov (k, v) = Some val \<and> ov_newest ov k floor v"
    by (auto simp: winner_def tree_mem[OF assms] ov_map_def ov_newest_def)
  also have "\<dots> \<longleftrightarrow> newest_visible ov k floor = Some (v, val)"
    using newest_visible_Some[OF assms] newest_visible_exact[OF assms, of k floor v] by auto
  finally show ?thesis using False by simp
qed (simp add: snapshot_le_def)

section \<open>Runs\<close>

datatype overlay_op = OvInsert bytes nat bytes | OvRemove bytes nat | OvGc nat nat

fun overlay_apply :: "overlay_op \<Rightarrow> overlay \<Rightarrow> overlay" where
  "overlay_apply (OvInsert k v val) ov = overlay_insert k v val ov"
| "overlay_apply (OvRemove k v) ov = overlay_remove k v ov"
| "overlay_apply (OvGc d floor) ov = gc_upto d floor ov"

text \<open>The same on the one map: the first value of a version stays, and reclamation is by version.\<close>

fun overlay_spec :: "overlay_op \<Rightarrow> (bytes \<times> nat \<rightharpoonup> bytes) \<Rightarrow> bytes \<times> nat \<rightharpoonup> bytes" where
  "overlay_spec (OvInsert k v val) M = (if M (k, v) = None then M((k, v) \<mapsto> val) else M)"
| "overlay_spec (OvRemove k v) M = M((k, v) := None)"
| "overlay_spec (OvGc d floor) M = (\<lambda>(k, v). if 0 < min d floor \<and> v \<le> min d floor then None else M (k, v))"

definition watermark_op :: "overlay_op \<Rightarrow> bool" where
  "watermark_op op = (case op of OvGc d _ \<Rightarrow> d < U64_MAX | _ \<Rightarrow> True)"

lemma overlay_run:
  "\<lbrakk>ov_ok ov; list_all watermark_op ops\<rbrakk> \<Longrightarrow> ov_ok (fold overlay_apply ops ov) \<and> ov_map (fold overlay_apply ops ov) = fold overlay_spec ops (ov_map ov)"
proof (induction ops arbitrary: ov)
  case (Cons op ops)
  have "ov_ok (overlay_apply op ov) \<and> ov_map (overlay_apply op ov) = overlay_spec op (ov_map ov)"
    using Cons.prems gc_upto_eq by (cases op) (auto simp: watermark_op_def)
  with Cons show ?case by simp
qed simp

lemma ov_dom: "ov_ok ov \<Longrightarrow> dom (ov_map ov) = fst ` set (tree ov)"
  by (auto simp: ov_map_def ov_ok_def dom_map_of_conv_image_fst[symmetric] dom_def)

lemma ov_len: "ov_ok ov \<Longrightarrow> overlay_len ov = card (dom (ov_map ov))"
proof -
  assume ok: "ov_ok ov"
  then have "distinct (map fst (tree ov))" by (simp add: ov_ok_def ti_ok_distinct)
  then have "card (fst ` set (tree ov)) = length (tree ov)" using distinct_card by fastforce
  with ok show ?thesis by (simp add: ov_dom overlay_len_def ov_ok_def)
qed

text \<open>C40: After any sequence of insertions, removals and reclamations the key-major tree, the version-major
  tree and the mutation map of the overlay hold the same entries, namely those of the one map in which the
  first value of a version stays, a removal forgets one version and a reclamation all versions up to its
  threshold; the counters equal the number and the estimated size of the entries; a read of the newest
  version up to a bound, and the list of such winners of all keys, are exact and the list is in key order.\<close>

theorem overlay_refines_map:
  assumes "list_all watermark_op ops"
  defines "ov \<equiv> fold overlay_apply ops overlay_new" and "M \<equiv> fold overlay_spec ops Map.empty"
  shows "ov_ok ov \<and> ov_map ov = M \<and> overlay_get ov k v = M (k, v) \<and> overlay_len ov = card (dom M)
    \<and> (newest_visible ov k m = Some (v, val) \<longleftrightarrow> M (k, v) = Some val \<and> v \<le> m \<and> (\<forall>w. M (k, w) \<noteq> None \<longrightarrow> w \<le> m \<longrightarrow> w \<le> v))
    \<and> (0 < m \<longrightarrow> ((k, v, val) \<in> set (snapshot_le ov m) \<longleftrightarrow> newest_visible ov k m = Some (v, val)))
    \<and> sorted_wrt (<) (map fst (snapshot_le ov m))"
proof -
  have ok: "ov_ok ov" and M: "ov_map ov = M" using overlay_run[OF ov_ok_new(1) assms(1)] by (simp_all add: ov_def M_def)
  have "newest_visible ov k m = Some (v, val) \<longleftrightarrow> M (k, v) = Some val \<and> ov_newest ov k m v"
    using newest_visible_Some[OF ok] newest_visible_exact[OF ok, of k m v] M by auto
  then show ?thesis
    using ok M overlay_get_eq[OF ok, of k v] ov_len[OF ok] snapshot_le_mem[OF ok, of k v val m] snapshot_le_sorted[OF ok, of m]
    by (auto simp: ov_newest_def)
qed

theorem overlay_refines_map_witness:
  "overlay_len (fold overlay_apply [OvInsert [1] 4 [7], OvInsert [1] 6 [8], OvInsert [2] 5 [], OvInsert [1] 6 [9], OvGc 4 9] overlay_new) = 2
    \<and> newest_visible (fold overlay_apply [OvInsert [1] 4 [7], OvInsert [1] 6 [8], OvInsert [2] 5 [], OvInsert [1] 6 [9], OvGc 4 9] overlay_new) [1] 9
      = Some (6, [8])"
proof -
  let ?ops = "[OvInsert [1] 4 [7], OvInsert [1] 6 [8], OvInsert [2] 5 [], OvInsert [1] 6 [9], OvGc 4 9]"
  have w: "list_all watermark_op ?ops" by (simp add: watermark_op_def U64_MAX_def)
  have M: "fold overlay_spec ?ops Map.empty = [([1], 6) \<mapsto> [8], ([2], 5) \<mapsto> []]"
    by (auto simp: fun_eq_iff)
  have "dom (fold overlay_spec ?ops Map.empty) = {([1], 6), ([2], 5)}" unfolding M by auto
  with overlay_refines_map[OF w, of "[1]" 6 9 "[8]"] show ?thesis unfolding M by auto
qed

end
