(* ===== verification/MvccStore.thy ===== *)
theory MvccStore
  imports VersionedOverlay VersionGuard
begin

text \<open>
  The versioned store of \<^verbatim>\<open>shamir-tx/src/mvcc_store\<close>: its state, the record cells, the timestamp
  index and the reads.  The version log is a byte store (\<^verbatim>\<open>KvStore\<close>); the gate is that of \<^verbatim>\<open>VersionGuard\<close>
  with the registered snapshots as a list, one occurrence per registration.  A
  read of the log does not fail; a write to it may, and then any beginning of
  its operations may have been applied, as the default \<^verbatim>\<open>transact\<close> of the trait leaves it.
  The wall clock is an argument.  Each operation is one step of its caller; \<^verbatim>\<open>MvccLog\<close> says what the
  steps keep and \<^verbatim>\<open>MvccRead\<close> what the reads return.
\<close>

section \<open>State\<close>

record record_cell =
  cversion :: nat
  vacuum_anchor :: nat
  reserved_by :: nat

record retention =
  max_age_secs :: "nat option"
  max_count :: "nat option"
  min_count :: "nat option"

record 'e mvcc =
  history :: store
  gate :: "'e repo_gate"
  active_snapshots :: "nat list"
  openings :: nat
  receipt_native :: bool
  cells :: "bytes \<rightharpoonup> record_cell"
  policy :: retention
  test_now_millis :: nat
  voverlay :: overlay
  pending_ts :: "nat \<rightharpoonup> nat"
  vacuum_needs_scan :: bool
  ts_index :: "(nat \<times> nat) list"
  ts_index_ready :: bool

definition MAINT_SCAN_BATCH :: nat where "MAINT_SCAN_BATCH = 256"
definition HISTORY_SCAN_BATCH :: nat where "HISTORY_SCAN_BATCH = 64"

definition current_only :: retention where
  "current_only = \<lparr>max_age_secs = None, max_count = Some 0, min_count = None\<rparr>"

definition keep_history :: retention where
  "keep_history = \<lparr>max_age_secs = None, max_count = None, min_count = None\<rparr>"

definition is_current_only :: "retention \<Rightarrow> bool" where
  "is_current_only r = (max_count r = Some 0 \<and> max_age_secs r = None)"

definition retention_validate :: "retention \<Rightarrow> bool" where
  "retention_validate r = (case (min_count r, max_count r) of (Some mc, Some maxc) \<Rightarrow> \<not> mc > maxc | _ \<Rightarrow> True)"

definition set_retention :: "retention \<Rightarrow> 'e mvcc \<Rightarrow> bool \<times> 'e mvcc" where
  "set_retention r m = (if retention_validate r then (True, m\<lparr>policy := r\<rparr>) else (False, m))"

definition mvcc_new :: "store \<Rightarrow> 'e repo_gate \<Rightarrow> 'e mvcc" where
  "mvcc_new h g = \<lparr>history = h, gate = g, active_snapshots = [], openings = 0, receipt_native = False, cells = Map.empty,
     policy = current_only, test_now_millis = 0, voverlay = overlay_new, pending_ts = Map.empty,
     vacuum_needs_scan = False, ts_index = [], ts_index_ready = False\<rparr>"

definition now_millis :: "nat \<Rightarrow> 'e mvcc \<Rightarrow> nat" where
  "now_millis wall m = (let frozen = test_now_millis m in if frozen \<noteq> 0 then frozen else wall)"

text \<open>The gate as the store sees it.\<close>

definition snapshots_opening :: "'e mvcc \<Rightarrow> bool" where
  "snapshots_opening m = (openings m > 0)"

definition active_snapshots_empty :: "'e mvcc \<Rightarrow> bool" where
  "active_snapshots_empty m = (active_snapshots m = [] \<and> \<not> snapshots_opening m)"

definition min_alive :: "'e mvcc \<Rightarrow> nat" where
  "min_alive m =
    (if openings m > 0 then 0
     else fold min (active_snapshots m) (watermark (completion (gate m))))"

definition visible_floor :: "'e repo_gate \<Rightarrow> nat" where
  "visible_floor g = watermark (completion g)"

section \<open>Writes to the log\<close>

datatype txn_outcome = TxnOk | TxnFails nat db_error

definition history_transact :: "txn_outcome \<Rightarrow> kv_op list \<Rightarrow> store \<Rightarrow> unit db_result \<times> store" where
  "history_transact io ops h =
    (case io of
       TxnOk \<Rightarrow> transact store_set store_remove ops h
     | TxnFails n e \<Rightarrow> (Inl e, snd (transact store_set store_remove (take n ops) h)))"

section \<open>Cells\<close>

definition current_version :: "'e mvcc \<Rightarrow> bytes \<Rightarrow> nat" where
  "current_version m key = (case cells m key of Some c \<Rightarrow> cversion c | None \<Rightarrow> 0)"

definition live_version :: "'e mvcc \<Rightarrow> bytes \<Rightarrow> nat option" where
  "live_version m key = map_option cversion (cells m key)"

definition publish_cell_sync :: "bytes \<Rightarrow> nat \<Rightarrow> 'e mvcc \<Rightarrow> 'e mvcc" where
  "publish_cell_sync key version m =
    (case cells m key of
       Some c \<Rightarrow> if version > cversion c then m\<lparr>cells := (cells m)(key \<mapsto> c\<lparr>cversion := version\<rparr>)\<rparr> else m
     | None \<Rightarrow> m\<lparr>cells := (cells m)(key \<mapsto> \<lparr>cversion = version, vacuum_anchor = 0, reserved_by = 0\<rparr>)\<rparr>)"

definition seed_version :: "bytes \<Rightarrow> nat \<Rightarrow> 'e mvcc \<Rightarrow> 'e mvcc" where
  "seed_version key version m =
    (case cells m key of
       Some c \<Rightarrow> if version > cversion c then m\<lparr>cells := (cells m)(key \<mapsto> c\<lparr>cversion := version\<rparr>)\<rparr> else m
     | None \<Rightarrow> m\<lparr>cells := (cells m)(key \<mapsto> \<lparr>cversion = version, vacuum_anchor = 0, reserved_by = 0\<rparr>)\<rparr>)"

definition swap_vacuum_anchor :: "bytes \<Rightarrow> nat \<Rightarrow> 'e mvcc \<Rightarrow> nat option \<times> 'e mvcc" where
  "swap_vacuum_anchor key new_anchor m =
    (case cells m key of
       Some c \<Rightarrow> (Some (vacuum_anchor c), m\<lparr>cells := (cells m)(key \<mapsto> c\<lparr>vacuum_anchor := new_anchor\<rparr>)\<rparr>)
     | None \<Rightarrow> (None, m))"

definition try_reserve :: "bytes \<Rightarrow> nat \<Rightarrow> nat \<Rightarrow> 'e mvcc \<Rightarrow> bool \<times> 'e mvcc" where
  "try_reserve key snapshot_version txn_id m =
    (case cells m key of
       Some c \<Rightarrow>
         if cversion c \<le> snapshot_version \<and> reserved_by c = 0
         then (True, m\<lparr>cells := (cells m)(key \<mapsto> c\<lparr>reserved_by := txn_id\<rparr>)\<rparr>) else (False, m)
     | None \<Rightarrow> (True, m\<lparr>cells := (cells m)(key \<mapsto> \<lparr>cversion = 0, vacuum_anchor = 0, reserved_by = txn_id\<rparr>)\<rparr>))"

definition finalize_reservation :: "bytes \<Rightarrow> nat \<Rightarrow> 'e mvcc \<Rightarrow> 'e mvcc" where
  "finalize_reservation key version m =
    (case cells m key of
       Some c \<Rightarrow> m\<lparr>cells := (cells m)(key \<mapsto> c\<lparr>cversion := max (cversion c) version, reserved_by := 0\<rparr>)\<rparr>
     | None \<Rightarrow> m\<lparr>cells := (cells m)(key \<mapsto> \<lparr>cversion = version, vacuum_anchor = 0, reserved_by = 0\<rparr>)\<rparr>)"

definition release_reservation :: "bytes \<Rightarrow> nat \<Rightarrow> 'e mvcc \<Rightarrow> 'e mvcc" where
  "release_reservation key txn_id m =
    (case cells m key of
       Some c \<Rightarrow> if reserved_by c = txn_id then m\<lparr>cells := (cells m)(key \<mapsto> c\<lparr>reserved_by := 0\<rparr>)\<rparr> else m
     | None \<Rightarrow> m)"

section \<open>Scans\<close>

text \<open>\<^verbatim>\<open>while let Some(batch) = stream.next().await { for entry in batch? { .. } }\<close>\<close>

fun scan_batches :: "(kv \<Rightarrow> 'a \<Rightarrow> 'a) \<Rightarrow> record_stream \<Rightarrow> 'a \<Rightarrow> 'a db_result" where
  "scan_batches f [] acc = Inr acc"
| "scan_batches f (Inl e # stream) acc = Inl e"
| "scan_batches f (Inr batch # stream) acc = scan_batches f stream (fold f batch acc)"

definition own_entry :: "bytes \<Rightarrow> bytes \<Rightarrow> nat option" where
  "own_entry key phys_key =
    (case decode_version_key phys_key of Some (orig, v) \<Rightarrow> if orig = key then Some v else None | None \<Rightarrow> None)"

definition keep_latest :: "bytes \<Rightarrow> kv \<Rightarrow> (nat \<times> bytes) option \<Rightarrow> (nat \<times> bytes) option" where
  "keep_latest key e latest = (case own_entry key (fst e) of Some v \<Rightarrow> Some (v, snd e) | None \<Rightarrow> latest)"

definition scan_history_newest :: "store \<Rightarrow> bytes \<Rightarrow> nat \<Rightarrow> (nat \<times> bytes) option db_result" where
  "scan_history_newest h key snapshot =
    scan_batches (keep_latest key)
      (iter_range_stream h (Some (encode_version_key key 0)) (Some (encode_version_key key snapshot)) HISTORY_SCAN_BATCH) None"

definition keep_max :: "bytes \<Rightarrow> kv \<Rightarrow> nat option \<Rightarrow> nat option" where
  "keep_max key e max_v =
    (case own_entry key (fst e) of
       Some v \<Rightarrow> Some (case max_v of None \<Rightarrow> v | Some prev \<Rightarrow> max prev v)
     | None \<Rightarrow> max_v)"

definition seek_latest_published :: "store \<Rightarrow> bytes \<Rightarrow> nat \<Rightarrow> nat option db_result" where
  "seek_latest_published h key floor =
    scan_batches (keep_max key)
      (iter_range_stream h (Some (encode_version_key key 0)) (Some (encode_version_key key floor)) HISTORY_SCAN_BATCH) None"

section \<open>Timestamps\<close>

definition try_lookup_ts :: "store \<Rightarrow> nat \<Rightarrow> nat option db_result" where
  "try_lookup_ts h version =
    (case store_get h (ts_key version) of
       Inr val \<Rightarrow> Inr (ts_of_bytes val)
     | Inl (NotFound _) \<Rightarrow> Inr None
     | Inl e \<Rightarrow> Inl e)"

definition lookup_ts :: "store \<Rightarrow> nat \<Rightarrow> nat option" where
  "lookup_ts h version = (case try_lookup_ts h version of Inr ts \<Rightarrow> ts | Inl _ \<Rightarrow> None)"

definition ts_index_insert :: "nat \<Rightarrow> nat \<Rightarrow> 'e mvcc \<Rightarrow> 'e mvcc" where
  "ts_index_insert ts_millis version m = m\<lparr>ts_index := List.insert (ts_millis, version) (ts_index m)\<rparr>"

definition ts_index_remove :: "nat \<Rightarrow> nat \<Rightarrow> 'e mvcc \<Rightarrow> 'e mvcc" where
  "ts_index_remove ts_millis version m = m\<lparr>ts_index := removeAll (ts_millis, version) (ts_index m)\<rparr>"

definition ts_index_query :: "'e mvcc \<Rightarrow> nat \<Rightarrow> nat option" where
  "ts_index_query m target_ts =
    (case map snd (filter (\<lambda>e. fst e \<le> target_ts) (ts_index m)) of
       [] \<Rightarrow> None | v # vs \<Rightarrow> Some (fold max vs v))"

definition rebuild_entry :: "kv \<Rightarrow> 'e mvcc \<Rightarrow> 'e mvcc" where
  "rebuild_entry e m =
    (case decode_ts_key (fst e) of
       None \<Rightarrow> m
     | Some version \<Rightarrow> (case ts_of_bytes (snd e) of None \<Rightarrow> m | Some recorded_ts \<Rightarrow> ts_index_insert recorded_ts version m))"

fun rebuild_loop :: "record_stream \<Rightarrow> 'e mvcc \<Rightarrow> unit db_result \<times> 'e mvcc" where
  "rebuild_loop [] m = (Inr (), m\<lparr>ts_index_ready := True\<rparr>)"
| "rebuild_loop (Inl e # stream) m = (Inl e, m)"
| "rebuild_loop (Inr batch # stream) m = rebuild_loop stream (fold rebuild_entry batch m)"

definition ts_index_rebuild :: "'e mvcc \<Rightarrow> unit db_result \<times> 'e mvcc" where
  "ts_index_rebuild m = rebuild_loop (iter_stream MAINT_SCAN_BATCH (history m)) (m\<lparr>ts_index_ready := False\<rparr>)"

definition version_at_or_before_ts :: "nat \<Rightarrow> 'e mvcc \<Rightarrow> nat option db_result \<times> 'e mvcc" where
  "version_at_or_before_ts ts_millis m =
    (case (if ts_index_ready m then (Inr (), m) else ts_index_rebuild m) of
       (Inl e, m') \<Rightarrow> (Inl e, m')
     | (Inr _, m') \<Rightarrow> (Inr (ts_index_query m' ts_millis), m'))"

section \<open>Point reads\<close>

text \<open>A value of no bytes is a tombstone.\<close>

definition present :: "bytes \<Rightarrow> bytes option" where
  "present val = (if val = [] then None else Some val)"

definition newer_hit :: "(nat \<times> bytes) option \<Rightarrow> (nat \<times> bytes) option \<Rightarrow> bytes option" where
  "newer_hit overlay_hit history_hit =
    (case (overlay_hit, history_hit) of
       (Some (ov_ver, ov_val), Some (h_ver, h_val)) \<Rightarrow> if ov_ver \<ge> h_ver then present ov_val else present h_val
     | (Some (_, ov_val), None) \<Rightarrow> present ov_val
     | (None, Some (_, h_val)) \<Rightarrow> present h_val
     | (None, None) \<Rightarrow> None)"

fun resolve_read :: "'e mvcc \<Rightarrow> bytes \<Rightarrow> nat \<Rightarrow> nat \<Rightarrow> bytes option db_result" where
  "resolve_read m key snapshot_version cur_v =
    (if cur_v > 0 \<and> cur_v \<le> snapshot_version then
       (case overlay_get (voverlay m) key cur_v of
          Some val \<Rightarrow> Inr (present val)
        | None \<Rightarrow>
            (case store_get (history m) (encode_version_key key cur_v) of
               Inr val \<Rightarrow> Inr (present val)
             | Inl (NotFound _) \<Rightarrow> resolve_read m key (min snapshot_version (cur_v - 1)) 0
             | Inl e \<Rightarrow> Inl e))
     else
       (let overlay_hit = newest_visible (voverlay m) key snapshot_version in
        case scan_history_newest (history m) key snapshot_version of
          Inl e \<Rightarrow> Inl e
        | Inr history_hit \<Rightarrow> Inr (newer_hit overlay_hit history_hit)))"

declare resolve_read.simps [simp del]

definition get_at :: "'e mvcc \<Rightarrow> bytes \<Rightarrow> nat \<Rightarrow> bytes option db_result" where
  "get_at m key snapshot_version = resolve_read m key snapshot_version (current_version m key)"

text \<open>The version a read of the current value starts from: the cell, or on a cold cell what the log and the overlay hold.\<close>

definition cold_version :: "bytes \<Rightarrow> 'e mvcc \<Rightarrow> nat option db_result \<times> 'e mvcc" where
  "cold_version key m =
    (let floor = last_committed (gate m);
         bounded = receipt_native m \<and> version_counter (gate m) > floor;
         hist_cap = (if bounded then floor else U64_MAX);
         ov_cap = (if bounded \<or> floor > 0 then floor else U64_MAX) in
     case seek_latest_published (history m) key hist_cap of
       Inl e \<Rightarrow> (Inl e, m)
     | Inr hist_v \<Rightarrow>
         (case (hist_v, map_option fst (newest_visible (voverlay m) key ov_cap)) of
            (Some h, Some ov) \<Rightarrow> (Inr (Some (max h ov)), seed_version key h m)
          | (Some h, None) \<Rightarrow> (Inr (Some h), seed_version key h m)
          | (None, Some ov) \<Rightarrow> (Inr (Some ov), m)
          | (None, None) \<Rightarrow> (Inr None, m)))"

definition get_current_bytes :: "bytes \<Rightarrow> 'e mvcc \<Rightarrow> bytes option db_result \<times> 'e mvcc" where
  "get_current_bytes key m =
    (let floor = last_committed (gate m); cur_v = current_version m key in
     case (if cur_v > 0 then (Inr (Some cur_v), m) else cold_version key m) of
       (Inl e, m') \<Rightarrow> (Inl e, m')
     | (Inr None, m') \<Rightarrow> (Inr None, m')
     | (Inr (Some v), m') \<Rightarrow>
         if floor > 0 \<and> v > floor then (get_at m' key floor, m')
         else
           ((case overlay_get (voverlay m') key v of
               Some val \<Rightarrow> Inr (present val)
             | None \<Rightarrow>
                 (case store_get (history m') (encode_version_key key v) of
                    Inr val \<Rightarrow> Inr (present val)
                  | Inl (NotFound _) \<Rightarrow> if v > 0 then resolve_read m' key (min floor (v - 1)) 0 else Inr None
                  | Inl e \<Rightarrow> Inl e)), m'))"

section \<open>Vectored reads\<close>

datatype at_slot = AtResolved "bytes option" | AtHistoryMiss nat nat | AtFallback

definition at_classify :: "'e mvcc \<Rightarrow> nat \<Rightarrow> bytes \<Rightarrow> at_slot list \<times> bytes list \<Rightarrow> at_slot list \<times> bytes list" where
  "at_classify m snapshot_version key acc =
    (let (slots, miss_keys) = acc; cur_v = current_version m key in
     if cur_v = 0 \<or> cur_v > snapshot_version then (slots @ [AtFallback], miss_keys)
     else
       (case overlay_get (voverlay m) key cur_v of
          Some val \<Rightarrow> (slots @ [AtResolved (present val)], miss_keys)
        | None \<Rightarrow> (slots @ [AtHistoryMiss (length miss_keys) cur_v], miss_keys @ [encode_version_key key cur_v])))"

definition at_finish :: "'e mvcc \<Rightarrow> nat \<Rightarrow> bytes option list \<Rightarrow> bytes \<times> at_slot \<Rightarrow> bytes option db_result" where
  "at_finish m snapshot_version miss_results e =
    (case snd e of
       AtResolved val \<Rightarrow> Inr val
     | AtHistoryMiss miss_idx cur_v \<Rightarrow>
         (case miss_results ! miss_idx of
            Some val \<Rightarrow> Inr (present val)
          | None \<Rightarrow> if cur_v > 0 then resolve_read m (fst e) (min snapshot_version (cur_v - 1)) 0 else Inr None)
     | AtFallback \<Rightarrow> resolve_read m (fst e) snapshot_version (current_version m (fst e)))"

text \<open>Ordered buffering returns the results, or the first error, in the order of the slots.\<close>

fun try_collect :: "'a db_result list \<Rightarrow> 'a list db_result" where
  "try_collect [] = Inr []"
| "try_collect (Inl e # rs) = Inl e"
| "try_collect (Inr x # rs) = map_sum id ((#) x) (try_collect rs)"

definition get_at_many :: "'e mvcc \<Rightarrow> bytes list \<Rightarrow> nat \<Rightarrow> bytes option list db_result" where
  "get_at_many m keys snapshot_version =
    (if keys = [] then Inr []
     else let (slots, miss_keys) = fold (at_classify m snapshot_version) keys ([], []) in
       case (if miss_keys = [] then Inr [] else get_many store_get (history m) miss_keys) of
         Inl e \<Rightarrow> Inl e
       | Inr miss_results \<Rightarrow> try_collect (map (at_finish m snapshot_version miss_results) (zip keys slots)))"

datatype cur_slot = CurResolved "bytes option" | CurHistoryMiss nat nat | CurFloorExceeded | CurCold

definition cur_classify :: "'e mvcc \<Rightarrow> nat \<Rightarrow> bytes \<Rightarrow> cur_slot list \<times> bytes list \<Rightarrow> cur_slot list \<times> bytes list" where
  "cur_classify m floor key acc =
    (let (slots, miss_keys) = acc; cur_v = current_version m key in
     if cur_v = 0 then (slots @ [CurCold], miss_keys)
     else if cur_v > floor \<and> (floor > 0 \<or> receipt_native m \<and> version_counter (gate m) > floor)
     then (slots @ [CurFloorExceeded], miss_keys)
     else
       (case overlay_get (voverlay m) key cur_v of
          Some val \<Rightarrow> (slots @ [CurResolved (present val)], miss_keys)
        | None \<Rightarrow> (slots @ [CurHistoryMiss (length miss_keys) cur_v], miss_keys @ [encode_version_key key cur_v])))"

definition cur_finish :: "nat \<Rightarrow> bytes option list \<Rightarrow> bytes \<times> cur_slot \<Rightarrow> 'e mvcc \<Rightarrow> bytes option db_result \<times> 'e mvcc" where
  "cur_finish floor miss_results e m =
    (case snd e of
       CurResolved val \<Rightarrow> (Inr val, m)
     | CurHistoryMiss miss_idx cur_v \<Rightarrow>
         ((case miss_results ! miss_idx of
             Some val \<Rightarrow> Inr (present val)
           | None \<Rightarrow> if cur_v > 0 then resolve_read m (fst e) (min floor (cur_v - 1)) 0 else Inr None), m)
     | CurFloorExceeded \<Rightarrow> (get_at m (fst e) floor, m)
     | CurCold \<Rightarrow> get_current_bytes (fst e) m)"

fun cur_finish_all :: "nat \<Rightarrow> bytes option list \<Rightarrow> (bytes \<times> cur_slot) list \<Rightarrow> 'e mvcc \<Rightarrow> bytes option list db_result \<times> 'e mvcc" where
  "cur_finish_all floor miss_results [] m = (Inr [], m)"
| "cur_finish_all floor miss_results (e # es) m =
    (case cur_finish floor miss_results e m of
       (Inl err, m') \<Rightarrow> (Inl err, m')
     | (Inr x, m') \<Rightarrow> (case cur_finish_all floor miss_results es m' of (r, m'') \<Rightarrow> (map_sum id ((#) x) r, m'')))"

definition get_current_many :: "bytes list \<Rightarrow> 'e mvcc \<Rightarrow> bytes option list db_result \<times> 'e mvcc" where
  "get_current_many keys m =
    (if keys = [] then (Inr [], m)
     else let floor = last_committed (gate m); (slots, miss_keys) = fold (cur_classify m floor) keys ([], []) in
       case (if miss_keys = [] then Inr [] else get_many store_get (history m) miss_keys) of
         Inl e \<Rightarrow> (Inl e, m)
       | Inr miss_results \<Rightarrow> cur_finish_all floor miss_results (zip keys slots) m)"

end
