(* ===== verification/MvccWrite.thy ===== *)
theory MvccWrite
  imports MvccStore
begin

text \<open>
  The writes of the versioned store and what reclaims their versions: the direct writes and their
  compensation (\<^verbatim>\<open>mvcc_store/store.rs\<close>), the two halves of a transaction's publication and the
  drain (\<^verbatim>\<open>history/mvcc_history.rs\<close>, \<^verbatim>\<open>history/drain.rs\<close>), the vacuum of a key, the
  collection of all keys and the purge by time (\<^verbatim>\<open>history/mvcc_gc.rs\<close>), and the
  acknowledgement of a direct write (\<^verbatim>\<open>write_receipt\<close>).  A direct write is composed of the phases
  between its suspension points.  A scan that deletes behind its cursor reads
  the log as it was when the scan began; the timestamps it looks up are the
  current ones.
\<close>

section \<open>Acknowledgement\<close>

datatype visibility_pending_reason = Timeout | ReopenRequired
datatype visibility_state = Visible | VPending nat nat visibility_pending_reason

text \<open>The second gate is the one the observer samples after its wait.\<close>

definition observe :: "'e repo_gate \<Rightarrow> 'e repo_gate \<Rightarrow> nat \<Rightarrow> visibility_state" where
  "observe g g' version =
    (if version = 0 \<or> visible_floor g \<ge> version then Visible
     else let visible_through = visible_floor g' in
       if visible_through \<ge> version then Visible
       else VPending visible_through (visible_through + 1) (if requires_reopen g' then ReopenRequired else Timeout))"

record write_outcome_rec =
  wo_value :: nat
  wo_commit_version :: "nat option"
  wo_visibility :: visibility_state

definition receipt :: "'e repo_gate \<Rightarrow> 'e repo_gate \<Rightarrow> nat \<Rightarrow> write_outcome_rec" where
  "receipt g g' version =
    \<lparr>wo_value = version, wo_commit_version = (if version \<noteq> 0 then Some version else None), wo_visibility = observe g g' version\<rparr>"

definition into_strict_value :: "write_outcome_rec \<Rightarrow> nat db_result" where
  "into_strict_value w =
    (case wo_visibility w of
       Visible \<Rightarrow> Inr (wo_value w)
     | VPending visible_through _ reason \<Rightarrow>
         Inl (WriteCommittedVisibilityPending (of_nat (the (wo_commit_version w))) (of_nat visible_through)
           (case reason of Timeout \<Rightarrow> ''timeout'' | ReopenRequired \<Rightarrow> ''reopen_required'')))"

definition strict_ack :: "'e repo_gate \<Rightarrow> 'e repo_gate \<Rightarrow> nat \<Rightarrow> unit db_result" where
  "strict_ack g g' version = map_sum id (\<lambda>_. ()) (into_strict_value (receipt g g' version))"

section \<open>Vacuum of a key\<close>

definition collect_own :: "bytes \<Rightarrow> kv \<Rightarrow> (nat \<times> bytes) list \<Rightarrow> (nat \<times> bytes) list" where
  "collect_own key e entries = (case own_entry key (fst e) of Some v \<Rightarrow> entries @ [(v, fst e)] | None \<Rightarrow> entries)"

text \<open>\<^verbatim>\<open>sort_by_key(|b| Reverse(b.0))\<close>\<close>

definition newest_first :: "(nat \<times> bytes) list \<Rightarrow> (nat \<times> bytes) list" where
  "newest_first entries = rev (sort_key fst (rev entries))"

definition vacuum_anchor_of :: "bool \<Rightarrow> nat \<Rightarrow> nat \<Rightarrow> (nat \<times> bytes) list \<Rightarrow> nat option" where
  "vacuum_anchor_of have_live_snapshot cur_v min_al entries =
    (if have_live_snapshot \<or> cur_v > min_al then
       (case filter (\<lambda>v. v < min_al) (map fst entries) of [] \<Rightarrow> None | v # vs \<Rightarrow> Some (fold max vs v))
     else None)"

text \<open>The time a version was recorded at, or that the version stays.\<close>

definition reclaim_ts :: "store \<Rightarrow> nat option \<Rightarrow> nat \<Rightarrow> nat option \<Rightarrow> nat \<Rightarrow> nat option option" where
  "reclaim_ts h age_cutoff_ms min_al anchor version =
    (case age_cutoff_ms of
       Some cutoff \<Rightarrow> (case lookup_ts h version of Some t \<Rightarrow> if t < cutoff then Some (Some t) else None | None \<Rightarrow> None)
     | None \<Rightarrow> if version \<ge> min_al \<or> Some version = anchor then None else Some (lookup_ts h version))"

text \<open>One round of the loop over the ranked entries: \<^verbatim>\<open>None\<close> where the code continues.\<close>

definition vacuum_pick :: "store \<Rightarrow> nat \<Rightarrow> nat \<Rightarrow> nat option \<Rightarrow> nat option \<Rightarrow> nat \<Rightarrow> nat option
    \<Rightarrow> nat \<times> nat \<times> bytes \<Rightarrow> (nat \<times> bytes \<times> nat option) option" where
  "vacuum_pick h cur_v min_cnt max_cnt age_cutoff_ms min_al anchor e =
    (let (idx, version, phys_key) = e in
     if version = cur_v then None
     else if idx < min_cnt then None
     else if (case max_cnt of Some mc \<Rightarrow> idx < mc | None \<Rightarrow> False) then None
     else
       (case reclaim_ts h age_cutoff_ms min_al anchor version of
          None \<Rightarrow> None
        | Some reclaimed_ts \<Rightarrow>
            if version \<ge> min_al then None
            else if Some version = anchor then None
            else Some (version, phys_key, reclaimed_ts)))"

definition forget_version :: "bytes \<Rightarrow> nat \<times> nat option \<Rightarrow> 'e mvcc \<Rightarrow> 'e mvcc" where
  "forget_version key r m =
    (let m1 = (case snd r of Some ts \<Rightarrow> ts_index_remove ts (fst r) m | None \<Rightarrow> m) in
     if fst r \<le> durable_watermark (gate m1) then m1\<lparr>voverlay := overlay_remove key (fst r) (voverlay m1)\<rparr> else m1)"

definition vacuum_scan :: "nat \<Rightarrow> txn_outcome \<Rightarrow> bytes \<Rightarrow> 'e mvcc \<Rightarrow> unit db_result \<times> 'e mvcc" where
  "vacuum_scan wall io key m0 =
    (let pol = policy m0;
         snapshots_empty = active_snapshots_empty m0;
         m = (if \<not> snapshots_empty then m0\<lparr>vacuum_needs_scan := True\<rparr> else m0);
         min_cnt = (case min_count pol of Some c \<Rightarrow> c | None \<Rightarrow> 0);
         age_cutoff_ms = map_option (\<lambda>s. now_millis wall m - min U64_MAX (s * 1000)) (max_age_secs pol);
         min_al = min_alive m;
         have_live_snapshot = (\<not> active_snapshots_empty m) in
     case scan_batches (collect_own key) (scan_prefix_stream (history m) (key @ [VERSION_SEP]) MAINT_SCAN_BATCH) [] of
       Inl e \<Rightarrow> (Inl e, m)
     | Inr found \<Rightarrow>
         let cur_v = current_version m key;
             entries = newest_first found;
             anchor = vacuum_anchor_of have_live_snapshot cur_v min_al entries;
             picked = List.map_filter (vacuum_pick (history m) cur_v min_cnt (max_count pol) age_cutoff_ms min_al anchor)
               (enumerate 0 entries);
             removals = concat (map (\<lambda>(version, phys_key, _). [KvRemove phys_key, KvRemove (ts_key version)]) picked) in
         case (if removals \<noteq> [] then history_transact io removals (history m) else (Inr (), history m)) of
           (Inl e, h) \<Rightarrow> (Inl e, m\<lparr>history := h\<rparr>)
         | (Inr _, h) \<Rightarrow>
             let m1 = fold (forget_version key) (map (\<lambda>(version, _, ts). (version, ts)) picked) (m\<lparr>history := h\<rparr>);
                 clean = (snapshots_empty \<and> cur_v \<le> min_al \<and> version_counter (gate m1) \<le> watermark (completion (gate m1))) in
             (Inr (), if clean then m1\<lparr>vacuum_needs_scan := False\<rparr> else m1))"

definition vacuum_deferred :: "txn_outcome \<Rightarrow> bytes \<Rightarrow> nat \<Rightarrow> 'e mvcc \<Rightarrow> unit db_result \<times> 'e mvcc" where
  "vacuum_deferred io key old_v m =
    (let (prev_anchor, m1) = swap_vacuum_anchor key old_v m in
     case prev_anchor of
       None \<Rightarrow> (Inr (), m1)
     | Some deferred \<Rightarrow>
         if deferred \<noteq> old_v \<and> deferred > 0 then
           (let ts = lookup_ts (history m1) deferred in
            case history_transact io [KvRemove (encode_version_key key deferred), KvRemove (ts_key deferred)] (history m1) of
              (Inl e, h) \<Rightarrow> (Inl e, m1\<lparr>history := h\<rparr>)
            | (Inr _, h) \<Rightarrow> (Inr (), forget_version key (deferred, ts) (m1\<lparr>history := h\<rparr>)))
         else (Inr (), m1))"

definition vacuum_key :: "nat \<Rightarrow> txn_outcome \<Rightarrow> bytes \<Rightarrow> nat \<Rightarrow> 'e mvcc \<Rightarrow> unit db_result \<times> 'e mvcc" where
  "vacuum_key wall io key old_v m0 =
    (let pol = policy m0 in
     if max_count pol = None \<and> max_age_secs pol = None then (Inr (), m0)
     else
       let snapshots_empty = active_snapshots_empty m0;
           openings_in_flight = snapshots_opening m0;
           wm = watermark (completion (gate m0));
           m = (if old_v > wm then m0\<lparr>vacuum_needs_scan := True\<rparr> else m0) in
       if is_current_only pol \<and> snapshots_empty \<and> \<not> openings_in_flight \<and> old_v \<le> wm \<and> \<not> vacuum_needs_scan m then
         (if old_v = 0 then (Inr (), m) else vacuum_deferred io key old_v m)
       else if is_current_only pol \<and> snapshots_empty \<and> openings_in_flight \<and> old_v \<le> wm \<and> \<not> vacuum_needs_scan m \<and> old_v \<noteq> 0
       then (Inr (), snd (swap_vacuum_anchor key old_v m))
       else vacuum_scan wall io key m)"

section \<open>Direct writes\<close>

text \<open>
  The outcomes of the log writes of one direct write: of the write itself, of
  the removal that compensates a failed one and of the vacuum of each key, and
  the gate as the acknowledgement samples it after its wait.
\<close>

record 'e write_io =
  w_log :: txn_outcome
  w_comp :: txn_outcome
  w_vac :: "nat \<Rightarrow> txn_outcome"
  w_gate :: "'e repo_gate"

definition ensure_writable :: "'e mvcc \<Rightarrow> unit db_result" where
  "ensure_writable m =
    (if writes_fenced (gate m)
     then Inl (RepoRequiresReopen ''failed-write cleanup left versions unsettled; writes refused'') else Inr ())"

text \<open>A dropped guard of a direct write has no WAL entry: its version is aborted.\<close>

definition drop_guard :: "'e version_guard \<Rightarrow> 'e mvcc \<Rightarrow> 'e mvcc" where
  "drop_guard gd m = m\<lparr>gate := guard_drop (\<lambda>_. TPending) gd (gate m)\<rparr>"

definition compensate_failed_write :: "txn_outcome \<Rightarrow> ('e version_guard \<times> bytes) list \<Rightarrow> 'e mvcc \<Rightarrow> 'e mvcc" where
  "compensate_failed_write io gks m =
    (let ops = concat (map (\<lambda>(gd, key). [KvRemove (encode_version_key key (gversion gd)), KvRemove (ts_key (gversion gd))]) gks) in
     case history_transact io ops (history m) of
       (Inl _, h) \<Rightarrow> m\<lparr>history := h, gate := fence_writes (gate m)\<rparr>
     | (Inr _, h) \<Rightarrow> fold drop_guard (map fst gks) (m\<lparr>history := h\<rparr>))"

text \<open>Phase 1: a version for each item, the cell first.  The old version of each key is what the vacuum gets.\<close>

fun begin_writes :: "bool \<Rightarrow> (bytes \<times> bytes) list \<Rightarrow> 'e mvcc \<Rightarrow> ('e version_guard \<times> bytes \<times> bytes \<times> nat) list \<times> 'e mvcc" where
  "begin_writes fresh [] m = ([], m)"
| "begin_writes fresh ((key, value) # items) m =
    (let old_v = (if fresh then 0 else current_version m key);
         (gd, g) = assign_next_version_guarded (gate m);
         (ws, m') = begin_writes fresh items (publish_cell_sync key (gversion gd) (m\<lparr>gate := g\<rparr>)) in
     ((gd, key, value, old_v) # ws, m'))"

definition log_ops :: "nat \<Rightarrow> ('e version_guard \<times> bytes \<times> bytes \<times> nat) list \<Rightarrow> kv_op list" where
  "log_ops ts_ms ws =
    concat (map (\<lambda>(gd, key, value, _). [KvSet (encode_version_key key (gversion gd)) value, KvSet (ts_key (gversion gd)) (ts_bytes ts_ms)]) ws)"

text \<open>Phase 2: after the log write, the timestamp index and the overlay, then every guard, then the durable marks.\<close>

definition finish_writes :: "nat \<Rightarrow> ('e version_guard \<times> bytes \<times> bytes \<times> nat) list \<Rightarrow> 'e mvcc \<Rightarrow> 'e mvcc" where
  "finish_writes ts_ms ws m =
    (let m1 = fold (\<lambda>(gd, key, value, _). ts_index_insert ts_ms (gversion gd)) ws m;
         m2 = fold (\<lambda>(gd, key, value, _) m. m\<lparr>voverlay := overlay_insert key (gversion gd) value (voverlay m)\<rparr>) ws m1;
         m3 = fold (\<lambda>(gd, key, value, _) m. m\<lparr>gate := guard_commit gd (gate m)\<rparr>) ws m2
     in fold (\<lambda>(gd, key, value, _) m. m\<lparr>gate := mark_durable (gversion gd) (gate m)\<rparr>) ws m3)"

text \<open>Phase 3: the vacuum of each key; a failure only asks for a later scan.\<close>

fun vacuum_writes :: "nat \<Rightarrow> (nat \<Rightarrow> txn_outcome) \<Rightarrow> (bytes \<times> nat) list \<Rightarrow> nat \<Rightarrow> 'e mvcc \<Rightarrow> 'e mvcc" where
  "vacuum_writes wall io [] i m = m"
| "vacuum_writes wall io ((key, old_v) # kos) i m =
    vacuum_writes wall io kos (i + 1)
      (case vacuum_key wall (io i) key old_v m of (Inl _, m') \<Rightarrow> m'\<lparr>vacuum_needs_scan := True\<rparr> | (Inr _, m') \<Rightarrow> m')"

definition acknowledge :: "bool \<Rightarrow> 'e write_io \<Rightarrow> nat \<Rightarrow> 'e mvcc \<Rightarrow> nat db_result \<times> 'e mvcc" where
  "acknowledge wait io version m =
    (if wait then (case strict_ack (gate m) (w_gate io) version of Inl e \<Rightarrow> (Inl e, m) | Inr _ \<Rightarrow> (Inr version, m))
     else (Inr version, m))"

definition write_items :: "bool \<Rightarrow> nat \<Rightarrow> bool \<Rightarrow> 'e write_io \<Rightarrow> (bytes \<times> bytes) list \<Rightarrow> 'e mvcc \<Rightarrow> nat db_result \<times> 'e mvcc" where
  "write_items fresh wall wait io items m =
    (let (ws, m1) = begin_writes fresh items m; ts_ms = now_millis wall m1 in
     case history_transact (w_log io) (log_ops ts_ms ws) (history m1) of
       (Inl e, h) \<Rightarrow> (Inl e, compensate_failed_write (w_comp io) (map (\<lambda>(gd, key, _, _). (gd, key)) ws) (m1\<lparr>history := h\<rparr>))
     | (Inr _, h) \<Rightarrow>
         let m2 = finish_writes ts_ms ws (m1\<lparr>history := h\<rparr>);
             m3 = vacuum_writes wall (w_vac io) (map (\<lambda>(_, key, _, old_v). (key, old_v)) ws) 0 m2 in
         acknowledge wait io (gversion (fst (last ws))) m3)"

definition set_versioned_inner :: "nat \<Rightarrow> bool \<Rightarrow> 'e write_io \<Rightarrow> bytes \<Rightarrow> bytes \<Rightarrow> 'e mvcc \<Rightarrow> nat db_result \<times> 'e mvcc" where
  "set_versioned_inner wall wait io key value m =
    (if value = [] then (Inl (Validation ''empty value is a tombstone''), m)
     else case ensure_writable m of Inl e \<Rightarrow> (Inl e, m) | Inr _ \<Rightarrow> write_items False wall wait io [(key, value)] m)"

definition delete_versioned_inner :: "nat \<Rightarrow> bool \<Rightarrow> 'e write_io \<Rightarrow> bytes \<Rightarrow> 'e mvcc \<Rightarrow> nat db_result \<times> 'e mvcc" where
  "delete_versioned_inner wall wait io key m =
    (case ensure_writable m of Inl e \<Rightarrow> (Inl e, m) | Inr _ \<Rightarrow> write_items False wall wait io [(key, [])] m)"

definition set_versioned_many_inner :: "nat \<Rightarrow> bool \<Rightarrow> 'e write_io \<Rightarrow> (bytes \<times> bytes) list \<Rightarrow> 'e mvcc \<Rightarrow> nat db_result \<times> 'e mvcc" where
  "set_versioned_many_inner wall wait io items m =
    (if items = [] then (Inr 0, m)
     else case ensure_writable m of
         Inl e \<Rightarrow> (Inl e, m)
       | Inr _ \<Rightarrow>
           if list_ex (\<lambda>(_, value). value = []) items then (Inl (Validation ''empty value is a tombstone''), m)
           else write_items False wall wait io items m)"

definition set_versioned_many_append_only_inner ::
    "nat \<Rightarrow> bool \<Rightarrow> 'e write_io \<Rightarrow> (bytes \<times> bytes) list \<Rightarrow> 'e mvcc \<Rightarrow> nat db_result \<times> 'e mvcc" where
  "set_versioned_many_append_only_inner wall wait io items m =
    (if items = [] then (Inr 0, m)
     else case ensure_writable m of
         Inl e \<Rightarrow> (Inl e, m)
       | Inr _ \<Rightarrow>
           if list_ex (\<lambda>(_, value). value = []) items then (Inl (Validation ''empty value is a tombstone''), m)
           else write_items True wall wait io items m)"

section \<open>Publication of a transaction and the drain\<close>

definition op_entry :: "kv_op \<Rightarrow> bytes \<times> bytes" where
  "op_entry op = (case op of KvSet k v \<Rightarrow> (k, v) | KvRemove k \<Rightarrow> (k, []))"

definition apply_committed_visible :: "nat \<Rightarrow> kv_op list \<Rightarrow> nat \<Rightarrow> 'e mvcc \<Rightarrow> 'e mvcc" where
  "apply_committed_visible wall ops commit_version m =
    (let m1 = m\<lparr>pending_ts := keep_first commit_version (now_millis wall m) (pending_ts m)\<rparr>;
         m2 = fold (\<lambda>op m. m\<lparr>voverlay := overlay_insert (fst (op_entry op)) commit_version (snd (op_entry op)) (voverlay m)\<rparr>) ops m1;
         m3 = fold (\<lambda>op. finalize_reservation (fst (op_entry op)) commit_version) ops m2
     in m3\<lparr>gate := raise_published commit_version (gate m3)\<rparr>)"

definition commit_ts :: "nat \<Rightarrow> 'e mvcc \<Rightarrow> nat \<Rightarrow> nat" where
  "commit_ts wall m version = (case pending_ts m version of Some ts \<Rightarrow> ts | None \<Rightarrow> now_millis wall m)"

definition version_ops :: "nat \<Rightarrow> nat \<times> kv_op list \<Rightarrow> kv_op list" where
  "version_ops ts_ms p =
    map (\<lambda>op. KvSet (encode_version_key (fst (op_entry op)) (fst p)) (snd (op_entry op))) (snd p) @ [KvSet (ts_key (fst p)) (ts_bytes ts_ms)]"

definition materialize_committed_to_history :: "nat \<Rightarrow> txn_outcome \<Rightarrow> kv_op list \<Rightarrow> nat \<Rightarrow> 'e mvcc \<Rightarrow> unit db_result \<times> 'e mvcc" where
  "materialize_committed_to_history wall io ops commit_version m =
    (let ts_ms = commit_ts wall m commit_version in
     case history_transact io (version_ops ts_ms (commit_version, ops)) (history m) of
       (Inl e, h) \<Rightarrow> (Inl e, m\<lparr>history := h\<rparr>)
     | (Inr _, h) \<Rightarrow>
         let m1 = ts_index_insert ts_ms commit_version (m\<lparr>history := h\<rparr>) in
         (Inr (), if receipt_native m1
                  then m1\<lparr>gate := (gate m1)\<lparr>version_counter := max (version_counter (gate m1)) commit_version\<rparr>\<rparr> else m1))"

definition publish_materialized :: "kv_op list \<Rightarrow> nat \<Rightarrow> 'e mvcc \<Rightarrow> 'e mvcc" where
  "publish_materialized ops commit_version m =
    (let m1 = fold (\<lambda>op. publish_cell_sync (fst (op_entry op)) commit_version) ops m
     in m1\<lparr>gate := raise_published commit_version (gate m1)\<rparr>)"

definition write_committed_to_history :: "nat \<Rightarrow> txn_outcome \<Rightarrow> kv_op list \<Rightarrow> nat \<Rightarrow> 'e mvcc \<Rightarrow> unit db_result \<times> 'e mvcc" where
  "write_committed_to_history wall io ops commit_version m =
    (case materialize_committed_to_history wall io ops commit_version m of
       (Inl e, m') \<Rightarrow> (Inl e, m')
     | (Inr _, m') \<Rightarrow> (Inr (), publish_materialized ops commit_version m'))"

definition apply_committed_ops :: "nat \<Rightarrow> txn_outcome \<Rightarrow> kv_op list \<Rightarrow> nat \<Rightarrow> 'e mvcc \<Rightarrow> unit db_result \<times> 'e mvcc" where
  "apply_committed_ops wall io ops commit_version m =
    write_committed_to_history wall io ops commit_version (apply_committed_visible wall ops commit_version m)"

definition write_committed_batch_to_history :: "nat \<Rightarrow> txn_outcome \<Rightarrow> (nat \<times> kv_op list) list \<Rightarrow> 'e mvcc \<Rightarrow> unit db_result \<times> 'e mvcc" where
  "write_committed_batch_to_history wall io pass m =
    (if pass = [] then (Inr (), m)
     else
       (case history_transact io (concat (map (\<lambda>p. version_ops (commit_ts wall m (fst p)) p) pass)) (history m) of
          (Inl e, h) \<Rightarrow> (Inl e, m\<lparr>history := h\<rparr>)
        | (Inr _, h) \<Rightarrow>
            let m1 = fold (\<lambda>p. ts_index_insert (commit_ts wall m (fst p)) (fst p)) pass (m\<lparr>history := h\<rparr>);
                m2 = fold (\<lambda>p. fold (\<lambda>op. publish_cell_sync (fst (op_entry op)) (fst p)) (snd p)) pass m1
            in (Inr (), m2\<lparr>gate := raise_published (fst (last pass)) (gate m2)\<rparr>)))"

definition gc_overlay_to :: "nat \<Rightarrow> 'e mvcc \<Rightarrow> 'e mvcc" where
  "gc_overlay_to durable m =
    (if durable = 0 then m
     else m\<lparr>voverlay := gc_upto durable U64_MAX (voverlay m),
            pending_ts := (\<lambda>v. if v > durable then pending_ts m v else None)\<rparr>)"

text \<open>The overlay entries by version, in ascending order.\<close>

definition group_versions :: "(bytes \<times> nat \<times> bytes) list \<Rightarrow> (nat \<times> kv_op list) list" where
  "group_versions entries =
    fold (\<lambda>(key, version, value) g.
        let op = (if value = [] then KvRemove key else KvSet key value)
        in upsert_sync version ((case map_of g version of Some ops \<Rightarrow> ops | None \<Rightarrow> []) @ [op]) g) entries []"

fun drain_versions :: "nat \<Rightarrow> (nat \<Rightarrow> txn_outcome) \<Rightarrow> (nat \<times> kv_op list) list \<Rightarrow> nat \<Rightarrow> 'e mvcc \<Rightarrow> unit db_result \<times> 'e mvcc" where
  "drain_versions wall io [] i m = (Inr (), m)"
| "drain_versions wall io ((commit_version, ops) # ps) i m =
    (case write_committed_to_history wall (io i) ops commit_version m of
       (Inl e, m') \<Rightarrow> (Inl e, m')
     | (Inr _, m') \<Rightarrow> drain_versions wall io ps (i + 1) m')"

definition drain_to_history :: "nat \<Rightarrow> (nat \<Rightarrow> txn_outcome) \<Rightarrow> 'e mvcc \<Rightarrow> unit db_result \<times> 'e mvcc" where
  "drain_to_history wall io m =
    (let visibility = last_committed (gate m) in
     if visibility = 0 then (Inr (), m)
     else let entries = iter_all_le (voverlay m) visibility in
       if entries = [] then (Inr (), m)
       else
         (case drain_versions wall io (group_versions entries) 0 m of
            (Inl e, m') \<Rightarrow> (Inl e, m')
          | (Inr _, m') \<Rightarrow> (Inr (), gc_overlay_to (durable_watermark (gate m')) m')))"

section \<open>Collection\<close>

text \<open>The newest version below the bound, per key.\<close>

definition newest_below :: "nat \<Rightarrow> kv \<Rightarrow> (bytes \<rightharpoonup> nat) \<Rightarrow> bytes \<rightharpoonup> nat" where
  "newest_below bnd e newest =
    (case decode_version_key (fst e) of
       Some (orig, version) \<Rightarrow>
         if version < bnd then newest(orig \<mapsto> (case newest orig of Some c \<Rightarrow> max c version | None \<Rightarrow> version)) else newest
     | None \<Rightarrow> newest)"

text \<open>The state of the second scan: the store, the versions waiting to be removed, how many are gone, and how many batches were written.\<close>

record 'e sweep =
  sw_store :: "'e mvcc"
  sw_waiting :: "(bytes \<times> nat \<times> nat option) list"
  sw_deleted :: nat
  sw_flushes :: nat

definition flush_history_reclaims :: "(nat \<Rightarrow> txn_outcome) \<Rightarrow> 'e sweep \<Rightarrow> unit db_result \<times> 'e sweep" where
  "flush_history_reclaims io sw =
    (if sw_waiting sw = [] then (Inr (), sw)
     else
       let m = sw_store sw;
           removals = concat (map (\<lambda>(orig, version, _). [KvRemove (encode_version_key orig version), KvRemove (ts_key version)]) (sw_waiting sw)) in
       case history_transact (io (sw_flushes sw)) removals (history m) of
         (Inl e, h) \<Rightarrow> (Inl e, sw\<lparr>sw_store := m\<lparr>history := h\<rparr>, sw_flushes := sw_flushes sw + 1\<rparr>)
       | (Inr _, h) \<Rightarrow>
           (Inr (), sw\<lparr>sw_store := fold (\<lambda>(orig, version, ts). forget_version orig (version, ts)) (sw_waiting sw) (m\<lparr>history := h\<rparr>),
              sw_waiting := [], sw_deleted := sw_deleted sw + length (sw_waiting sw), sw_flushes := sw_flushes sw + 1\<rparr>))"

fun sweep_loop :: "(nat \<Rightarrow> txn_outcome) \<Rightarrow> ('e mvcc \<Rightarrow> bytes \<times> nat \<Rightarrow> nat option option) \<Rightarrow> kv list \<Rightarrow> 'e sweep \<Rightarrow> unit db_result \<times> 'e sweep" where
  "sweep_loop io pick [] sw = flush_history_reclaims io sw"
| "sweep_loop io pick (e # es) sw =
    (case decode_version_key (fst e) of
       None \<Rightarrow> sweep_loop io pick es sw
     | Some (orig, version) \<Rightarrow>
         (case pick (sw_store sw) (orig, version) of
            None \<Rightarrow> sweep_loop io pick es sw
          | Some ts \<Rightarrow>
              let sw1 = sw\<lparr>sw_waiting := sw_waiting sw @ [(orig, version, ts)]\<rparr> in
              if length (sw_waiting sw1) = MAINT_SCAN_BATCH then
                (case flush_history_reclaims io sw1 of (Inl err, sw2) \<Rightarrow> (Inl err, sw2) | (Inr _, sw2) \<Rightarrow> sweep_loop io pick es sw2)
              else sweep_loop io pick es sw1))"

definition sweep :: "(nat \<Rightarrow> txn_outcome) \<Rightarrow> nat \<Rightarrow> ((bytes \<rightharpoonup> nat) \<Rightarrow> 'e mvcc \<Rightarrow> bytes \<times> nat \<Rightarrow> nat option option) \<Rightarrow> 'e mvcc
    \<Rightarrow> nat db_result \<times> 'e mvcc" where
  "sweep io bnd pick m =
    (case scan_batches (newest_below bnd) (iter_stream MAINT_SCAN_BATCH (history m)) Map.empty of
       Inl e \<Rightarrow> (Inl e, m)
     | Inr newest \<Rightarrow>
         (case scan_batches (\<lambda>e es. es @ [e]) (iter_stream MAINT_SCAN_BATCH (history m)) [] of
            Inl e \<Rightarrow> (Inl e, m)
          | Inr es \<Rightarrow>
              (case sweep_loop io (pick newest) es \<lparr>sw_store = m, sw_waiting = [], sw_deleted = 0, sw_flushes = 0\<rparr> of
                 (Inl e, sw) \<Rightarrow> (Inl e, sw_store sw)
               | (Inr _, sw) \<Rightarrow> (Inr (sw_deleted sw), sw_store sw))))"

definition gc_pick :: "nat \<Rightarrow> (bytes \<rightharpoonup> nat) \<Rightarrow> 'e mvcc \<Rightarrow> bytes \<times> nat \<Rightarrow> nat option option" where
  "gc_pick min_version newest m e =
    (let (orig, version) = e in
     if version \<ge> min_version \<or> newest orig = Some version \<or> current_version m orig = version then None
     else Some (lookup_ts (history m) version))"

definition prune_version_cache :: "'e mvcc \<Rightarrow> 'e mvcc" where
  "prune_version_cache m =
    m\<lparr>cells := (\<lambda>key. case cells m key of Some c \<Rightarrow> if cversion c \<ge> min_alive m \<or> reserved_by c \<noteq> 0 then Some c else None | None \<Rightarrow> None)\<rparr>"

definition gc_below :: "(nat \<Rightarrow> txn_outcome) \<Rightarrow> nat \<Rightarrow> 'e mvcc \<Rightarrow> nat db_result \<times> 'e mvcc" where
  "gc_below io min_version m =
    (case sweep io min_version (gc_pick min_version) m of
       (Inl e, m') \<Rightarrow> (Inl e, m')
     | (Inr deleted, m') \<Rightarrow> (Inr deleted, prune_version_cache m'))"

definition mvcc_gc :: "(nat \<Rightarrow> txn_outcome) \<Rightarrow> 'e mvcc \<Rightarrow> nat db_result \<times> 'e mvcc" where
  "mvcc_gc io m = gc_below io (min_alive m) m"

definition purge_pick :: "nat \<Rightarrow> nat \<Rightarrow> (bytes \<rightharpoonup> nat) \<Rightarrow> 'e mvcc \<Rightarrow> bytes \<times> nat \<Rightarrow> nat option option" where
  "purge_pick min_al cutoff_millis anchors m e =
    (let (orig, version) = e in
     if version \<ge> min_al \<or> anchors orig = Some version \<or> current_version m orig = version then None
     else
       (case lookup_ts (history m) version of
          None \<Rightarrow> None
        | Some ts \<Rightarrow> if ts \<ge> cutoff_millis then None else Some (Some ts)))"

definition purge_below_ts :: "(nat \<Rightarrow> txn_outcome) \<Rightarrow> nat \<Rightarrow> 'e mvcc \<Rightarrow> nat db_result \<times> 'e mvcc" where
  "purge_below_ts io cutoff_millis m =
    (let min_al = min_alive m in sweep io min_al (purge_pick min_al cutoff_millis) m)"

end
