(* ===== verification/MvccLog.thy ===== *)
theory MvccLog
  imports MvccWrite
begin

text \<open>
  What the operations of the versioned store keep.  The specification is the log of all
  committed versions, a map from key and version to a value that only grows.  The log file and
  the overlay hold parts of it; a version missing from both is superseded: a later version of
  its key is not above any snapshot that can still be read.  The invariant is stated piece by piece, and
  each operation is shown to keep it.
\<close>

type_synonym vlog = "bytes \<times> nat \<rightharpoonup> bytes"

section \<open>The version log as a map\<close>

definition hist_map :: "store \<Rightarrow> vlog" where
  "hist_map h p = (if snd p \<le> U64_MAX then map_of h (encode_version_key (fst p) (snd p)) else None)"

definition op_on :: "kv_op list \<Rightarrow> bytes \<Rightarrow> bytes option \<Rightarrow> bool" where
  "op_on ops p r = ((\<exists>v. KvSet p v \<in> set ops \<and> r = Some v) \<or> KvRemove p \<in> set ops \<and> r = None)"

lemma fold_apply_cases: "fold apply_op ops M p = M p \<or> op_on ops p (fold apply_op ops M p)"
proof (induction ops arbitrary: M)
  case (Cons op ops)
  define M1 where "M1 = apply_op op M"
  have one: "M1 p = M p \<or> op_on [op] p (M1 p)" by (cases op) (auto simp: M1_def op_on_def)
  have mono: "op_on [op] p r \<Longrightarrow> op_on (op # ops) p r" "op_on ops p r \<Longrightarrow> op_on (op # ops) p r" for r by (auto simp: op_on_def)
  have fd: "fold apply_op (op # ops) M p = fold apply_op ops M1 p" by (simp add: M1_def)
  from Cons[of M1] show ?case unfolding fd
  proof
    assume "fold apply_op ops M1 p = M1 p"
    with one mono(1)[of "M1 p"] show "fold apply_op ops M1 p = M p \<or> op_on (op # ops) p (fold apply_op ops M1 p)" by auto
  qed (use mono(2) in simp)
qed simp

lemma fold_apply_set:
  assumes "KvSet p v \<in> set ops" and "\<And>w. KvSet p w \<in> set ops \<Longrightarrow> w = v" and "KvRemove p \<notin> set ops"
  shows "fold apply_op ops M p = Some v"
proof -
  obtain xs ys where ops: "ops = xs @ KvSet p v # ys" using assms(1) by (meson split_list)
  have "\<not> op_on ys p r \<or> r = Some v" for r using assms(2,3) by (auto simp: ops op_on_def)
  then show ?thesis
    using fold_apply_cases[of ys "(fold apply_op xs M)(p \<mapsto> v)" p] by (auto simp: ops)
qed

lemma transact_mem:
  assumes "ti_ok h"
  shows "fst (transact store_set store_remove ops h) = Inr () \<and> ti_ok (snd (transact store_set store_remove ops h))
    \<and> map_of (snd (transact store_set store_remove ops h)) = fold apply_op ops (map_of h)"
  using mem.transact_eq[OF assms, of ops] by (metis fst_conv mem_store_simps(2,3) snd_conv)

lemma history_transact_cases:
  assumes "ti_ok h" and "history_transact io ops h = (r, h')"
  obtains n where "ti_ok h'" "map_of h' = fold apply_op (take n ops) (map_of h)" "r = Inr () \<Longrightarrow> take n ops = ops" "io = TxnOk \<Longrightarrow> r = Inr ()"
    "io \<noteq> TxnOk \<Longrightarrow> \<exists>e. r = Inl e"
proof (cases io)
  case TxnOk
  with assms(2) transact_mem[OF assms(1), of ops] that[of "length ops"] show ?thesis by (simp add: history_transact_def)
next
  case (TxnFails n e)
  with assms(2) transact_mem[OF assms(1), of "take n ops"] that[of n] show ?thesis by (auto simp: history_transact_def)
qed

text \<open>A batch that only sets version keys of the log and timestamps adds those entries; a batch of removals only loses the named ones.\<close>

lemma hist_after_sets:
  assumes "ti_ok h" and "history_transact io ops h = (r, h')"
    and "\<And>op. op \<in> set ops \<Longrightarrow> (\<exists>k v x. op = KvSet (encode_version_key k v) x \<and> v \<le> U64_MAX \<and> N (k, v) = Some x) \<or> (\<exists>v x. op = KvSet (ts_key v) x)"
  shows "ti_ok h'" and "hist_map h' p = hist_map h p \<or> N p \<noteq> None \<and> hist_map h' p = N p"
    and "r = Inr () \<Longrightarrow> KvSet (encode_version_key k v) x \<in> set ops \<Longrightarrow> v \<le> U64_MAX \<Longrightarrow> hist_map h' (k, v) = Some x"
proof -
  obtain n where n: "ti_ok h'" "map_of h' = fold apply_op (take n ops) (map_of h)" "r = Inr () \<Longrightarrow> take n ops = ops"
    using history_transact_cases[OF assms(1,2)] by metis
  show "ti_ok h'" by (rule n)
  have own: "KvSet (encode_version_key k v) x \<in> set ops \<Longrightarrow> v \<le> U64_MAX \<Longrightarrow> N (k, v) = Some x" for k v x
    using assms(3)[of "KvSet (encode_version_key k v) x"] by auto
  have nrem: "KvRemove q \<notin> set ops" for q using assms(3)[of "KvRemove q"] by auto
  show "hist_map h' p = hist_map h p \<or> N p \<noteq> None \<and> hist_map h' p = N p"
  proof (cases "snd p \<le> U64_MAX \<and> map_of h' (encode_version_key (fst p) (snd p)) \<noteq> map_of h (encode_version_key (fst p) (snd p))")
    case True
    then have "op_on (take n ops) (encode_version_key (fst p) (snd p)) (map_of h' (encode_version_key (fst p) (snd p)))"
      using fold_apply_cases[of "take n ops" "map_of h"] unfolding n(2) by blast
    then obtain x where x: "KvSet (encode_version_key (fst p) (snd p)) x \<in> set ops" "map_of h' (encode_version_key (fst p) (snd p)) = Some x"
      using nrem by (auto simp: op_on_def dest: in_set_takeD)
    from own[OF x(1)] True x(2) show ?thesis by (simp add: hist_map_def)
  qed (auto simp: hist_map_def)
  assume r: "r = Inr ()" and x: "KvSet (encode_version_key k v) x \<in> set ops" and v: "v \<le> U64_MAX"
  have "w = x" if "KvSet (encode_version_key k v) w \<in> set ops" for w using own[OF that v] own[OF x v] by simp
  from fold_apply_set[OF x this nrem, of "map_of h"] have "map_of h' (encode_version_key k v) = Some x" by (simp add: n(2) n(3)[OF r])
  then show "hist_map h' (k, v) = Some x" using v by (simp add: hist_map_def)
qed

lemma hist_after_removals:
  assumes "ti_ok h" and "history_transact io ops h = (r, h')"
    and "\<And>op. op \<in> set ops \<Longrightarrow> (\<exists>k v. op = KvRemove (encode_version_key k v) \<and> v \<le> U64_MAX \<and> R (k, v)) \<or> (\<exists>v. op = KvRemove (ts_key v))"
  shows "ti_ok h'" and "hist_map h' p = hist_map h p \<or> R p \<and> hist_map h' p = None"
    and "r = Inr () \<Longrightarrow> KvRemove (encode_version_key k v) \<in> set ops \<Longrightarrow> v \<le> U64_MAX \<Longrightarrow> hist_map h' (k, v) = None"
proof -
  obtain n where n: "ti_ok h'" "map_of h' = fold apply_op (take n ops) (map_of h)" "r = Inr () \<Longrightarrow> take n ops = ops"
    using history_transact_cases[OF assms(1,2)] by metis
  show "ti_ok h'" by (rule n)
  have nset: "KvSet q x \<notin> set ops" for q x using assms(3)[of "KvSet q x"] by auto
  have own: "KvRemove (encode_version_key k v) \<in> set ops \<Longrightarrow> v \<le> U64_MAX \<Longrightarrow> R (k, v)" for k v
    using assms(3)[of "KvRemove (encode_version_key k v)"] by auto
  show "hist_map h' p = hist_map h p \<or> R p \<and> hist_map h' p = None"
  proof (cases "snd p \<le> U64_MAX \<and> map_of h' (encode_version_key (fst p) (snd p)) \<noteq> map_of h (encode_version_key (fst p) (snd p))")
    case True
    then have "op_on (take n ops) (encode_version_key (fst p) (snd p)) (map_of h' (encode_version_key (fst p) (snd p)))"
      using fold_apply_cases[of "take n ops" "map_of h"] unfolding n(2) by blast
    then have x: "KvRemove (encode_version_key (fst p) (snd p)) \<in> set ops" "map_of h' (encode_version_key (fst p) (snd p)) = None"
      using nset by (auto simp: op_on_def dest: in_set_takeD)
    from own[OF x(1)] True x(2) show ?thesis by (simp add: hist_map_def)
  qed (auto simp: hist_map_def)
  have gone: "fold apply_op ops M q = None" if rq: "KvRemove q \<in> set ops" for M q
  proof -
    obtain xs ys where ops: "ops = xs @ KvRemove q # ys" using rq by (meson split_list)
    have "\<not> op_on ys q r \<or> r = None" for r using nset by (auto simp: ops op_on_def)
    then show ?thesis using fold_apply_cases[of ys "(fold apply_op xs M)(q := None)" q] by (auto simp: ops)
  qed
  assume r: "r = Inr ()" and x: "KvRemove (encode_version_key k v) \<in> set ops"
  from gone[OF x, of "map_of h"] have "map_of h' (encode_version_key k v) = None" by (simp add: n(2) n(3)[OF r])
  then show "hist_map h' (k, v) = None" by (simp add: hist_map_def)
qed

section \<open>Scans of one key\<close>

lemma scan_batches_fold: "scan_batches f (map Inr bs) acc = Inr (fold f (concat bs) acc)"
  by (induction bs arbitrary: acc) simp_all

lemma batch_sizes [simp]: "0 < HISTORY_SCAN_BATCH" "0 < MAINT_SCAN_BATCH"
  by (simp_all add: HISTORY_SCAN_BATCH_def MAINT_SCAN_BATCH_def)

lemma own_entry_Some: "own_entry k p = Some v \<longleftrightarrow> p = encode_version_key k v \<and> v \<le> U64_MAX"
  by (auto simp: own_entry_def decode_Some_iff split: option.splits if_splits dest: decode_SomeD)

lemma hist_map_mem: "ti_ok h \<Longrightarrow> hist_map h (k, v) = Some x \<longleftrightarrow> v \<le> U64_MAX \<and> (encode_version_key k v, x) \<in> set h"
  by (auto simp: hist_map_def map_of_iff_set)

text \<open>The last own entry of a sorted list is the newest.\<close>

lemma fold_keep_latest:
  assumes "ti_ok es"
  shows "(case fold (keep_latest k) es None of
      None \<Rightarrow> \<forall>v x. v \<le> U64_MAX \<longrightarrow> (encode_version_key k v, x) \<notin> set es
    | Some (v, x) \<Rightarrow> v \<le> U64_MAX \<and> (encode_version_key k v, x) \<in> set es
        \<and> (\<forall>w y. w \<le> U64_MAX \<longrightarrow> (encode_version_key k w, y) \<in> set es \<longrightarrow> w \<le> v))"
  using assms
proof (induction es rule: rev_induct)
  case (snoc e es)
  from snoc.prems have ok: "ti_ok es" and below: "\<And>x. x \<in> set es \<Longrightarrow> fst x < fst e" by (auto simp: ti_ok_append)
  have fd: "fold (keep_latest k) (es @ [e]) None = keep_latest k e (fold (keep_latest k) es None)" by simp
  show ?case
  proof (cases "own_entry k (fst e)")
    case None
    then have "\<not> (v \<le> U64_MAX \<and> fst e = encode_version_key k v)" for v by (metis own_entry_Some option.distinct(1))
    then have "(encode_version_key k v, x) \<in> set (es @ [e]) \<longleftrightarrow> (encode_version_key k v, x) \<in> set es" if "v \<le> U64_MAX" for v x
      using that by (metis Un_iff empty_iff empty_set fst_conv set_ConsD set_append)
    note same = this
    have "keep_latest k e acc = acc" for acc using None by (simp add: keep_latest_def)
    with snoc.IH[OF ok] same show ?thesis unfolding fd
      by (cases "fold (keep_latest k) es None") (simp_all add: split_paired_all del: set_append)
  next
    case (Some v)
    then have e: "fst e = encode_version_key k v" "v \<le> U64_MAX" by (simp_all add: own_entry_Some)
    have "w \<le> v" if "w \<le> U64_MAX" "(encode_version_key k w, y) \<in> set (es @ [e])" for w y
    proof (cases "(encode_version_key k w, y) \<in> set es")
      case True
      from below[OF this] e that(1) show ?thesis by simp
    next
      case False
      with that e have "encode_version_key k w = encode_version_key k v" by auto
      with that(1) e(2) show ?thesis by simp
    qed
    moreover have "(encode_version_key k v, snd e) \<in> set (es @ [e])" by (simp add: e(1)[symmetric])
    ultimately show ?thesis unfolding fd using Some e(2) by (auto simp add: keep_latest_def simp del: set_append)
  qed
qed simp

lemma scan_history_newest_eq:
  assumes "ti_ok h" and "s \<le> U64_MAX"
  shows "\<exists>r. scan_history_newest h k s = Inr r \<and>
    (case r of None \<Rightarrow> \<forall>v \<le> s. hist_map h (k, v) = None
     | Some (v, x) \<Rightarrow> v \<le> s \<and> hist_map h (k, v) = Some x \<and> (\<forall>w \<le> s. hist_map h (k, w) \<noteq> None \<longrightarrow> w \<le> v))"
proof -
  define es where "es = filter (\<lambda>e. in_window (Some (encode_version_key k 0)) (Some (encode_version_key k s)) (fst e)) h"
  have run: "scan_history_newest h k s = Inr (fold (keep_latest k) es None)"
    by (simp add: scan_history_newest_def iter_range_stream_eq[OF assms(1)] scan_batches_fold es_def)
  have mem: "v \<le> U64_MAX \<Longrightarrow> (encode_version_key k v, x) \<in> set es \<longleftrightarrow> v \<le> s \<and> hist_map h (k, v) = Some x" for v x
    using assms by (auto simp: es_def hist_map_mem)
  have big: "v \<le> s \<Longrightarrow> v \<le> U64_MAX" for v using assms(2) by simp
  have "ti_ok es" using assms(1) by (simp add: es_def)
  note f = fold_keep_latest[OF this, of k]
  show ?thesis
  proof (cases "fold (keep_latest k) es None")
    case None
    have "hist_map h (k, v) = None" if "v \<le> s" for v
      using f[unfolded None option.case, rule_format, OF big[OF that]] mem[OF big[OF that]] that by (metis not_None_eq)
    with None show ?thesis unfolding run by simp
  next
    case (Some r)
    obtain v x where r: "r = (v, x)" by (cases r)
    from f Some r have v: "v \<le> U64_MAX" "(encode_version_key k v, x) \<in> set es"
      and top: "\<And>w y. w \<le> U64_MAX \<Longrightarrow> (encode_version_key k w, y) \<in> set es \<Longrightarrow> w \<le> v" by auto
    have "w \<le> v" if "w \<le> s" "hist_map h (k, w) \<noteq> None" for w
      using that big[OF that(1)] mem[OF big[OF that(1)]] top[OF big[OF that(1)]] by auto
    with v mem[OF v(1)] Some r show ?thesis unfolding run by simp
  qed
qed

lemma fold_keep_max:
  "(case fold (keep_max k) es None of
      None \<Rightarrow> \<forall>v. own_entry k ` fst ` set es \<inter> {Some v} = {}
    | Some v \<Rightarrow> Some v \<in> own_entry k ` fst ` set es \<and> (\<forall>w. Some w \<in> own_entry k ` fst ` set es \<longrightarrow> w \<le> v))"
proof (induction es rule: rev_induct)
  case (snoc e es)
  define S where "S = own_entry k ` fst ` set es"
  define acc where "acc = fold (keep_max k) es None"
  have fd: "fold (keep_max k) (es @ [e]) None = keep_max k e acc" and img: "own_entry k ` fst ` set (es @ [e]) = insert (own_entry k (fst e)) S"
    by (simp_all add: acc_def S_def)
  from snoc show ?case unfolding fd img unfolding S_def[symmetric] acc_def[symmetric]
    by (cases "own_entry k (fst e)"; cases acc) (auto simp: keep_max_def max_def intro: le_trans)
qed simp

lemma own_entries_mem:
  "ti_ok h \<Longrightarrow> Some v \<in> own_entry k ` fst ` set h \<longleftrightarrow> hist_map h (k, v) \<noteq> None"
  by (force simp: own_entry_Some hist_map_mem image_iff eq_commute[of "Some v"] dest: sym)

lemma seek_latest_eq:
  assumes "ti_ok h" and "cap \<le> U64_MAX"
  shows "\<exists>r. seek_latest_published h k cap = Inr r \<and>
    (case r of None \<Rightarrow> \<forall>v \<le> cap. hist_map h (k, v) = None
     | Some v \<Rightarrow> v \<le> cap \<and> hist_map h (k, v) \<noteq> None \<and> (\<forall>w \<le> cap. hist_map h (k, w) \<noteq> None \<longrightarrow> w \<le> v))"
proof -
  define es where "es = filter (\<lambda>e. in_window (Some (encode_version_key k 0)) (Some (encode_version_key k cap)) (fst e)) h"
  have ok: "ti_ok es" using assms(1) by (simp add: es_def)
  have run: "seek_latest_published h k cap = Inr (fold (keep_max k) es None)"
    by (simp add: seek_latest_published_def iter_range_stream_eq[OF assms(1)] scan_batches_fold es_def)
  have "hist_map es (k, v) = Some x \<longleftrightarrow> v \<le> cap \<and> hist_map h (k, v) = Some x" for v x
    unfolding hist_map_mem[OF ok] hist_map_mem[OF assms(1)] using assms(2) by (auto simp: es_def)
  then have mem: "Some v \<in> own_entry k ` fst ` set es \<longleftrightarrow> v \<le> cap \<and> hist_map h (k, v) \<noteq> None" for v
    unfolding own_entries_mem[OF ok] not_None_eq by blast
  show ?thesis unfolding run using fold_keep_max[of k es] mem by (cases "fold (keep_max k) es None") auto
qed

lemma fold_collect_own: "(v, p) \<in> set (fold (collect_own k) es acc) \<longleftrightarrow> (v, p) \<in> set acc \<or> own_entry k p = Some v \<and> p \<in> fst ` set es"
  by (induction es arbitrary: acc) (auto simp: collect_own_def split: option.splits)

lemma vacuum_found:
  assumes "ti_ok h"
  obtains found where "scan_batches (collect_own k) (scan_prefix_stream h (k @ [VERSION_SEP]) MAINT_SCAN_BATCH) [] = Inr found"
    and "\<And>v p. (v, p) \<in> set found \<longleftrightarrow> p = encode_version_key k v \<and> hist_map h (k, v) \<noteq> None"
proof
  define es where "es = filter (\<lambda>e. prefix (k @ [VERSION_SEP]) (fst e)) h"
  show "scan_batches (collect_own k) (scan_prefix_stream h (k @ [VERSION_SEP]) MAINT_SCAN_BATCH) [] = Inr (fold (collect_own k) es [])"
    by (simp add: scan_prefix_stream_eq[OF assms] scan_batches_fold es_def)
  show "(v, p) \<in> set (fold (collect_own k) es []) \<longleftrightarrow> p = encode_version_key k v \<and> hist_map h (k, v) \<noteq> None" for v p
    using assms by (force simp: fold_collect_own own_entry_Some es_def hist_map_mem)
qed

section \<open>Reading the log\<close>

text \<open>The newest version of a key that is not above a bound, and what a reader sees of it.\<close>

fun log_at :: "vlog \<Rightarrow> bytes \<Rightarrow> nat \<Rightarrow> (nat \<times> bytes) option" where
  "log_at L k 0 = map_option (Pair 0) (L (k, 0))"
| "log_at L k (Suc s) = (case L (k, Suc s) of Some x \<Rightarrow> Some (Suc s, x) | None \<Rightarrow> log_at L k s)"

definition log_read :: "vlog \<Rightarrow> bytes \<Rightarrow> nat \<Rightarrow> bytes option" where
  "log_read L k s = (case log_at L k s of Some (_, x) \<Rightarrow> present x | None \<Rightarrow> None)"

lemma log_at_None: "log_at L k s = None \<longleftrightarrow> (\<forall>v \<le> s. L (k, v) = None)"
  by (induction s) (auto simp: le_Suc_eq split: option.splits)

lemma log_at_Some:
  "log_at L k s = Some (v, x) \<longleftrightarrow> v \<le> s \<and> L (k, v) = Some x \<and> (\<forall>w \<le> s. L (k, w) \<noteq> None \<longrightarrow> w \<le> v)"
proof (induction s)
  case (Suc s)
  show ?case
  proof (cases "L (k, Suc s)")
    case None
    with Suc show ?thesis by (auto simp: le_Suc_eq)
  next
    case (Some y)
    then show ?thesis by (auto simp: le_Suc_eq intro: antisym)
  qed
qed auto

lemma log_at_cut: "c \<le> s \<Longrightarrow> (\<And>v. c < v \<Longrightarrow> v \<le> s \<Longrightarrow> L (k, v) = None) \<Longrightarrow> log_at L k s = log_at L k c"
  by (induction s) (auto simp: le_Suc_eq)

text \<open>Two logs give the same answer when the newest version of one is in the other, and the other has nothing more.\<close>

lemma log_at_sub:
  assumes "\<And>v. v \<le> s \<Longrightarrow> M (k, v) = None \<or> M (k, v) = L (k, v)"
    and "\<And>v x. log_at L k s = Some (v, x) \<Longrightarrow> M (k, v) \<noteq> None"
  shows "log_at M k s = log_at L k s"
proof (cases "log_at L k s")
  case None
  then have "M (k, v) = None" if "v \<le> s" for v using assms(1)[OF that] that by (auto simp: log_at_None)
  then have "log_at M k s = None" by (simp add: log_at_None)
  with None show ?thesis by simp
next
  case (Some r)
  obtain v x where r: "r = (v, x)" by (cases r)
  with Some have top: "v \<le> s" "L (k, v) = Some x" "\<And>w. w \<le> s \<Longrightarrow> L (k, w) \<noteq> None \<Longrightarrow> w \<le> v" by (auto simp: log_at_Some)
  have "M (k, v) = Some x" using assms(1)[OF top(1)] assms(2)[of v x] Some r top(2) by auto
  moreover have "w \<le> v" if "w \<le> s" "M (k, w) \<noteq> None" for w using assms(1)[OF that(1)] that top(3)[OF that(1)] by auto
  ultimately have "log_at M k s = Some (v, x)" using top(1) by (simp add: log_at_Some)
  with Some r show ?thesis by simp
qed

end
