(* ===== verification/MvccRead.thy ===== *)
theory MvccRead
  imports MvccLog
begin

text \<open>
  The reads of the versioned store against the versions it holds: a read at a snapshot returns
  the newest version of the key that is not above the snapshot, wherever it lies, as long as
  the cell of the key is not below a version the reader may see; and the batched read returns what
  the point reads return.
\<close>

definition mv_map :: "'e mvcc \<Rightarrow> vlog" where
  "mv_map m = hist_map (history m) ++ ov_map (voverlay m)"

lemma mv_map_None: "mv_map m p = None \<longleftrightarrow> hist_map (history m) p = None \<and> ov_map (voverlay m) p = None"
  by (auto simp: mv_map_def map_add_def split: option.splits)

lemma store_get_hist:
  "v \<le> U64_MAX \<Longrightarrow> store_get h (encode_version_key k v) =
    (case hist_map h (k, v) of Some x \<Rightarrow> Inr x | None \<Rightarrow> Inl (NotFound (encode_version_key k v)))"
  by (simp add: store_get_def hist_map_def split: option.splits)

text \<open>The fallback takes the newer of the two hits.\<close>

lemma resolve_fallback:
  assumes "ti_ok (history m)" and "ov_ok (voverlay m)" and "s \<le> U64_MAX" and "\<not> (0 < c \<and> c \<le> s)"
  shows "resolve_read m k s c = Inr (log_read (mv_map m) k s)"
proof -
  define oh where "oh = newest_visible (voverlay m) k s"
  obtain hh where hh: "scan_history_newest (history m) k s = Inr hh"
    and h: "case hh of None \<Rightarrow> \<forall>v \<le> s. hist_map (history m) (k, v) = None
      | Some (v, x) \<Rightarrow> v \<le> s \<and> hist_map (history m) (k, v) = Some x \<and> (\<forall>w \<le> s. hist_map (history m) (k, w) \<noteq> None \<longrightarrow> w \<le> v)"
    using scan_history_newest_eq[OF assms(1,3), of k] by blast
  have o: "case oh of None \<Rightarrow> \<forall>v \<le> s. ov_map (voverlay m) (k, v) = None
      | Some (v, x) \<Rightarrow> v \<le> s \<and> ov_map (voverlay m) (k, v) = Some x \<and> (\<forall>w \<le> s. ov_map (voverlay m) (k, w) \<noteq> None \<longrightarrow> w \<le> v)"
    using newest_visible_None[OF assms(2), of k s] newest_visible_Some[OF assms(2), of k s]
    by (cases oh) (auto simp: oh_def ov_newest_def)
  have run: "resolve_read m k s c = Inr (newer_hit oh hh)"
    unfolding resolve_read.simps[of m k s c] if_not_P[OF assms(4)] by (simp add: oh_def Let_def hh)
  have "newer_hit oh hh = log_read (mv_map m) k s"
  proof (cases oh; cases hh)
    assume "oh = None" "hh = None"
    with o h have "log_at (mv_map m) k s = None" by (simp add: log_at_None mv_map_None)
    then show ?thesis using \<open>oh = None\<close> \<open>hh = None\<close> by (simp add: newer_hit_def log_read_def)
  next
    fix b assume c: "oh = None" "hh = Some b"
    with o h have "log_at (mv_map m) k s = Some b"
      by (cases b) (auto simp: log_at_Some mv_map_def map_add_def split: option.splits)
    with c show ?thesis by (cases b) (simp add: newer_hit_def log_read_def)
  next
    fix a assume c: "oh = Some a" "hh = None"
    with o h have "log_at (mv_map m) k s = Some a"
      by (cases a) (auto simp: log_at_Some mv_map_def map_add_def split: option.splits)
    with c show ?thesis by (cases a) (simp add: newer_hit_def log_read_def)
  next
    fix a b assume c: "oh = Some a" "hh = Some b"
    with o h have "log_at (mv_map m) k s = Some (if fst a \<ge> fst b then a else b)"
      by (cases a; cases b) (force simp: log_at_Some mv_map_def map_add_def split: option.splits)
    with c show ?thesis by (cases a; cases b) (simp add: newer_hit_def log_read_def)
  qed
  with run show ?thesis by simp
qed

text \<open>With a cell that is not below any version up to the snapshot, the direct path gives the same.\<close>

lemma get_at_exact:
  assumes "ti_ok (history m)" and "ov_ok (voverlay m)" and "s \<le> U64_MAX"
    and top: "\<And>v. current_version m k > 0 \<Longrightarrow> v \<le> s \<Longrightarrow> mv_map m (k, v) \<noteq> None \<Longrightarrow> v \<le> current_version m k"
  shows "get_at m k s = Inr (log_read (mv_map m) k s)"
proof (cases "0 < current_version m k \<and> current_version m k \<le> s")
  case False
  from resolve_fallback[OF assms(1-3) False] show ?thesis by (simp add: get_at_def)
next
  case True
  define c where "c = current_version m k"
  have c: "0 < c" "c \<le> s" "c \<le> U64_MAX" using True assms(3) by (simp_all add: c_def)
  have "mv_map m (k, v) = None" if "c < v" "v \<le> s" for v using top[of v] that True by (cases "mv_map m (k, v)") (auto simp: c_def)
  then have cut: "log_at (mv_map m) k s = log_at (mv_map m) k c" using log_at_cut[OF c(2)] by blast
  have step: "get_at m k s = (case mv_map m (k, c) of Some x \<Rightarrow> Inr (present x) | None \<Rightarrow> resolve_read m k (min s (c - 1)) 0)"
    unfolding get_at_def c_def[symmetric] using c
    by (subst resolve_read.simps) (simp add: overlay_get_eq[OF assms(2)] store_get_hist mv_map_def map_add_def split: option.splits)
  show ?thesis
  proof (cases "mv_map m (k, c)")
    case None
    have "min s (c - 1) = c - 1" and "c - 1 \<le> U64_MAX" using c by simp_all
    moreover have "log_at (mv_map m) k c = log_at (mv_map m) k (c - 1)" using None c(1) by (cases c) simp_all
    ultimately show ?thesis using resolve_fallback[OF assms(1,2), of "c - 1" 0 k] None step cut by (simp add: log_read_def)
  next
    case (Some x)
    then have "log_at (mv_map m) k c = Some (c, x)" by (cases c) simp_all
    with Some step cut show ?thesis by (simp add: log_read_def)
  qed
qed

section \<open>Batched reads\<close>

lemma get_many_mem: "get_many store_get h ks = Inr (map (map_of h) ks)"
  by (induction ks) (auto simp: store_get_def split: option.splits)

text \<open>The slot of one key resolves to its point read once the log lookups of the batch are in.\<close>

lemma at_classify_one:
  obtains x M where "at_classify m s k (slots, miss) = (slots @ [x], miss @ M)"
    and "\<And>tail. at_finish m s (map (map_of (history m)) (miss @ M @ tail)) (k, x) = get_at m k s"
proof (cases "current_version m k = 0 \<or> current_version m k > s")
  case True
  then show ?thesis by (intro that[of AtFallback "[]"]) (simp_all add: at_classify_def at_finish_def get_at_def)
next
  case direct: False
  show ?thesis
  proof (cases "overlay_get (voverlay m) k (current_version m k)")
    case (Some val)
    with direct show ?thesis
      by (intro that[of "AtResolved (present val)" "[]"]) (simp_all add: at_classify_def at_finish_def get_at_def resolve_read.simps[of m k s])
  next
    case None
    with direct show ?thesis
      by (intro that[of "AtHistoryMiss (length miss) (current_version m k)" "[encode_version_key k (current_version m k)]"])
        (simp_all add: at_classify_def Let_def at_finish_def get_at_def resolve_read.simps[of m k s "current_version m k"] nth_append store_get_def
          split: option.splits)
  qed
qed

lemma at_classify_all:
  "\<exists>S M. fold (at_classify m s) keys (slots, miss) = (slots @ S, miss @ M) \<and> length S = length keys
    \<and> (\<forall>tail. map (at_finish m s (map (map_of (history m)) (miss @ M @ tail))) (zip keys S) = map (\<lambda>k. get_at m k s) keys)"
proof (induction keys arbitrary: slots miss)
  case (Cons k keys)
  obtain x M where one: "at_classify m s k (slots, miss) = (slots @ [x], miss @ M)"
    and fin: "\<And>tail. at_finish m s (map (map_of (history m)) (miss @ M @ tail)) (k, x) = get_at m k s"
    using at_classify_one[of m s k slots miss] by blast
  obtain S M' where rest: "fold (at_classify m s) keys (slots @ [x], miss @ M) = ((slots @ [x]) @ S, (miss @ M) @ M')" "length S = length keys"
    and fins: "\<And>tail. map (at_finish m s (map (map_of (history m)) ((miss @ M) @ M' @ tail))) (zip keys S) = map (\<lambda>k. get_at m k s) keys"
    using Cons[of "slots @ [x]" "miss @ M"] by blast
  have "fold (at_classify m s) (k # keys) (slots, miss) = (slots @ (x # S), miss @ (M @ M'))" using rest(1) by (simp add: one)
  moreover have "map (at_finish m s (map (map_of (history m)) (miss @ (M @ M') @ tail))) (zip (k # keys) (x # S)) = map (\<lambda>k. get_at m k s) (k # keys)" for tail
    using fin[of "M' @ tail"] fins[of tail] by simp
  ultimately show ?case using rest(2) by (intro exI[of _ "x # S"] exI[of _ "M @ M'"]) simp
qed simp

lemma get_at_many_eq: "get_at_many m keys s = try_collect (map (\<lambda>k. get_at m k s) keys)"
proof -
  obtain S M where run: "fold (at_classify m s) keys ([], []) = (S, M)"
    and fin: "\<And>tail. map (at_finish m s (map (map_of (history m)) (M @ tail))) (zip keys S) = map (\<lambda>k. get_at m k s) keys"
    using at_classify_all[of m s keys "[]" "[]"] by auto
  have "(if M = [] then Inr [] else get_many store_get (history m) M) = Inr (map (map_of (history m)) M)" by (simp add: get_many_mem)
  with fin[of "[]"] show ?thesis by (simp add: get_at_many_def run)
qed

end
