(* ===== verification/MvccInv.thy ===== *)
theory MvccInv
  imports MvccRead
begin

text \<open>
  What the versioned store keeps, against the log of all committed versions, a map from key and
  version to a value that only grows.  The files of the version log and the overlay hold parts of it; a
  version missing from both is superseded: a later version of its key is not above
  any snapshot that can still be read.  A version that is allocated and not settled is pending; a
  direct write whose cleanup failed leaves a version that is neither, and the store is fenced.
  The lemmas take one effect at a time.
\<close>

abbreviation wmark :: "'e mvcc \<Rightarrow> nat" where
  "wmark m \<equiv> watermark (completion (gate m))"

abbreviation visible_set :: "'e mvcc \<Rightarrow> nat set" where
  "visible_set m \<equiv> settled (completion (gate m))"

abbreviation durable_set :: "'e mvcc \<Rightarrow> nat set" where
  "durable_set m \<equiv> settled (durable_completion (gate m))"

abbreviation dmark :: "'e mvcc \<Rightarrow> nat" where
  "dmark m \<equiv> watermark (durable_completion (gate m))"

text \<open>The oldest version a reader may still ask for.\<close>

definition low :: "'e mvcc \<Rightarrow> nat" where
  "low m = fold min (active_snapshots m) (wmark m)"

definition superseded :: "vlog \<Rightarrow> nat \<Rightarrow> bytes \<times> nat \<Rightarrow> bool" where
  "superseded L b p = (\<exists>w. snd p < w \<and> w \<le> b \<and> L (fst p, w) \<noteq> None)"

definition gate_part :: "'e mvcc \<Rightarrow> nat set \<Rightarrow> bool" where
  "gate_part m pend = (track_inv (gate m) \<and> visible_set m \<subseteq> {..version_counter (gate m)} \<and> pend \<subseteq> {..version_counter (gate m)}
    \<and> pend \<inter> visible_set m = {} \<and> version_counter (gate m) < U64_MAX \<and> \<not> receipt_native m
    \<and> (\<forall>s \<in> set (active_snapshots m). s \<le> wmark m))"

definition data_part :: "'e mvcc \<Rightarrow> vlog \<Rightarrow> nat set \<Rightarrow> bool" where
  "data_part m L pend = (ti_ok (history m) \<and> ov_ok (voverlay m)
    \<and> (\<forall>p. L p \<noteq> None \<longrightarrow> snd p \<in> visible_set m \<union> pend \<and> 0 < snd p)
    \<and> (\<forall>p. ov_map (voverlay m) p = None \<or> ov_map (voverlay m) p = L p)
    \<and> (\<forall>p. hist_map (history m) p = None \<or> hist_map (history m) p = L p
        \<or> writes_fenced (gate m) \<and> snd p \<le> version_counter (gate m) \<and> snd p \<notin> visible_set m \<union> pend))"

definition kept_part :: "'e mvcc \<Rightarrow> vlog \<Rightarrow> bool" where
  "kept_part m L = (\<forall>p. L p \<noteq> None \<longrightarrow> superseded L (low m) p
    \<or> (if snd p \<in> durable_set m then hist_map (history m) p \<noteq> None else mv_map m p \<noteq> None))"

definition cell_part :: "'e mvcc \<Rightarrow> vlog \<Rightarrow> bool" where
  "cell_part m L = (\<forall>k. current_version m k \<le> version_counter (gate m)
    \<and> (\<forall>v. L (k, v) \<noteq> None \<longrightarrow> (if current_version m k = 0 then v \<le> dmark m else v \<le> current_version m k))
    \<and> (\<forall>c. cells m k = Some c \<longrightarrow> 0 < vacuum_anchor c \<longrightarrow> superseded L (cversion c) (k, vacuum_anchor c)))"

definition mvcc_inv :: "'e mvcc \<Rightarrow> vlog \<Rightarrow> nat set \<Rightarrow> bool" where
  "mvcc_inv m L pend = (gate_part m pend \<and> data_part m L pend \<and> kept_part m L \<and> cell_part m L)"

lemmas inv_parts = gate_part_def data_part_def kept_part_def cell_part_def

section \<open>The bound\<close>

lemma fold_min_le: "fold min xs b \<le> (b :: nat)"
proof (induction xs arbitrary: b)
  case (Cons x xs)
  from Cons[of "min x b"] show ?case by simp
qed simp

lemma fold_min_mem: "x \<in> set xs \<Longrightarrow> fold min xs b \<le> (x :: nat)"
proof (induction xs arbitrary: b)
  case (Cons y ys)
  from fold_min_le[of ys "min y b"] Cons show ?case by auto
qed simp

lemma fold_min_ge: "(\<And>x. x \<in> set xs \<Longrightarrow> c \<le> x) \<Longrightarrow> c \<le> b \<Longrightarrow> c \<le> fold min xs (b :: nat)"
  by (induction xs arbitrary: b) auto

lemma low_le: "low m \<le> wmark m" "s \<in> set (active_snapshots m) \<Longrightarrow> low m \<le> s"
  by (simp_all add: low_def fold_min_le fold_min_mem)

lemma low_mono:
  assumes "set (active_snapshots m') \<subseteq> set (active_snapshots m) \<union> {low m ..}" and "wmark m \<le> wmark m'"
  shows "low m \<le> low m'"
  unfolding low_def[of m'] using assms low_le(1)[of m] low_le(2)[of _ m] by (intro fold_min_ge) (auto intro: le_trans)

lemma low_empty: "active_snapshots m = [] \<Longrightarrow> low m = wmark m"
  by (simp add: low_def)

lemma min_alive_low: "min_alive m = (if openings m > 0 then 0 else low m)"
  by (simp add: min_alive_def low_def)

lemma superseded_mono: "superseded L b p \<Longrightarrow> b \<le> b' \<Longrightarrow> L \<subseteq>\<^sub>m L' \<Longrightarrow> superseded L' b' p"
  unfolding superseded_def map_le_def by (metis domIff le_trans)

lemma wmark_visible: "gate_part m pend \<Longrightarrow> v \<le> wmark m \<Longrightarrow> v \<in> visible_set m"
  by (simp add: settled_def)

lemma mvcc_invD:
  assumes "mvcc_inv m L pend"
  shows "gate_part m pend" "data_part m L pend" "kept_part m L" "cell_part m L"
  using assms by (simp_all add: mvcc_inv_def)

lemma gate_partD:
  assumes "gate_part m pend"
  shows "track_inv (gate m)" "v \<in> visible_set m \<Longrightarrow> v \<le> version_counter (gate m)" "v \<in> pend \<Longrightarrow> v \<le> version_counter (gate m)"
    "v \<in> pend \<Longrightarrow> v \<notin> visible_set m" "version_counter (gate m) < U64_MAX" "\<not> receipt_native m" "s \<in> set (active_snapshots m) \<Longrightarrow> s \<le> wmark m"
    "durable_set m \<subseteq> visible_set m" "wmark m \<le> version_counter (gate m)" "v \<in> pend \<Longrightarrow> wmark m < v"
  using assms by (auto simp: gate_part_def track_inv_def settled_def intro: leI)

lemma data_partD:
  assumes "data_part m L pend"
  shows "ti_ok (history m)" "ov_ok (voverlay m)" "L p \<noteq> None \<Longrightarrow> snd p \<in> visible_set m \<union> pend" "L p \<noteq> None \<Longrightarrow> 0 < snd p"
    "ov_map (voverlay m) p = None \<or> ov_map (voverlay m) p = L p"
    "hist_map (history m) p = None \<or> hist_map (history m) p = L p
        \<or> writes_fenced (gate m) \<and> snd p \<le> version_counter (gate m) \<and> snd p \<notin> visible_set m \<union> pend"
  using assms unfolding data_part_def by blast+

lemma durable_mono:
  assumes "track_inv g" and "track_inv g'" and "settled (durable_completion g) \<subseteq> settled (durable_completion g')"
  shows "watermark (durable_completion g) \<le> watermark (durable_completion g')"
proof (rule live_watermark)
  have "{0 .. watermark (durable_completion g)} \<subseteq> settled (durable_completion g)" by (auto simp: settled_def)
  with assms(3) show "{0 .. watermark (durable_completion g)} \<subseteq> settled (durable_completion g')" by (rule subset_trans[rotated])
qed (use assms(2) in \<open>simp add: track_inv_def\<close>)

lemma dmark_le: "track_inv (gate m) \<Longrightarrow> dmark m \<le> wmark m"
proof (rule live_watermark)
  assume t: "track_inv (gate m)"
  then show "tracker_live (completion (gate m))" by (simp add: track_inv_def)
  have "{0 .. dmark m} \<subseteq> durable_set m" by (auto simp: settled_def)
  with t show "{0 .. dmark m} \<subseteq> visible_set m" unfolding track_inv_def by blast
qed

text \<open>A version above the counter is in no part of the store.\<close>

lemma nothing_above:
  assumes "mvcc_inv m L pend" and "version_counter (gate m) < v"
  shows "L (k, v) = None" "hist_map (history m) (k, v) = None" "ov_map (voverlay m) (k, v) = None"
proof -
  note g = gate_partD[OF mvcc_invD(1)[OF assms(1)]] and d = data_partD[OF mvcc_invD(2)[OF assms(1)]]
  show n: "L (k, v) = None" using d(3)[of "(k, v)"] g(2)[of v] g(3)[of v] assms(2) by (cases "L (k, v)") auto
  show "hist_map (history m) (k, v) = None" using d(6)[of "(k, v)"] n assms(2) by (cases "hist_map (history m) (k, v)") auto
  show "ov_map (voverlay m) (k, v) = None" using d(5)[of "(k, v)"] n by (cases "ov_map (voverlay m) (k, v)") auto
qed

section \<open>Reads\<close>

lemma mv_map_if: "mv_map m p = (if ov_map (voverlay m) p = None then hist_map (history m) p else ov_map (voverlay m) p)"
  by (auto simp: mv_map_def map_add_def)

lemma held_or_superseded: "kept_part m L \<Longrightarrow> L p \<noteq> None \<Longrightarrow> superseded L (low m) p \<or> mv_map m p \<noteq> None"
  unfolding kept_part_def mv_map_None by (metis (full_types))

lemma held_is_logged:
  assumes inv: "mvcc_inv m L pend" and vis: "v \<le> wmark m \<or> \<not> writes_fenced (gate m)"
  shows "mv_map m (k, v) = None \<or> mv_map m (k, v) = L (k, v)"
proof -
  note d = data_partD[OF mvcc_invD(2)[OF inv]]
  have "hist_map (history m) (k, v) = None \<or> hist_map (history m) (k, v) = L (k, v)"
    using d(6)[of "(k, v)"] vis wmark_visible[OF mvcc_invD(1)[OF inv], of v] by (cases "hist_map (history m) (k, v)") auto
  then show ?thesis using d(5)[of "(k, v)"] unfolding mv_map_if by metis
qed

lemma inv_log_at:
  assumes inv: "mvcc_inv m L pend" and s: "low m \<le> s" and vis: "s \<le> wmark m \<or> \<not> writes_fenced (gate m)"
  shows "log_at (mv_map m) k s = log_at L k s"
proof (rule log_at_sub)
  show "v \<le> s \<Longrightarrow> mv_map m (k, v) = None \<or> mv_map m (k, v) = L (k, v)" for v
    using held_is_logged[OF inv, of v k] vis by linarith
next
  fix v x assume "log_at L k s = Some (v, x)"
  then have v: "L (k, v) = Some x" "\<And>w. w \<le> s \<Longrightarrow> L (k, w) \<noteq> None \<Longrightarrow> w \<le> v" by (auto simp: log_at_Some)
  have "\<not> superseded L (low m) (k, v)"
  proof
    assume "superseded L (low m) (k, v)"
    then obtain w where "v < w" "w \<le> low m" "L (k, w) \<noteq> None" by (auto simp: superseded_def)
    with v(2)[of w] s show False by simp
  qed
  with held_or_superseded[OF mvcc_invD(3)[OF inv], of "(k, v)"] v(1) show "mv_map m (k, v) \<noteq> None" by simp
qed

lemma inv_get_at:
  assumes inv: "mvcc_inv m L pend" and s: "low m \<le> s" and vis: "s \<le> wmark m \<or> \<not> writes_fenced (gate m)" and max: "s \<le> U64_MAX"
  shows "get_at m k s = Inr (log_read L k s)"
proof -
  note g = gate_partD[OF mvcc_invD(1)[OF inv]] and d = data_partD[OF mvcc_invD(2)[OF inv]]
  have "v \<le> current_version m k" if "current_version m k > 0" "v \<le> s" "mv_map m (k, v) \<noteq> None" for v
  proof -
    have "L (k, v) \<noteq> None" using held_is_logged[OF inv, of v k] vis that(2,3) by fastforce
    with mvcc_invD(4)[OF inv] that(1) show ?thesis unfolding cell_part_def by (metis less_numeral_extra(3))
  qed
  from get_at_exact[OF d(1,2) max this] inv_log_at[OF inv s vis, of k] show ?thesis by (simp add: log_read_def)
qed

section \<open>Single effects\<close>

lemma kept_partI:
  assumes "\<And>p. \<lbrakk>L p \<noteq> None; \<not> superseded L (low m) p; snd p \<in> durable_set m\<rbrakk> \<Longrightarrow> hist_map (history m) p \<noteq> None"
    and "\<And>p. \<lbrakk>L p \<noteq> None; \<not> superseded L (low m) p; snd p \<notin> durable_set m\<rbrakk> \<Longrightarrow> mv_map m p \<noteq> None"
  shows "kept_part m L"
  unfolding kept_part_def using assms by (metis (full_types))

lemma kept_partD:
  assumes "kept_part m L" and "L p \<noteq> None" and "\<not> superseded L (low m) p"
  shows "snd p \<in> durable_set m \<Longrightarrow> hist_map (history m) p \<noteq> None" and "mv_map m p \<noteq> None"
  using assms held_or_superseded[OF assms(1,2)] unfolding kept_part_def by (metis (full_types))+

lemma kept_cong:
  assumes "kept_part m L" and "low m' = low m" "durable_set m' = durable_set m" "history m' = history m" "mv_map m' = mv_map m"
  shows "kept_part m' L"
  using assms(1) unfolding kept_part_def assms(2-) .

lemma data_partI:
  assumes "ti_ok (history m)" "ov_ok (voverlay m)" "\<And>p. L p \<noteq> None \<Longrightarrow> snd p \<in> visible_set m \<union> pend" "\<And>p. L p \<noteq> None \<Longrightarrow> 0 < snd p"
    "\<And>p. ov_map (voverlay m) p = None \<or> ov_map (voverlay m) p = L p"
    "\<And>p. hist_map (history m) p = None \<or> hist_map (history m) p = L p
        \<or> writes_fenced (gate m) \<and> snd p \<le> version_counter (gate m) \<and> snd p \<notin> visible_set m \<union> pend"
  shows "data_part m L pend"
  using assms unfolding data_part_def by blast

lemma data_cong:
  assumes "data_part m L pend" and "history m' = history m" "voverlay m' = voverlay m" "visible_set m' \<union> pend' = visible_set m \<union> pend"
    "writes_fenced (gate m') = writes_fenced (gate m)" "version_counter (gate m') = version_counter (gate m)"
  shows "data_part m' L pend'"
  using assms(1) unfolding data_part_def assms(2-) .

lemma cell_partI:
  assumes "\<And>k. current_version m k \<le> version_counter (gate m)"
    and "\<And>k v. \<lbrakk>L (k, v) \<noteq> None; current_version m k = 0\<rbrakk> \<Longrightarrow> v \<le> dmark m"
    and "\<And>k v. \<lbrakk>L (k, v) \<noteq> None; current_version m k \<noteq> 0\<rbrakk> \<Longrightarrow> v \<le> current_version m k"
    and "\<And>k c. \<lbrakk>cells m k = Some c; 0 < vacuum_anchor c\<rbrakk> \<Longrightarrow> superseded L (cversion c) (k, vacuum_anchor c)"
  shows "cell_part m L"
  unfolding cell_part_def using assms by (metis (full_types))

lemma cell_partD:
  assumes "cell_part m L"
  shows "current_version m k \<le> version_counter (gate m)"
    and "\<lbrakk>L (k, v) \<noteq> None; current_version m k = 0\<rbrakk> \<Longrightarrow> v \<le> dmark m"
    and "\<lbrakk>L (k, v) \<noteq> None; current_version m k \<noteq> 0\<rbrakk> \<Longrightarrow> v \<le> current_version m k"
    and "\<lbrakk>cells m k = Some c; 0 < vacuum_anchor c\<rbrakk> \<Longrightarrow> superseded L (cversion c) (k, vacuum_anchor c)"
  using assms unfolding cell_part_def by (metis (full_types))+

lemma cell_mono:
  assumes "cell_part m L" and "cells m' = cells m" and "version_counter (gate m) \<le> version_counter (gate m')" and "dmark m \<le> dmark m'"
  shows "cell_part m' L"
proof (rule cell_partI)
  note c = cell_partD[OF assms(1)]
  have cur: "current_version m' k = current_version m k" for k by (simp add: current_version_def assms(2))
  show "current_version m' k \<le> version_counter (gate m')" for k using c(1)[of k] assms(3) by (simp add: cur)
  show "L (k, v) \<noteq> None \<Longrightarrow> current_version m' k = 0 \<Longrightarrow> v \<le> dmark m'" for k v using c(2)[of k v] assms(4) by (auto simp: cur)
  show "L (k, v) \<noteq> None \<Longrightarrow> current_version m' k \<noteq> 0 \<Longrightarrow> v \<le> current_version m' k" for k v using c(3)[of k v] by (simp add: cur)
  show "cells m' k = Some d \<Longrightarrow> 0 < vacuum_anchor d \<Longrightarrow> superseded L (cversion d) (k, vacuum_anchor d)" for k d using c(4)[of k d] assms(2) by simp
qed

lemma inv_frame:
  assumes "mvcc_inv m L pend" and "history m' = history m" "voverlay m' = voverlay m" "gate m' = gate m" "cells m' = cells m"
    "active_snapshots m' = active_snapshots m" "receipt_native m' = receipt_native m"
  shows "mvcc_inv m' L pend"
  using assms(1) unfolding mvcc_inv_def inv_parts low_def mv_map_def current_version_def assms(2-) .

lemma mv_map_upd [simp]:
  "mv_map (m\<lparr>gate := g\<rparr>) = mv_map m" "mv_map (m\<lparr>cells := C\<rparr>) = mv_map m" "low (m\<lparr>cells := C\<rparr>) = low m"
  "low (m\<lparr>history := h\<rparr>) = low m" "low (m\<lparr>voverlay := ov\<rparr>) = low m"
  by (simp_all add: mv_map_def low_def)

lemma current_version_upd [simp]:
  "current_version (m\<lparr>gate := g\<rparr>) k = current_version m k" "current_version (m\<lparr>history := h\<rparr>) k = current_version m k"
  "current_version (m\<lparr>voverlay := ov\<rparr>) k = current_version m k"
  by (simp_all add: current_version_def)

lemma inv_cells: "mvcc_inv m L pend \<Longrightarrow> cell_part (m\<lparr>cells := C\<rparr>) L \<Longrightarrow> mvcc_inv (m\<lparr>cells := C\<rparr>) L pend"
proof -
  have "gate_part (m\<lparr>cells := C\<rparr>) pend = gate_part m pend" "data_part (m\<lparr>cells := C\<rparr>) L pend = data_part m L pend"
      "kept_part (m\<lparr>cells := C\<rparr>) L = kept_part m L"
    by (simp_all add: gate_part_def data_part_def kept_part_def)
  then show "mvcc_inv m L pend \<Longrightarrow> cell_part (m\<lparr>cells := C\<rparr>) L \<Longrightarrow> ?thesis" by (simp add: mvcc_inv_def)
qed

lemma inv_cell_upd:
  assumes "mvcc_inv m L pend" and "cversion c \<le> version_counter (gate m)"
    and "\<And>v. L (k, v) \<noteq> None \<Longrightarrow> if cversion c = 0 then v \<le> dmark m else v \<le> cversion c"
    and "0 < vacuum_anchor c \<Longrightarrow> superseded L (cversion c) (k, vacuum_anchor c)"
  shows "mvcc_inv (m\<lparr>cells := (cells m)(k \<mapsto> c)\<rparr>) L pend"
proof (intro inv_cells assms(1) cell_partI)
  note c = cell_partD[OF mvcc_invD(4)[OF assms(1)]]
  let ?m = "m\<lparr>cells := (cells m)(k \<mapsto> c)\<rparr>"
  have cur: "current_version ?m j = (if j = k then cversion c else current_version m j)" for j by (simp add: current_version_def)
  show "current_version ?m j \<le> version_counter (gate ?m)" for j using c(1) assms(2) by (simp add: cur)
  show "L (j, v) \<noteq> None \<Longrightarrow> current_version ?m j = 0 \<Longrightarrow> v \<le> dmark ?m" for j v
    using c(2)[of j v] assms(3)[of v] by (auto simp: cur split: if_splits)
  show "L (j, v) \<noteq> None \<Longrightarrow> current_version ?m j \<noteq> 0 \<Longrightarrow> v \<le> current_version ?m j" for j v
    using c(3)[of j v] assms(3)[of v] by (auto simp: cur split: if_splits)
  show "cells ?m j = Some d \<Longrightarrow> 0 < vacuum_anchor d \<Longrightarrow> superseded L (cversion d) (j, vacuum_anchor d)" for j d
    using c(4)[of j d] assms(4) by (auto split: if_splits)
qed

text \<open>A gate that differs in what it has published, handed out or fenced.\<close>

lemma inv_gate_frame:
  assumes "mvcc_inv m L pend" and "completion g = completion (gate m)" "durable_completion g = durable_completion (gate m)"
    "version_counter g = version_counter (gate m)" "last_committed (gate m) \<le> last_committed g" "writes_fenced (gate m) \<Longrightarrow> writes_fenced g"
  shows "mvcc_inv (m\<lparr>gate := g\<rparr>) L pend"
proof -
  note p = mvcc_invD[OF assms(1)]
  have "track_inv g" using track_inv_frame[OF gate_partD(1)[OF p(1)] assms(2,3,5)] .
  then have "gate_part (m\<lparr>gate := g\<rparr>) pend" using p(1) assms by (simp add: gate_part_def)
  moreover have "data_part (m\<lparr>gate := g\<rparr>) L pend"
  proof (rule data_partI)
    show "hist_map (history (m\<lparr>gate := g\<rparr>)) q = None \<or> hist_map (history (m\<lparr>gate := g\<rparr>)) q = L q \<or> writes_fenced (gate (m\<lparr>gate := g\<rparr>))
        \<and> snd q \<le> version_counter (gate (m\<lparr>gate := g\<rparr>)) \<and> snd q \<notin> visible_set (m\<lparr>gate := g\<rparr>) \<union> pend" for q
      using data_partD(6)[OF p(2), of q] assms(2,4,6) by auto
  qed (use data_partD[OF p(2)] assms(2) in simp_all)
  moreover have "kept_part (m\<lparr>gate := g\<rparr>) L" by (rule kept_cong[OF p(3)]) (simp_all add: low_def assms(2,3))
  moreover have "cell_part (m\<lparr>gate := g\<rparr>) L" by (rule cell_mono[OF p(4)]) (use assms(3,4) in simp_all)
  ultimately show ?thesis by (simp add: mvcc_inv_def)
qed

lemma inv_allocate:
  assumes "mvcc_inv m L pend" and "v = version_counter (gate m) + 1" and "v < U64_MAX"
    and "completion g = completion (gate m)" "durable_completion g = durable_completion (gate m)"
    "version_counter g = v" "last_committed g = last_committed (gate m)" "writes_fenced g = writes_fenced (gate m)"
  shows "mvcc_inv (m\<lparr>gate := g\<rparr>) L (insert v pend)"
proof -
  note p = mvcc_invD[OF assms(1)] and g = gate_partD[OF mvcc_invD(1)[OF assms(1)]] and d = data_partD[OF mvcc_invD(2)[OF assms(1)]]
  have "track_inv g" using track_inv_frame[OF g(1) assms(4,5)] assms(7) by simp
  moreover have "v \<notin> visible_set m" using g(2)[of v] assms(2) by auto
  ultimately have "gate_part (m\<lparr>gate := g\<rparr>) (insert v pend)" using p(1) assms(2-8) by (auto simp: gate_part_def)
  moreover have "data_part (m\<lparr>gate := g\<rparr>) L (insert v pend)"
  proof (rule data_partI)
    show "hist_map (history (m\<lparr>gate := g\<rparr>)) q = None \<or> hist_map (history (m\<lparr>gate := g\<rparr>)) q = L q \<or> writes_fenced (gate (m\<lparr>gate := g\<rparr>))
        \<and> snd q \<le> version_counter (gate (m\<lparr>gate := g\<rparr>)) \<and> snd q \<notin> visible_set (m\<lparr>gate := g\<rparr>) \<union> insert v pend" for q
      using d(6)[of q] assms(2,4,6,8) by auto
  qed (use d assms(4) in simp_all)
  moreover have "kept_part (m\<lparr>gate := g\<rparr>) L" by (rule kept_cong[OF p(3)]) (simp_all add: low_def assms(4,5))
  moreover have "cell_part (m\<lparr>gate := g\<rparr>) L" by (rule cell_mono[OF p(4)]) (use assms(2,5,6) in simp_all)
  ultimately show ?thesis by (simp add: mvcc_inv_def)
qed

text \<open>A pending version is settled; when it is settled as durable at once, nothing was logged under it.\<close>

lemma inv_settle:
  assumes inv: "mvcc_inv m L pend" and v: "v \<in> pend" and t: "track_inv g"
    and g: "version_counter g = version_counter (gate m)" "writes_fenced g = writes_fenced (gate m)"
    "settled (completion g) = insert v (visible_set m)" "wmark m \<le> watermark (completion g)" "durable_set m \<subseteq> settled (durable_completion g)"
    and dur: "\<And>p. L p \<noteq> None \<Longrightarrow> snd p \<in> settled (durable_completion g) \<Longrightarrow> snd p \<in> durable_set m"
  shows "mvcc_inv (m\<lparr>gate := g\<rparr>) L (pend - {v})"
proof -
  note p = mvcc_invD[OF inv] and gd = gate_partD[OF mvcc_invD(1)[OF inv]] and d = data_partD[OF mvcc_invD(2)[OF inv]]
  let ?m = "m\<lparr>gate := g\<rparr>"
  have same: "settled (completion g) \<union> (pend - {v}) = visible_set m \<union> pend" using v g(3) by auto
  have low: "low m \<le> low ?m" by (rule low_mono) (use g(4) in auto)
  have "gate_part ?m (pend - {v})"
    unfolding gate_part_def using t g(1,3) gd(2-6) v le_trans[OF gd(7) g(4)] by auto
  moreover have "data_part ?m L (pend - {v})" by (rule data_cong[OF p(2)]) (use g(1,2) same in simp_all)
  moreover have "kept_part ?m L"
  proof (rule kept_partI)
    fix q assume q: "L q \<noteq> None" "\<not> superseded L (low ?m) q"
    then have q': "\<not> superseded L (low m) q" using superseded_mono[of L "low m" q "low ?m" L] low by (auto simp: map_le_def)
    show "mv_map ?m q \<noteq> None" using kept_partD(2)[OF p(3) q(1) q'] by simp
    show "hist_map (history ?m) q \<noteq> None" if "snd q \<in> durable_set ?m"
      using kept_partD(1)[OF p(3) q(1) q'] dur[OF q(1)] that by simp
  qed
  moreover have "cell_part ?m L" by (rule cell_mono[OF p(4)]) (use g(1) durable_mono[OF gd(1) t g(5)] in simp_all)
  ultimately show ?thesis by (simp add: mvcc_inv_def)
qed

lemma inv_durable:
  assumes inv: "mvcc_inv m L pend" and v: "v \<in> visible_set m"
    and held: "\<And>k. L (k, v) \<noteq> None \<Longrightarrow> superseded L (low m) (k, v) \<or> hist_map (history m) (k, v) \<noteq> None"
  shows "mvcc_inv (m\<lparr>gate := mark_durable v (gate m)\<rparr>) L pend"
proof -
  note p = mvcc_invD[OF inv] and gd = gate_partD[OF mvcc_invD(1)[OF inv]] and d = data_partD[OF mvcc_invD(2)[OF inv]]
  let ?m = "m\<lparr>gate := mark_durable v (gate m)\<rparr>"
  have t: "track_inv (gate ?m)" using track_inv_durable[OF gd(1) v] by simp
  have live: "tracker_live (durable_completion (gate m))" using gd(1) by (simp add: track_inv_def)
  have dur: "durable_set ?m = insert v (durable_set m)" using mark_live(2)[OF live, of Materialized v] by (simp add: mark_durable_def)
  have same: "completion (gate ?m) = completion (gate m)" "version_counter (gate ?m) = version_counter (gate m)"
      "writes_fenced (gate ?m) = writes_fenced (gate m)"
    by (simp_all add: mark_durable_def)
  have low: "low ?m = low m" unfolding low_def same by simp
  have "gate_part ?m pend" using p(1) t unfolding gate_part_def same by simp
  moreover have "data_part ?m L pend" by (rule data_cong[OF p(2)]) (simp_all add: mark_durable_def)
  moreover have "kept_part ?m L"
  proof (rule kept_partI; unfold low)
    fix q assume q: "L q \<noteq> None" "\<not> superseded L (low m) q"
    show "mv_map ?m q \<noteq> None" using kept_partD(2)[OF p(3) q] by simp
    show "hist_map (history ?m) q \<noteq> None" if "snd q \<in> durable_set ?m"
      using kept_partD(1)[OF p(3) q] held[of "fst q"] q that unfolding dur by (cases "snd q = v") auto
  qed
  moreover have "cell_part ?m L" by (rule cell_mono[OF p(4)]) (use mark_live(3)[OF live, of Materialized v] same in \<open>simp_all add: mark_durable_def\<close>)
  ultimately show ?thesis by (simp add: mvcc_inv_def)
qed

text \<open>Versions under which nothing was logged may be given up.\<close>

lemma inv_forget:
  assumes inv: "mvcc_inv m L pend" and "\<And>p. L p \<noteq> None \<Longrightarrow> snd p \<notin> vs"
  shows "mvcc_inv m L (pend - vs)"
proof -
  note p = mvcc_invD[OF inv] and d = data_partD[OF mvcc_invD(2)[OF inv]]
  have "gate_part m (pend - vs)" using p(1) by (auto simp: gate_part_def)
  moreover have "data_part m L (pend - vs)"
  proof (rule data_partI)
    show "L q \<noteq> None \<Longrightarrow> snd q \<in> visible_set m \<union> (pend - vs)" for q using d(3)[of q] assms(2)[of q] by auto
    show "hist_map (history m) q = None \<or> hist_map (history m) q = L q
        \<or> writes_fenced (gate m) \<and> snd q \<le> version_counter (gate m) \<and> snd q \<notin> visible_set m \<union> (pend - vs)" for q
      using d(6)[of q] by auto
  qed (use d in simp_all)
  ultimately show ?thesis using p by (simp add: mvcc_inv_def)
qed

lemma inv_stray:
  assumes inv: "mvcc_inv m L pend" and f: "writes_fenced (gate m)" and h: "ti_ok h"
    and ch: "\<And>p. hist_map h p = hist_map (history m) p \<or> snd p \<le> version_counter (gate m) \<and> snd p \<notin> visible_set m \<union> pend"
  shows "mvcc_inv (m\<lparr>history := h\<rparr>) L pend"
proof -
  note p = mvcc_invD[OF inv] and d = data_partD[OF mvcc_invD(2)[OF inv]]
  let ?m = "m\<lparr>history := h\<rparr>"
  have logged: "hist_map h q = hist_map (history m) q" "mv_map ?m q = mv_map m q" if "L q \<noteq> None" for q
    using ch[of q] d(3)[OF that] by (auto simp: mv_map_if)
  have "gate_part ?m pend" using p(1) by (simp add: gate_part_def)
  moreover have "data_part ?m L pend"
  proof (rule data_partI)
    show "hist_map (history ?m) q = None \<or> hist_map (history ?m) q = L q
        \<or> writes_fenced (gate ?m) \<and> snd q \<le> version_counter (gate ?m) \<and> snd q \<notin> visible_set ?m \<union> pend" for q
      using d(6)[of q] ch[of q] f by auto
  qed (use d h in simp_all)
  moreover have "kept_part ?m L"
  proof (rule kept_partI)
    fix q assume q: "L q \<noteq> None" "\<not> superseded L (low ?m) q"
    then have q': "\<not> superseded L (low m) q" by simp
    show "mv_map ?m q \<noteq> None" using kept_partD(2)[OF p(3) q(1) q'] logged(2)[OF q(1)] by simp
    show "hist_map (history ?m) q \<noteq> None" if "snd q \<in> durable_set ?m"
      using kept_partD(1)[OF p(3) q(1) q'] logged(1)[OF q(1)] that by simp
  qed
  moreover have "cell_part ?m L" by (rule cell_mono[OF p(4)]) simp_all
  ultimately show ?thesis by (simp add: mvcc_inv_def)
qed

text \<open>Reclamation: only superseded versions leave the log, and only those or durable ones the overlay.\<close>

definition reclaims :: "vlog \<Rightarrow> 'e mvcc \<Rightarrow> 'e mvcc \<Rightarrow> bool" where
  "reclaims L m m' = (gate m' = gate m \<and> active_snapshots m' = active_snapshots m \<and> receipt_native m' = receipt_native m
    \<and> openings m' = openings m \<and> policy m' = policy m
    \<and> ti_ok (history m') \<and> ov_ok (voverlay m')
    \<and> (\<forall>p. hist_map (history m') p = hist_map (history m) p \<or> hist_map (history m') p = None \<and> superseded L (low m) p)
    \<and> (\<forall>p. ov_map (voverlay m') p = ov_map (voverlay m) p
        \<or> ov_map (voverlay m') p = None \<and> (superseded L (low m) p \<or> snd p \<in> durable_set m)))"

lemma reclaimsD:
  assumes "reclaims L m m'"
  shows "gate m' = gate m" "active_snapshots m' = active_snapshots m" "receipt_native m' = receipt_native m" "openings m' = openings m"
    "policy m' = policy m" "ti_ok (history m')" "ov_ok (voverlay m')" "low m' = low m"
    "hist_map (history m') p = hist_map (history m) p \<or> hist_map (history m') p = None \<and> superseded L (low m) p"
    "ov_map (voverlay m') p = ov_map (voverlay m) p
        \<or> ov_map (voverlay m') p = None \<and> (superseded L (low m) p \<or> snd p \<in> durable_set m)"
proof -
  show "low m' = low m" using assms by (simp add: reclaims_def low_def)
qed (use assms in \<open>unfold reclaims_def, blast+\<close>)

lemma reclaims_refl: "ti_ok (history m) \<Longrightarrow> ov_ok (voverlay m) \<Longrightarrow> reclaims L m m"
  by (simp add: reclaims_def)

lemma reclaims_trans:
  assumes a: "reclaims L m m'" and b: "reclaims L m' m''"
  shows "reclaims L m m''"
  unfolding reclaims_def
proof (intro conjI allI)
  show "hist_map (history m'') p = hist_map (history m) p \<or> hist_map (history m'') p = None \<and> superseded L (low m) p" for p
    using reclaimsD(9)[OF a, of p] reclaimsD(9)[OF b, of p] reclaimsD(8)[OF a] by auto
  show "ov_map (voverlay m'') p = ov_map (voverlay m) p
      \<or> ov_map (voverlay m'') p = None \<and> (superseded L (low m) p \<or> snd p \<in> durable_set m)" for p
    using reclaimsD(10)[OF a, of p] reclaimsD(10)[OF b, of p] reclaimsD(1,8)[OF a] by auto
qed (use reclaimsD(1-7)[OF a] reclaimsD(1-7)[OF b] in simp_all)

lemma inv_reclaims:
  assumes inv: "mvcc_inv m L pend" and r: "reclaims L m m'" and c: "cell_part m' L"
  shows "mvcc_inv m' L pend"
proof -
  note p = mvcc_invD[OF inv] and d = data_partD[OF mvcc_invD(2)[OF inv]] and r = reclaimsD[OF r]
  have "gate_part m' pend" using p(1) unfolding gate_part_def r(1-3) .
  moreover have "data_part m' L pend"
  proof (rule data_partI)
    show "ov_map (voverlay m') q = None \<or> ov_map (voverlay m') q = L q" for q using d(5)[of q] r(10)[of q] by auto
    show "hist_map (history m') q = None \<or> hist_map (history m') q = L q
        \<or> writes_fenced (gate m') \<and> snd q \<le> version_counter (gate m') \<and> snd q \<notin> visible_set m' \<union> pend" for q
      using d(6)[of q] r(9)[of q] unfolding r(1) by auto
  qed (use d(3,4) r(1,6,7) in simp_all)
  moreover have "kept_part m' L"
  proof (rule kept_partI; unfold r(8))
    fix q assume q: "L q \<noteq> None" "\<not> superseded L (low m) q"
    have h: "hist_map (history m') q = hist_map (history m) q" using r(9)[of q] q(2) by simp
    show "snd q \<in> durable_set m' \<Longrightarrow> hist_map (history m') q \<noteq> None" using kept_partD(1)[OF p(3) q] unfolding h r(1) by simp
    show "snd q \<notin> durable_set m' \<Longrightarrow> mv_map m' q \<noteq> None"
      using kept_partD(2)[OF p(3) q] r(10)[of q] q(2) unfolding mv_map_None h r(1) by auto
  qed
  ultimately show ?thesis using c by (simp add: mvcc_inv_def)
qed

text \<open>New versions enter the log under pending versions, held and covered by the cell of their key.\<close>

definition extends :: "'e mvcc \<Rightarrow> vlog \<Rightarrow> nat set \<Rightarrow> 'e mvcc \<Rightarrow> vlog \<Rightarrow> bool" where
  "extends m L pend m' L' = (L \<subseteq>\<^sub>m L' \<and> ti_ok (history m') \<and> ov_ok (voverlay m')
    \<and> (\<forall>p. L' p = L p \<or> L p = None \<and> snd p \<in> pend \<and> 0 < snd p \<and> mv_map m' p \<noteq> None
        \<and> current_version m (fst p) \<noteq> 0 \<and> snd p \<le> current_version m (fst p))
    \<and> (\<forall>p. hist_map (history m') p = hist_map (history m) p \<or> hist_map (history m') p = L' p \<and> L' p \<noteq> None)
    \<and> (\<forall>p. ov_map (voverlay m') p = ov_map (voverlay m) p \<or> ov_map (voverlay m') p = L' p \<and> L' p \<noteq> None))"

lemma extendsD:
  assumes "extends m L pend m' L'"
  shows "L \<subseteq>\<^sub>m L'" "ti_ok (history m')" "ov_ok (voverlay m')"
    "L' p = L p \<or> L p = None \<and> snd p \<in> pend \<and> 0 < snd p \<and> mv_map m' p \<noteq> None
        \<and> current_version m (fst p) \<noteq> 0 \<and> snd p \<le> current_version m (fst p)"
    "hist_map (history m') p = hist_map (history m) p \<or> hist_map (history m') p = L' p \<and> L' p \<noteq> None"
    "ov_map (voverlay m') p = ov_map (voverlay m) p \<or> ov_map (voverlay m') p = L' p \<and> L' p \<noteq> None"
  using assms unfolding extends_def by blast+

lemma map_leD: "L \<subseteq>\<^sub>m L' \<Longrightarrow> L p \<noteq> None \<Longrightarrow> L' p = L p"
  by (metis domIff map_le_def)

lemma inv_extends:
  assumes inv: "mvcc_inv m L pend" and e: "extends m L pend m' L'"
    and same: "gate m' = gate m" "cells m' = cells m" "active_snapshots m' = active_snapshots m" "receipt_native m' = receipt_native m"
  shows "mvcc_inv m' L' pend"
proof -
  note p = mvcc_invD[OF inv] and gd = gate_partD[OF mvcc_invD(1)[OF inv]] and d = data_partD[OF mvcc_invD(2)[OF inv]] and e = extendsD[OF e]
  have low: "low m' = low m" by (simp add: low_def same)
  have le: "L q \<noteq> None \<Longrightarrow> L' q = L q" for q using map_leD[OF e(1)] .
  have cur: "current_version m' k = current_version m k" for k by (simp add: current_version_def same)
  have sup: "superseded L b q \<Longrightarrow> superseded L' b q" for b q using superseded_mono[OF _ _ e(1)] by blast
  have "gate_part m' pend" using p(1) unfolding gate_part_def same .
  moreover have "data_part m' L' pend"
  proof (rule data_partI)
    show "L' q \<noteq> None \<Longrightarrow> snd q \<in> visible_set m' \<union> pend" "L' q \<noteq> None \<Longrightarrow> 0 < snd q" for q
      using e(4)[of q] d(3,4)[of q] by (auto simp: same)
    show "ov_map (voverlay m') q = None \<or> ov_map (voverlay m') q = L' q" for q using d(5)[of q] e(6)[of q] le[of q] by force
    show "hist_map (history m') q = None \<or> hist_map (history m') q = L' q
        \<or> writes_fenced (gate m') \<and> snd q \<le> version_counter (gate m') \<and> snd q \<notin> visible_set m' \<union> pend" for q
      using d(6)[of q] e(5)[of q] le[of q] unfolding same by force
  qed (rule e)+
  moreover have "kept_part m' L'"
  proof (rule kept_partI; unfold low)
    fix q assume q: "L' q \<noteq> None" "\<not> superseded L' (low m) q"
    then have q2: "\<not> superseded L (low m) q" using sup by blast
    have fresh: "snd q \<notin> durable_set m \<and> mv_map m' q \<noteq> None" if "L q = None" using e(4)[of q] q(1) that gd(4)[of "snd q"] gd(8) by auto
    show "snd q \<in> durable_set m' \<Longrightarrow> hist_map (history m') q \<noteq> None"
      using kept_partD(1)[OF p(3) _ q2] fresh e(5)[of q] unfolding same by (cases "L q = None") force+
    show "mv_map m' q \<noteq> None"
      using kept_partD(2)[OF p(3) _ q2] fresh e(5)[of q] e(6)[of q] unfolding mv_map_None by (cases "L q = None") force+
  qed
  moreover have "cell_part m' L'"
  proof (rule cell_partI)
    note c = cell_partD[OF p(4)]
    show "current_version m' k \<le> version_counter (gate m')" for k using c(1)[of k] by (simp add: same cur)
    show "L' (k, v) \<noteq> None \<Longrightarrow> current_version m' k = 0 \<Longrightarrow> v \<le> dmark m'" for k v using c(2)[of k v] e(4)[of "(k, v)"] by (auto simp: same cur)
    show "L' (k, v) \<noteq> None \<Longrightarrow> current_version m' k \<noteq> 0 \<Longrightarrow> v \<le> current_version m' k" for k v using c(3)[of k v] e(4)[of "(k, v)"] by (auto simp: cur)
    show "cells m' k = Some a \<Longrightarrow> 0 < vacuum_anchor a \<Longrightarrow> superseded L' (cversion a) (k, vacuum_anchor a)" for k a
      using c(4)[of k a] sup by (simp add: same)
  qed
  ultimately show ?thesis by (simp add: mvcc_inv_def)
qed

text \<open>Snapshots are opened at versions that can still be read, and closed.\<close>

lemma inv_snapshots:
  assumes inv: "mvcc_inv m L pend" and s: "set ss \<subseteq> set (active_snapshots m) \<union> {low m .. wmark m}"
  shows "mvcc_inv (m\<lparr>active_snapshots := ss\<rparr>) L pend"
proof -
  note p = mvcc_invD[OF inv] and gd = gate_partD[OF mvcc_invD(1)[OF inv]]
  let ?m = "m\<lparr>active_snapshots := ss\<rparr>"
  have low: "low m \<le> low ?m" by (rule low_mono) (use s in auto)
  have "gate_part ?m pend" using p(1) gd(7) s by (auto simp: gate_part_def)
  moreover have "data_part ?m L pend" by (rule data_cong[OF p(2)]) simp_all
  moreover have "kept_part ?m L"
  proof (rule kept_partI)
    fix q assume q: "L q \<noteq> None" "\<not> superseded L (low ?m) q"
    then have q': "\<not> superseded L (low m) q" using superseded_mono[of L "low m" q "low ?m" L] low by (auto simp: map_le_def)
    show "mv_map ?m q \<noteq> None" using kept_partD(2)[OF p(3) q(1) q'] by (simp add: mv_map_def)
    show "snd q \<in> durable_set ?m \<Longrightarrow> hist_map (history ?m) q \<noteq> None" using kept_partD(1)[OF p(3) q(1) q'] by simp
  qed
  moreover have "cell_part ?m L" by (rule cell_mono[OF p(4)]) simp_all
  ultimately show ?thesis by (simp add: mvcc_inv_def)
qed

end
