(* ===== verification/MvccKeep.thy ===== *)
theory MvccKeep
  imports MvccInv
begin

text \<open>
  Every operation of the versioned store keeps its invariant: the phases of a direct write and its compensation, the
  publication of a transaction, the drain, the vacuum of a key, collection and purge, and reads that seed a cell.
\<close>

section \<open>Gate\<close>

lemma inv_commit:
  assumes inv: "mvcc_inv m L pend" and v: "gversion gd \<in> pend"
  shows "mvcc_inv (m\<lparr>gate := guard_commit gd (gate m)\<rparr>) L (pend - {gversion gd})"
    and "settled (completion (guard_commit gd (gate m))) = insert (gversion gd) (visible_set m)"
proof -
  note gd = gate_partD[OF mvcc_invD(1)[OF inv]]
  have live: "tracker_live (completion (gate m))" using gd(1) by (simp add: track_inv_def)
  note mk = mark_live[OF live, of Materialized "gversion gd"]
  have c: "completion (guard_commit gd (gate m)) = mark (gversion gd) Materialized (completion (gate m))"
      "durable_completion (guard_commit gd (gate m)) = durable_completion (gate m)"
    by (simp_all add: gate_ops)
  show "settled (completion (guard_commit gd (gate m))) = insert (gversion gd) (visible_set m)" unfolding c using mk by simp
  have "track_inv (guard_commit gd (gate m))"
    by (rule track_inv_marks[OF gd(1), of Materialized, OF _ c(1)]) (simp_all add: c(2), simp add: gate_ops)
  then show "mvcc_inv (m\<lparr>gate := guard_commit gd (gate m)\<rparr>) L (pend - {gversion gd})"
    by (rule inv_settle[OF inv v]) (use mk in \<open>simp_all add: c, simp_all add: gate_ops\<close>)
qed

lemma inv_abort:
  assumes inv: "mvcc_inv m L pend" and v: "v \<in> pend" and none: "\<And>k. L (k, v) = None"
  shows "mvcc_inv (drop_guard (guard_new v) m) L (pend - {v})"
proof -
  note gd = gate_partD[OF mvcc_invD(1)[OF inv]]
  have live: "tracker_live (completion (gate m))" "tracker_live (durable_completion (gate m))" using gd(1) by (simp_all add: track_inv_def)
  note mk = mark_live[OF live(1), of Aborted v] and mk' = mark_live[OF live(2), of Aborted v]
  define g where "g = guard_drop (\<lambda>_. TPending) (guard_new v) (gate m)"
  have c: "completion g = mark v Aborted (completion (gate m))" "durable_completion g = mark v Aborted (durable_completion (gate m))"
      "version_counter g = version_counter (gate m)" "writes_fenced g = writes_fenced (gate m)"
    by (simp_all add: g_def guard_drop_def guard_new_def gate_ops)
  have "track_inv g" unfolding g_def using track_inv_drop[OF gd(1)] .
  then have "mvcc_inv (m\<lparr>gate := g\<rparr>) L (pend - {v})"
    by (rule inv_settle[OF inv v]) (use mk mk' none in \<open>auto simp: c\<close>)
  then show ?thesis by (simp add: drop_guard_def g_def)
qed

section \<open>Cells\<close>

lemma inv_publish:
  assumes inv: "mvcc_inv m L pend" and v: "v \<le> version_counter (gate m)" "0 < v"
    and cold: "\<And>w. current_version m k = 0 \<Longrightarrow> L (k, w) \<noteq> None \<Longrightarrow> w \<le> v"
  shows "mvcc_inv (publish_cell_sync k v m) L pend"
proof (cases "cells m k")
  case None
  have "mvcc_inv (m\<lparr>cells := (cells m)(k \<mapsto> \<lparr>cversion = v, vacuum_anchor = 0, reserved_by = 0\<rparr>)\<rparr>) L pend"
    by (rule inv_cell_upd[OF inv]) (use v cold None in \<open>auto simp: current_version_def\<close>)
  with None show ?thesis by (simp add: publish_cell_sync_def)
next
  case (Some c)
  note cp = cell_partD[OF mvcc_invD(4)[OF inv]]
  have cur: "current_version m k = cversion c" using Some by (simp add: current_version_def)
  have "mvcc_inv (m\<lparr>cells := (cells m)(k \<mapsto> c\<lparr>cversion := v\<rparr>)\<rparr>) L pend" if up: "cversion c < v"
  proof (rule inv_cell_upd[OF inv])
    fix w assume w: "L (k, w) \<noteq> None"
    have "w \<le> v" using cold[OF _ w] cp(3)[OF w] up cur by (cases "cversion c = 0") auto
    then show "if cversion (c\<lparr>cversion := v\<rparr>) = 0 then w \<le> dmark m else w \<le> cversion (c\<lparr>cversion := v\<rparr>)" using v(2) by simp
  next
    assume a: "0 < vacuum_anchor (c\<lparr>cversion := v\<rparr>)"
    then show "superseded L (cversion (c\<lparr>cversion := v\<rparr>)) (k, vacuum_anchor (c\<lparr>cversion := v\<rparr>))"
      using superseded_mono[OF cp(4)[OF Some], of v L] up by simp
  qed (use v in simp)
  with Some inv show ?thesis by (simp add: publish_cell_sync_def)
qed

lemma publish_frame [simp]:
  "gate (publish_cell_sync k v m) = gate m" "history (publish_cell_sync k v m) = history m" "voverlay (publish_cell_sync k v m) = voverlay m"
  "active_snapshots (publish_cell_sync k v m) = active_snapshots m" "receipt_native (publish_cell_sync k v m) = receipt_native m"
  "openings (publish_cell_sync k v m) = openings m" "policy (publish_cell_sync k v m) = policy m"
  by (simp_all add: publish_cell_sync_def split: option.split)

lemma publish_current: "current_version (publish_cell_sync k v m) j = (if j = k then max v (current_version m k) else current_version m j)"
  by (auto simp: publish_cell_sync_def current_version_def split: option.split)

lemma publish_anchor:
  "cells (publish_cell_sync k v m) j = Some c \<Longrightarrow> 0 < vacuum_anchor c \<Longrightarrow> \<exists>c'. cells m j = Some c' \<and> vacuum_anchor c' = vacuum_anchor c"
  by (auto simp: publish_cell_sync_def split: option.splits if_splits)

section \<open>Phases of a direct write\<close>

type_synonym 'e written = "'e version_guard \<times> bytes \<times> bytes \<times> nat"

definition wver :: "'e written \<Rightarrow> nat" where "wver w = gversion (fst w)"
definition wkey :: "'e written \<Rightarrow> bytes" where "wkey w = fst (snd w)"
definition wval :: "'e written \<Rightarrow> bytes" where "wval w = fst (snd (snd w))"
definition wold :: "'e written \<Rightarrow> nat" where "wold w = snd (snd (snd w))"

lemmas w_defs = wver_def wkey_def wval_def wold_def

text \<open>The order in which a later write of a key follows an earlier one.\<close>

definition follows :: "'e written \<Rightarrow> 'e written \<Rightarrow> bool" where
  "follows w w' = (wver w < wver w' \<and> (wkey w = wkey w' \<longrightarrow> wold w' \<noteq> 0 \<longrightarrow> wver w \<le> wold w'))"

text \<open>What holds of the versions just handed out.\<close>

definition begun :: "'e mvcc \<Rightarrow> (bytes \<times> bytes) list \<Rightarrow> 'e written list \<Rightarrow> 'e mvcc \<Rightarrow> bool" where
  "begun m items ws m1 = (map (\<lambda>w. (wkey w, wval w)) ws = items \<and> sorted_wrt follows ws
    \<and> (\<forall>w \<in> set ws. fst w = guard_new (wver w) \<and> version_counter (gate m) < wver w \<and> wver w \<le> version_counter (gate m1)
        \<and> wold w < wver w \<and> (wold w \<noteq> 0 \<longrightarrow> current_version m (wkey w) \<le> wold w))
    \<and> (\<forall>k. (\<exists>w \<in> set ws. wkey w = k \<and> wver w = current_version m1 k \<and> (\<forall>w' \<in> set ws. wkey w' = k \<longrightarrow> wver w' \<le> wver w))
        \<or> k \<notin> wkey ` set ws \<and> current_version m1 k = current_version m k)
    \<and> (\<forall>k c. cells m1 k = Some c \<longrightarrow> 0 < vacuum_anchor c \<longrightarrow> (\<exists>c'. cells m k = Some c' \<and> vacuum_anchor c' = vacuum_anchor c))
    \<and> version_counter (gate m1) = version_counter (gate m) + length items
    \<and> gate m1 = (gate m)\<lparr>version_counter := version_counter (gate m1)\<rparr> \<and> m1 = m\<lparr>gate := gate m1, cells := cells m1\<rparr>)"

lemma begunD:
  assumes "begun m items ws m1"
  shows "map (\<lambda>w. (wkey w, wval w)) ws = items" "sorted_wrt follows ws"
    "w \<in> set ws \<Longrightarrow> fst w = guard_new (wver w)" "w \<in> set ws \<Longrightarrow> version_counter (gate m) < wver w"
    "w \<in> set ws \<Longrightarrow> wver w \<le> version_counter (gate m1)" "w \<in> set ws \<Longrightarrow> wold w < wver w"
    "w \<in> set ws \<Longrightarrow> wold w \<noteq> 0 \<Longrightarrow> current_version m (wkey w) \<le> wold w"
    "(\<exists>w \<in> set ws. wkey w = k \<and> wver w = current_version m1 k \<and> (\<forall>w' \<in> set ws. wkey w' = k \<longrightarrow> wver w' \<le> wver w))
        \<or> k \<notin> wkey ` set ws \<and> current_version m1 k = current_version m k"
    "cells m1 k = Some c \<Longrightarrow> 0 < vacuum_anchor c \<Longrightarrow> \<exists>c'. cells m k = Some c' \<and> vacuum_anchor c' = vacuum_anchor c"
    "version_counter (gate m1) = version_counter (gate m) + length items"
    "gate m1 = (gate m)\<lparr>version_counter := version_counter (gate m1)\<rparr>" "m1 = m\<lparr>gate := gate m1, cells := cells m1\<rparr>"
  using assms unfolding begun_def by blast+

lemma begun_Cons:
  assumes b: "begun m0 items ws m1" and w: "wver w = version_counter (gate m) + 1" "fst w = guard_new (wver w)" "wkey w = key" "wval w = val"
      "wold w = 0 \<or> wold w = current_version m key"
    and m0: "m0 = publish_cell_sync key (wver w) (m\<lparr>gate := (gate m)\<lparr>version_counter := wver w\<rparr>\<rparr>)"
    and cv: "\<And>k. current_version m k \<le> version_counter (gate m)"
  shows "begun m ((key, val) # items) (w # ws) m1"
proof -
  note b = begunD[OF b]
  have cur: "current_version m0 k = (if k = key then wver w else current_version m k)" for k
    using cv[of key] w(1) by (auto simp: m0 publish_current)
  have vc: "version_counter (gate m0) = wver w" by (simp add: m0)
  have old: "wold w < wver w" using w(1,5) cv[of key] by auto
  have fol: "follows w w'" if "w' \<in> set ws" for w'
    using b(4)[OF that] b(7)[OF that] by (auto simp: follows_def vc cur w(3))
  have per: "fst x = guard_new (wver x) \<and> version_counter (gate m) < wver x \<and> wver x \<le> version_counter (gate m1)
      \<and> wold x < wver x \<and> (wold x \<noteq> 0 \<longrightarrow> current_version m (wkey x) \<le> wold x)" if x: "x \<in> set (w # ws)" for x
  proof (cases "x = w")
    case True
    then show ?thesis using w old b(10) vc by auto
  next
    case False
    with x have x: "x \<in> set ws" by simp
    have "current_version m (wkey x) \<le> current_version m0 (wkey x)" using cv[of "wkey x"] w(1) by (auto simp: cur)
    then show ?thesis using b(3-7)[OF x] w(1) vc by auto
  qed
  have top: "(\<exists>x \<in> set (w # ws). wkey x = k \<and> wver x = current_version m1 k \<and> (\<forall>w' \<in> set (w # ws). wkey w' = k \<longrightarrow> wver w' \<le> wver x))
      \<or> k \<notin> wkey ` set (w # ws) \<and> current_version m1 k = current_version m k" for k
    using b(8)[of k]
  proof
    assume "\<exists>x \<in> set ws. wkey x = k \<and> wver x = current_version m1 k \<and> (\<forall>w' \<in> set ws. wkey w' = k \<longrightarrow> wver w' \<le> wver x)"
    then obtain x where x: "x \<in> set ws" "wkey x = k" "wver x = current_version m1 k" "\<forall>w' \<in> set ws. wkey w' = k \<longrightarrow> wver w' \<le> wver x" by blast
    have "wver w \<le> wver x" using b(4)[OF x(1)] vc by simp
    with x show ?thesis by (intro disjI1 bexI[of _ x]) auto
  next
    assume r: "k \<notin> wkey ` set ws \<and> current_version m1 k = current_version m0 k"
    show ?thesis
    proof (cases "k = key")
      case True
      with r show ?thesis by (intro disjI1 bexI[of _ w]) (auto simp: cur w(3))
    next
      case False
      with r show ?thesis by (auto simp: cur w(3))
    qed
  qed
  have anchor: "\<exists>c'. cells m k = Some c' \<and> vacuum_anchor c' = vacuum_anchor c" if c: "cells m1 k = Some c" "0 < vacuum_anchor c" for k c
  proof -
    obtain c' where c': "cells m0 k = Some c'" "vacuum_anchor c' = vacuum_anchor c" using b(9)[OF c] by blast
    from publish_anchor[OF c'(1)[unfolded m0]] c'(2) c(2) show ?thesis by auto
  qed
  have gate: "gate m1 = (gate m)\<lparr>version_counter := version_counter (gate m1)\<rparr>" using b(11) by (simp add: m0)
  have "m0\<lparr>gate := G, cells := C\<rparr> = m\<lparr>gate := G, cells := C\<rparr>" for G C by (simp add: m0 publish_cell_sync_def split: option.split)
  then have frame: "m1 = m\<lparr>gate := gate m1, cells := cells m1\<rparr>" using b(12) by simp
  have list: "map (\<lambda>w. (wkey w, wval w)) (w # ws) = (key, val) # items" "sorted_wrt follows (w # ws)" using b(1,2) w(3,4) fol by simp_all
  have count: "version_counter (gate m1) = version_counter (gate m) + length ((key, val) # items)" using b(10) vc w(1) by simp
  show ?thesis unfolding begun_def
  proof (intro conjI)
    show "\<forall>x\<in>set (w # ws). fst x = guard_new (wver x) \<and> version_counter (gate m) < wver x \<and> wver x \<le> version_counter (gate m1)
        \<and> wold x < wver x \<and> (wold x \<noteq> 0 \<longrightarrow> current_version m (wkey x) \<le> wold x)"
      by (rule ballI, rule per)
    show "\<forall>k. (\<exists>x \<in> set (w # ws). wkey x = k \<and> wver x = current_version m1 k \<and> (\<forall>w' \<in> set (w # ws). wkey w' = k \<longrightarrow> wver w' \<le> wver x))
        \<or> k \<notin> wkey ` set (w # ws) \<and> current_version m1 k = current_version m k"
      by (rule allI, rule top)
    show "\<forall>k c. cells m1 k = Some c \<longrightarrow> 0 < vacuum_anchor c \<longrightarrow> (\<exists>c'. cells m k = Some c' \<and> vacuum_anchor c' = vacuum_anchor c)"
      by (intro allI impI, rule anchor)
  qed (fact list count gate frame)+
qed

lemma begin_writes_keeps:
  assumes "mvcc_inv m L pend" and "version_counter (gate m) + length items < U64_MAX" and "begin_writes fresh items m = (ws, m1)"
  shows "begun m items ws m1 \<and> mvcc_inv m1 L (pend \<union> wver ` set ws)"
  using assms
proof (induction fresh items m arbitrary: pend ws m1 rule: begin_writes.induct)
  case (1 fresh m)
  then show ?case by (simp add: begun_def)
next
  case (2 fresh key val items m)
  define v where "v = version_counter (gate m) + 1"
  define g where "g = (gate m)\<lparr>version_counter := v\<rparr>"
  define m0 where "m0 = publish_cell_sync key v (m\<lparr>gate := g\<rparr>)"
  obtain ws' m1' where rest: "begin_writes fresh items m0 = (ws', m1')" by (cases "begin_writes fresh items m0")
  define w where "w = (guard_new v :: 'a version_guard, key, val, if fresh then 0 else current_version m key)"
  have al: "assign_next_version_guarded (gate m) = (guard_new v, g)"
    by (simp add: assign_next_version_guarded_def assign_next_version_def v_def g_def Let_def)
  have gv: "gversion (guard_new v) = v" by (simp add: guard_new_def)
  have run: "ws = w # ws'" "m1 = m1'" using "2.prems"(3) rest by (simp_all add: al gv m0_def w_def Let_def)
  have inv0: "mvcc_inv (m\<lparr>gate := g\<rparr>) L (insert v pend)"
    by (rule inv_allocate[OF "2.prems"(1)]) (use "2.prems"(2) in \<open>simp_all add: v_def g_def\<close>)
  have cv: "current_version m k < v" for k using cell_partD(1)[OF mvcc_invD(4)[OF "2.prems"(1)], of k] by (simp add: v_def)
  have "mvcc_inv m0 L (insert v pend)" unfolding m0_def
  proof (rule inv_publish[OF inv0])
    show "L (key, u) \<noteq> None \<Longrightarrow> u \<le> v" for u using nothing_above(1)[OF "2.prems"(1), of u key]
      by (cases "version_counter (gate m) < u") (auto simp: v_def)
  qed (simp_all add: g_def v_def)
  moreover have "version_counter (gate m0) + length items < U64_MAX" using "2.prems"(2) by (simp add: m0_def g_def v_def)
  ultimately have ih: "begun m0 items ws' m1'" "mvcc_inv m1' L (insert v pend \<union> wver ` set ws')"
    using "2.IH"[OF refl al[symmetric] refl, unfolded gv, folded m0_def] rest by blast+
  have "begun m ((key, val) # items) (w # ws') m1'"
    by (rule begun_Cons[OF ih(1)])
      (use cv in \<open>simp_all add: w_def w_defs gv m0_def g_def v_def guard_new_def less_Suc_eq_le\<close>)
  then show ?case using ih(2) unfolding run by (simp add: w_def wver_def gv)
qed

definition wlog :: "'e written list \<Rightarrow> vlog" where
  "wlog ws = map_of (map (\<lambda>w. ((wkey w, wver w), wval w)) ws)"

lemma follows_distinct: "sorted_wrt follows ws \<Longrightarrow> distinct (map wver ws)"
  by (induction ws) (auto simp: follows_def)

lemma wlog_mem: "sorted_wrt follows ws \<Longrightarrow> w \<in> set ws \<Longrightarrow> wlog ws (wkey w, wver w) = Some (wval w)"
proof -
  assume s: "sorted_wrt follows ws" and w: "w \<in> set ws"
  have "distinct (map fst (map (\<lambda>w. ((wkey w, wver w), wval w)) ws))"
    using follows_distinct[OF s] by (auto simp: distinct_map inj_on_def comp_def)
  from map_of_is_SomeI[OF this] w show "wlog ws (wkey w, wver w) = Some (wval w)" by (force simp: wlog_def)
qed

lemma wlog_SomeD: "wlog ws p \<noteq> None \<Longrightarrow> \<exists>w \<in> set ws. p = (wkey w, wver w) \<and> wlog ws p = Some (wval w)"
  unfolding wlog_def by (cases "map_of (map (\<lambda>w. ((wkey w, wver w), wval w)) ws) p") (auto dest!: map_of_SomeD)

lemma log_ops_eq:
  "log_ops ts ws = concat (map (\<lambda>w. [KvSet (encode_version_key (wkey w) (wver w)) (wval w), KvSet (ts_key (wver w)) (ts_bytes ts)]) ws)"
  by (auto simp: log_ops_def w_defs intro!: arg_cong[where f = concat] map_cong)

lemma log_written:
  assumes h: "ti_ok h" and t: "history_transact io (log_ops ts ws) h = (r, h')" and s: "sorted_wrt follows ws"
    and b: "\<forall>w \<in> set ws. wver w \<le> U64_MAX"
  shows "ti_ok h'" and "hist_map h' p = hist_map h p \<or> wlog ws p \<noteq> None \<and> hist_map h' p = wlog ws p"
    and "r = Inr () \<Longrightarrow> w \<in> set ws \<Longrightarrow> hist_map h' (wkey w, wver w) = Some (wval w)"
proof -
  have shape: "(\<exists>k v x. op = KvSet (encode_version_key k v) x \<and> v \<le> U64_MAX \<and> wlog ws (k, v) = Some x) \<or> (\<exists>v x. op = KvSet (ts_key v) x)"
    if "op \<in> set (log_ops ts ws)" for op
    using that wlog_mem[OF s] b unfolding log_ops_eq by (auto; blast)
  note a = hist_after_sets[OF h t shape]
  show "ti_ok h'" "hist_map h' p = hist_map h p \<or> wlog ws p \<noteq> None \<and> hist_map h' p = wlog ws p" by (rule a; assumption)+
  show "r = Inr () \<Longrightarrow> w \<in> set ws \<Longrightarrow> hist_map h' (wkey w, wver w) = Some (wval w)"
    by (rule a(3)) (auto simp: log_ops_eq b)
qed

lemma begun_fresh:
  assumes "mvcc_inv m L pend" and "begun m items ws m1" and "w \<in> set ws"
  shows "L (k, wver w) = None" "hist_map (history m1) (k, wver w) = None" "ov_map (voverlay m1) (k, wver w) = None" "wver w \<notin> pend"
proof -
  note b = begunD[OF assms(2)]
  have same: "history m1 = history m" "voverlay m1 = voverlay m" by (subst b(12), simp)+
  show "L (k, wver w) = None" "hist_map (history m1) (k, wver w) = None" "ov_map (voverlay m1) (k, wver w) = None"
    using nothing_above[OF assms(1) b(4)[OF assms(3)]] by (simp_all add: same)
  show "wver w \<notin> pend" using gate_partD(3)[OF mvcc_invD(1)[OF assms(1)], of "wver w"] b(4)[OF assms(3)] by auto
qed

lemma begun_current:
  assumes "begun m items ws m1" and "w \<in> set ws"
  shows "wver w \<le> current_version m1 (wkey w)" "current_version m1 (wkey w) \<noteq> 0" "wlog ws (wkey w, current_version m1 (wkey w)) \<noteq> None"
proof -
  note b = begunD[OF assms(1)]
  have "wkey w \<in> wkey ` set ws" using assms(2) by simp
  then obtain x where x: "x \<in> set ws" "wkey x = wkey w" "wver x = current_version m1 (wkey w)" "wver w \<le> wver x"
    using b(8)[of "wkey w"] assms(2) by blast
  then show "wver w \<le> current_version m1 (wkey w)" "current_version m1 (wkey w) \<noteq> 0" using b(4)[OF assms(2)] by auto
  show "wlog ws (wkey w, current_version m1 (wkey w)) \<noteq> None" using wlog_mem[OF b(2) x(1)] x(2,3) by simp
qed

lemma inv_logged:
  assumes inv: "mvcc_inv m L pend" and b: "begun m items ws m1" and inv1: "mvcc_inv m1 L (pend \<union> wver ` set ws)"
    and t: "history_transact io (log_ops ts ws) (history m1) = (Inr (), h)"
  shows "mvcc_inv (m1\<lparr>history := h\<rparr>) (L ++ wlog ws) (pend \<union> wver ` set ws)"
proof (rule inv_extends[OF inv1])
  note bd = begunD[OF b] and d = data_partD[OF mvcc_invD(2)[OF inv1]]
  have max: "\<forall>w \<in> set ws. wver w \<le> U64_MAX" using bd(5) gate_partD(5)[OF mvcc_invD(1)[OF inv1]] by fastforce
  note lw = log_written[OF d(1) t bd(2) max]
  have new: "L p = None" if "wlog ws p \<noteq> None" for p using wlog_SomeD[OF that] begun_fresh(1)[OF inv b] by auto
  have le: "L \<subseteq>\<^sub>m L ++ wlog ws" by (metis domIff map_add_dom_app_simps(3) map_le_def new)
  let ?m = "m1\<lparr>history := h\<rparr>"
  show "extends m1 L (pend \<union> wver ` set ws) ?m (L ++ wlog ws)" unfolding extends_def
  proof (intro conjI allI)
    fix p
    show "(L ++ wlog ws) p = L p \<or> L p = None \<and> snd p \<in> pend \<union> wver ` set ws \<and> 0 < snd p \<and> mv_map ?m p \<noteq> None
        \<and> current_version m1 (fst p) \<noteq> 0 \<and> snd p \<le> current_version m1 (fst p)"
    proof (cases "wlog ws p")
      case (Some x)
      then obtain w where w: "w \<in> set ws" "p = (wkey w, wver w)" using wlog_SomeD[of ws p] by auto
      have "mv_map ?m p \<noteq> None" using lw(3)[OF refl w(1)] w(2) by (simp add: mv_map_None)
      then show ?thesis using w new[of p] Some begun_current(1,2)[OF b w(1)] bd(4)[OF w(1)] by auto
    qed (simp add: map_add_def)
    show "hist_map (history ?m) p = hist_map (history m1) p \<or> hist_map (history ?m) p = (L ++ wlog ws) p \<and> (L ++ wlog ws) p \<noteq> None"
      using lw(2)[of p] by (auto simp: map_add_def)
  qed (use le lw(1) d(2) in simp_all)
qed simp_all

text \<open>After the log: the overlay, the guards, the durable marks.\<close>

lemma inv_overlay_insert:
  assumes inv: "mvcc_inv m L pend" and x: "L (k, v) = Some x"
  shows "mvcc_inv (m\<lparr>voverlay := overlay_insert k v x (voverlay m)\<rparr>) L pend"
proof (rule inv_extends[OF inv])
  note d = data_partD[OF mvcc_invD(2)[OF inv]]
  show "extends m L pend (m\<lparr>voverlay := overlay_insert k v x (voverlay m)\<rparr>) L"
    unfolding extends_def using d(1,2) x by (auto simp: map_le_def)
qed simp_all

lemma inv_overlay_inserts:
  "mvcc_inv m L pend \<Longrightarrow> (\<And>w. w \<in> set ws \<Longrightarrow> L (wkey w, wver w) = Some (wval w)) \<Longrightarrow>
    mvcc_inv (m\<lparr>voverlay := fold (\<lambda>w. overlay_insert (wkey w) (wver w) (wval w)) ws (voverlay m)\<rparr>) L pend"
proof (induction ws arbitrary: m)
  case (Cons w ws)
  from Cons.IH[OF inv_overlay_insert[OF Cons.prems(1) Cons.prems(2)[of w]]] Cons.prems(2) show ?case by simp
qed simp

lemma inv_commits:
  assumes "mvcc_inv m L pend" and "distinct (map wver ws)" and "wver ` set ws \<subseteq> pend"
  shows "mvcc_inv (m\<lparr>gate := fold (\<lambda>w. guard_commit (fst w)) ws (gate m)\<rparr>) L (pend - wver ` set ws)
    \<and> settled (completion (fold (\<lambda>w. guard_commit (fst w)) ws (gate m))) = visible_set m \<union> wver ` set ws"
  using assms
proof (induction ws arbitrary: m pend)
  case (Cons w ws)
  have "wver w \<notin> wver ` set ws" using Cons.prems(2) by simp
  then have v: "wver w \<in> pend" and rest: "wver ` set ws \<subseteq> pend - {wver w}" using Cons.prems(3) by (simp, simp add: subset_Diff_insert)
  note c = inv_commit[OF Cons.prems(1), of "fst w", folded wver_def, OF v]
  have "pend - {wver w} - wver ` set ws = pend - wver ` set (w # ws)" by auto
  with Cons.IH[OF c(1) _ rest] Cons.prems(2) c(2) show ?case by simp
qed simp

lemma inv_durables:
  assumes "mvcc_inv m L pend" and "wver ` set ws \<subseteq> visible_set m"
    and "\<And>w k. w \<in> set ws \<Longrightarrow> L (k, wver w) \<noteq> None \<Longrightarrow> hist_map (history m) (k, wver w) \<noteq> None"
  shows "mvcc_inv (m\<lparr>gate := fold (\<lambda>w. mark_durable (wver w)) ws (gate m)\<rparr>) L pend"
  using assms
proof (induction ws arbitrary: m)
  case (Cons w ws)
  have "mvcc_inv (m\<lparr>gate := mark_durable (wver w) (gate m)\<rparr>) L pend"
    using Cons.prems(3)[of w] by (intro inv_durable[OF Cons.prems(1)]) (use Cons.prems(2) in auto)
  from Cons.IH[OF this] Cons.prems(2,3) show ?case by (simp add: mark_durable_def)
qed simp

lemma fold_set_field:
  "fold (\<lambda>x m. m\<lparr>voverlay := F x (voverlay m)\<rparr>) xs m = m\<lparr>voverlay := fold F xs (voverlay m)\<rparr>"
  "fold (\<lambda>x m. m\<lparr>gate := G x (gate m)\<rparr>) xs m = m\<lparr>gate := fold G xs (gate m)\<rparr>"
  "fold (\<lambda>x. ts_index_insert ts (T x)) xs m = m\<lparr>ts_index := fold (\<lambda>x. List.insert (ts, T x)) xs (ts_index m)\<rparr>"
  by (induction xs arbitrary: m) (simp_all add: ts_index_insert_def)

lemma finish_writes_eq:
  "\<exists>ti. finish_writes ts ws m = m\<lparr>ts_index := ti, voverlay := fold (\<lambda>w. overlay_insert (wkey w) (wver w) (wval w)) ws (voverlay m),
     gate := fold (\<lambda>w. mark_durable (wver w)) ws (fold (\<lambda>w. guard_commit (fst w)) ws (gate m))\<rparr>"
proof -
  have pat: "(\<lambda>(gd, key, val, _). ts_index_insert ts (gversion gd)) = (\<lambda>w. ts_index_insert ts (wver w))"
    "(\<lambda>(gd, key, val, _) m. m\<lparr>voverlay := overlay_insert key (gversion gd) val (voverlay m)\<rparr>)
      = (\<lambda>w m. m\<lparr>voverlay := overlay_insert (wkey w) (wver w) (wval w) (voverlay m)\<rparr>)"
    "(\<lambda>(gd, key, val, _) m. m\<lparr>gate := guard_commit gd (gate m)\<rparr>) = (\<lambda>w m. m\<lparr>gate := guard_commit (fst w) (gate m)\<rparr>)"
    "(\<lambda>(gd, key, val, _) m. m\<lparr>gate := mark_durable (gversion gd) (gate m)\<rparr>) = (\<lambda>w m. m\<lparr>gate := mark_durable (wver w) (gate m)\<rparr>)"
    by (auto simp: fun_eq_iff w_defs)
  show ?thesis
    unfolding finish_writes_def Let_def pat fold_set_field(3) fold_set_field(1)[of "\<lambda>w. overlay_insert (wkey w) (wver w) (wval w)"]
      fold_set_field(2)[of "\<lambda>w. guard_commit (fst w)"] fold_set_field(2)[of "\<lambda>w. mark_durable (wver w)"]
    by (intro exI) simp
qed

lemma finish_keeps:
  assumes inv: "mvcc_inv m L (pend \<union> wver ` set ws)" and d: "distinct (map wver ws)" and p: "pend \<inter> wver ` set ws = {}"
    and l: "\<And>w. w \<in> set ws \<Longrightarrow> L (wkey w, wver w) = Some (wval w)"
    and h: "\<And>w k. w \<in> set ws \<Longrightarrow> L (k, wver w) \<noteq> None \<Longrightarrow> hist_map (history m) (k, wver w) \<noteq> None"
  shows "mvcc_inv (finish_writes ts ws m) L pend"
proof -
  obtain ti where eq: "finish_writes ts ws m = m\<lparr>ts_index := ti, voverlay := fold (\<lambda>w. overlay_insert (wkey w) (wver w) (wval w)) ws (voverlay m),
     gate := fold (\<lambda>w. mark_durable (wver w)) ws (fold (\<lambda>w. guard_commit (fst w)) ws (gate m))\<rparr>"
    using finish_writes_eq[of ts ws m] by blast
  define m1 where "m1 = m\<lparr>voverlay := fold (\<lambda>w. overlay_insert (wkey w) (wver w) (wval w)) ws (voverlay m)\<rparr>"
  define m2 where "m2 = m1\<lparr>gate := fold (\<lambda>w. guard_commit (fst w)) ws (gate m1)\<rparr>"
  have "mvcc_inv m1 L (pend \<union> wver ` set ws)" unfolding m1_def by (rule inv_overlay_inserts[OF inv l])
  from inv_commits[OF this d] p have m2: "mvcc_inv m2 L pend" "visible_set m2 = visible_set m1 \<union> wver ` set ws"
    by (simp_all add: m2_def Un_Diff Diff_triv)
  have "mvcc_inv (m2\<lparr>gate := fold (\<lambda>w. mark_durable (wver w)) ws (gate m2)\<rparr>) L pend"
    by (rule inv_durables[OF m2(1)]) (use m2(2) h in \<open>auto simp: m2_def m1_def\<close>)
  then show ?thesis by (rule inv_frame) (simp_all add: eq m2_def m1_def)
qed

section \<open>Failed writes\<close>

lemma inv_aborts:
  assumes "mvcc_inv m L pend" and "distinct (map wver ws)" and "wver ` set ws \<subseteq> pend"
    and "\<And>w. w \<in> set ws \<Longrightarrow> fst w = guard_new (wver w) \<and> (\<forall>k. L (k, wver w) = None)"
  shows "mvcc_inv (fold drop_guard (map fst ws) m) L (pend - wver ` set ws)"
  using assms
proof (induction ws arbitrary: m pend)
  case (Cons w ws)
  have "wver w \<notin> wver ` set ws" using Cons.prems(2) by simp
  then have v: "wver w \<in> pend" and rest: "wver ` set ws \<subseteq> pend - {wver w}" using Cons.prems(3) by (simp, simp add: subset_Diff_insert)
  have gd: "fst w = guard_new (wver w)" "\<And>k. L (k, wver w) = None" using Cons.prems(4)[of w] by simp_all
  have "pend - {wver w} - wver ` set ws = pend - wver ` set (w # ws)" by auto
  with Cons.IH[OF inv_abort[OF Cons.prems(1) v gd(2), folded gd(1)] _ rest] Cons.prems(2,4) show ?case by simp
qed simp

lemma inv_same_hist:
  assumes inv: "mvcc_inv m L pend" and h: "ti_ok h" "\<And>p. hist_map h p = hist_map (history m) p"
  shows "mvcc_inv (m\<lparr>history := h\<rparr>) L pend"
proof (rule inv_reclaims[OF inv])
  show "reclaims L m (m\<lparr>history := h\<rparr>)" using data_partD(2)[OF mvcc_invD(2)[OF inv]] h by (simp add: reclaims_def)
  show "cell_part (m\<lparr>history := h\<rparr>) L" by (rule cell_mono[OF mvcc_invD(4)[OF inv]]) simp_all
qed

lemma comp_ops_eq:
  "concat (map (\<lambda>(gd, key). [KvRemove (encode_version_key key (gversion gd)), KvRemove (ts_key (gversion gd))]) (map (\<lambda>(gd, key, _, _). (gd, key)) ws))
    = concat (map (\<lambda>w. [KvRemove (encode_version_key (wkey w) (wver w)), KvRemove (ts_key (wver w))]) ws)"
  by (auto simp: w_defs intro!: arg_cong[where f = concat])

lemma compensate_keeps:
  assumes inv: "mvcc_inv m L pend" and b: "begun m items ws m1" and inv1: "mvcc_inv m1 L (pend \<union> wver ` set ws)"
    and t: "history_transact io (log_ops ts ws) (history m1) = (r, h)"
  shows "mvcc_inv (compensate_failed_write io' (map (\<lambda>(gd, key, _, _). (gd, key)) ws) (m1\<lparr>history := h\<rparr>)) L pend"
proof -
  note bd = begunD[OF b] and d = data_partD[OF mvcc_invD(2)[OF inv1]] and gp = gate_partD[OF mvcc_invD(1)[OF inv1]] and fresh = begun_fresh[OF inv b]
  have max: "\<forall>w \<in> set ws. wver w \<le> U64_MAX" using bd(5) gp(5) by fastforce
  note lw = log_written[OF d(1) t bd(2) max]
  define ops where "ops = concat (map (\<lambda>w. [KvRemove (encode_version_key (wkey w) (wver w)), KvRemove (ts_key (wver w))]) ws)"
  obtain r2 h2 where t2: "history_transact io' ops h = (r2, h2)" by (cases "history_transact io' ops h")
  have shape: "(\<exists>k v. op = KvRemove (encode_version_key k v) \<and> v \<le> U64_MAX \<and> wlog ws (k, v) \<noteq> None) \<or> (\<exists>v. op = KvRemove (ts_key v))"
    if "op \<in> set ops" for op using that wlog_mem[OF bd(2)] max unfolding ops_def by fastforce
  note rm = hist_after_removals[OF lw(1) t2, where R = "\<lambda>p. wlog ws p \<noteq> None", OF shape]
  have P: "(pend \<union> wver ` set ws) - wver ` set ws = pend" using fresh(4) by auto
  show ?thesis
  proof (cases r2)
    case (Inr u)
    have "hist_map h2 p = hist_map (history m1) p" for p
    proof (cases "wlog ws p")
      case None
      then show ?thesis using lw(2)[of p] rm(2)[of p] by auto
    next
      case (Some x)
      then obtain w where w: "w \<in> set ws" "p = (wkey w, wver w)" using wlog_SomeD[of ws p] by auto
      have "KvRemove (encode_version_key (wkey w) (wver w)) \<in> set ops" using w(1) by (auto simp: ops_def)
      then have "hist_map h2 p = None" using rm(3)[of "wkey w" "wver w"] Inr max w by auto
      with fresh(2)[OF w(1)] w(2) show ?thesis by simp
    qed
    then have "mvcc_inv (m1\<lparr>history := h2\<rparr>) L (pend \<union> wver ` set ws)" using inv_same_hist[OF inv1, of h2] rm(1) by blast
    from inv_aborts[OF this follows_distinct[OF bd(2)]] fresh(1) bd(3) P
    have "mvcc_inv (fold drop_guard (map fst ws) (m1\<lparr>history := h2\<rparr>)) L pend" by simp
    moreover have "map fst (map (\<lambda>(gd, key, _, _). (gd, key)) ws) = map fst ws" by auto
    ultimately show ?thesis unfolding compensate_failed_write_def Let_def comp_ops_eq ops_def[symmetric] using t2 Inr by (simp del: map_map)
  next
    case (Inl e)
    have "snd p \<notin> wver ` set ws" if "L p \<noteq> None" for p
    proof
      assume "snd p \<in> wver ` set ws"
      then obtain w where "w \<in> set ws" "snd p = wver w" by blast
      with fresh(1)[of w "fst p"] that show False by (metis prod.collapse)
    qed
    then have "mvcc_inv m1 L pend" using inv_forget[OF inv1, of "wver ` set ws"] unfolding P by blast
    then have fi: "mvcc_inv (m1\<lparr>gate := fence_writes (gate m1)\<rparr>) L pend" by (rule inv_gate_frame) (simp_all add: gate_ops)
    have "mvcc_inv (m1\<lparr>gate := fence_writes (gate m1)\<rparr>\<lparr>history := h2\<rparr>) L pend"
    proof (rule inv_stray[OF fi])
      fix p
      show "hist_map h2 p = hist_map (history (m1\<lparr>gate := fence_writes (gate m1)\<rparr>)) p
          \<or> snd p \<le> version_counter (gate (m1\<lparr>gate := fence_writes (gate m1)\<rparr>)) \<and> snd p \<notin> visible_set (m1\<lparr>gate := fence_writes (gate m1)\<rparr>) \<union> pend"
      proof (cases "wlog ws p")
        case None
        then show ?thesis using lw(2)[of p] rm(2)[of p] by auto
      next
        case (Some x)
        then obtain w where w: "w \<in> set ws" "p = (wkey w, wver w)" using wlog_SomeD[of ws p] by auto
        then show ?thesis using bd(5)[OF w(1)] fresh(4)[OF w(1)] gp(4)[of "wver w"] by (simp add: gate_ops)
      qed
    qed (use rm(1) in \<open>auto simp: gate_ops\<close>)
    then have "mvcc_inv (m1\<lparr>history := h2, gate := fence_writes (gate m1)\<rparr>) L pend" by (rule inv_frame) simp_all
    then show ?thesis unfolding compensate_failed_write_def Let_def comp_ops_eq ops_def[symmetric] using t2 Inl by simp
  qed
qed

end
