(* ===== verification/MvccReclaim.thy ===== *)
theory MvccReclaim
  imports MvccKeep
begin

text \<open>
  Vacuum of a key, collection and purge take away only versions that a later one supersedes for
  every reader, and keep the invariant of the versioned store.
\<close>

section \<open>Removing versions\<close>

lemma forget_frame [simp]:
  "gate (forget_version k r m) = gate m" "history (forget_version k r m) = history m" "cells (forget_version k r m) = cells m"
  "active_snapshots (forget_version k r m) = active_snapshots m" "receipt_native (forget_version k r m) = receipt_native m"
  "openings (forget_version k r m) = openings m" "policy (forget_version k r m) = policy m"
  by (auto simp: forget_version_def ts_index_remove_def Let_def split: option.split)

lemma forget_overlay:
  "voverlay (forget_version k r m) = (if fst r \<le> durable_watermark (gate m) then overlay_remove k (fst r) (voverlay m) else voverlay m)"
  by (auto simp: forget_version_def ts_index_remove_def Let_def split: option.split)

lemma reclaims_forget:
  assumes "reclaims L m m'"
  shows "reclaims L m (forget_version k r m')"
proof (rule reclaims_trans[OF assms])
  note r = reclaimsD[OF assms]
  have "v \<le> durable_watermark (gate m') \<Longrightarrow> v \<in> durable_set m'" for v by (simp add: durable_watermark_def settled_def)
  then show "reclaims L m' (forget_version k r m')"
    unfolding reclaims_def using r(6,7) by (auto simp: forget_overlay)
qed

lemma reclaims_forgets: "reclaims L m m' \<Longrightarrow> reclaims L m (fold (\<lambda>x. forget_version (K x) (R x)) xs m') \<and> cells (fold (\<lambda>x. forget_version (K x) (R x)) xs m') = cells m'"
  by (induction xs arbitrary: m') (simp_all add: reclaims_forget)

lemma reclaims_removals:
  assumes "ti_ok (history m)" and "ov_ok (voverlay m)" and t: "history_transact io ops (history m) = (r, h)"
    and ops: "\<And>op. op \<in> set ops \<Longrightarrow> (\<exists>k v. op = KvRemove (encode_version_key k v) \<and> v \<le> U64_MAX \<and> superseded L (low m) (k, v)) \<or> (\<exists>v. op = KvRemove (ts_key v))"
  shows "reclaims L m (m\<lparr>history := h\<rparr>)"
proof -
  note rm = hist_after_removals[OF assms(1) t, where R = "superseded L (low m)", OF ops]
  have "hist_map h p = hist_map (history m) p \<or> hist_map h p = None \<and> superseded L (low m) p" for p using rm(2)[of p] by auto
  with rm(1) assms(2) show ?thesis by (simp add: reclaims_def)
qed

text \<open>The last version of a key below the bound covers the older ones.\<close>

lemma low_logged:
  assumes inv: "mvcc_inv m L pend" and "v \<le> low m" and "hist_map (history m) (k, v) \<noteq> None"
  shows "L (k, v) \<noteq> None"
proof -
  have "v \<le> wmark m" using assms(2) low_le(1)[of m] by simp
  with data_partD(6)[OF mvcc_invD(2)[OF inv], of "(k, v)"] wmark_visible[OF mvcc_invD(1)[OF inv]] assms(3) show ?thesis by auto
qed

lemma hist_bound: "hist_map h (k, v) \<noteq> None \<Longrightarrow> v \<le> U64_MAX"
  by (simp add: hist_map_def split: if_splits)

section \<open>Vacuum of a key\<close>

text \<open>What a vacuum after a successful write may rely on.\<close>

definition vac_pre :: "'e mvcc \<Rightarrow> vlog \<Rightarrow> bytes \<Rightarrow> nat \<Rightarrow> bool" where
  "vac_pre m L k old_v = (L (k, current_version m k) \<noteq> None
    \<and> (old_v \<noteq> 0 \<longrightarrow> superseded L (current_version m k) (k, old_v)
      \<and> (\<forall>c. cells m k = Some c \<longrightarrow> 0 < vacuum_anchor c \<longrightarrow> superseded L old_v (k, vacuum_anchor c))))"

text \<open>Which anchors a vacuum leaves.\<close>

definition vac_post :: "'e mvcc \<Rightarrow> vlog \<Rightarrow> bytes \<Rightarrow> nat \<Rightarrow> 'e mvcc \<Rightarrow> bool" where
  "vac_post m L k old_v m' = (reclaims L m m' \<and> cell_part m' L \<and> current_version m' = current_version m
    \<and> (\<forall>j c. cells m' j = Some c \<longrightarrow> 0 < vacuum_anchor c \<longrightarrow> j = k \<and> vacuum_anchor c = old_v
        \<or> (\<exists>c'. cells m j = Some c' \<and> vacuum_anchor c' = vacuum_anchor c)))"

lemma vac_post_same:
  assumes "reclaims L m m'" and "cell_part m L" and "cells m' = cells m"
  shows "vac_post m L k old_v m'"
proof -
  have "current_version m' = current_version m" by (simp add: current_version_def assms(3) fun_eq_iff)
  moreover have "cell_part m' L" by (rule cell_mono[OF assms(2,3)]) (simp_all add: reclaimsD(1)[OF assms(1)])
  ultimately show ?thesis using assms(1,3) by (auto simp: vac_post_def)
qed

lemma swap_keeps:
  assumes c: "cell_part m L" and o: "superseded L (current_version m k) (k, old_v)"
    and s: "swap_vacuum_anchor k old_v m = (prev, m')" and ok: "ti_ok (history m)" "ov_ok (voverlay m)"
  shows "vac_post m L k old_v m'" and "prev = map_option vacuum_anchor (cells m k)" and "history m' = history m" "gate m' = gate m"
proof -
  show "prev = map_option vacuum_anchor (cells m k)" "history m' = history m" "gate m' = gate m"
    using s by (auto simp: swap_vacuum_anchor_def split: option.splits)
  have cur: "current_version m' = current_version m" using s by (auto simp: swap_vacuum_anchor_def current_version_def fun_eq_iff split: option.splits if_splits)
  have r: "reclaims L m m'" using s ok by (auto simp: swap_vacuum_anchor_def reclaims_def split: option.splits)
  have cells: "cells m' j = Some d \<Longrightarrow> j = k \<and> vacuum_anchor d = old_v \<and> cversion d = current_version m k \<or> cells m j = Some d" for j d
    using s by (auto simp: swap_vacuum_anchor_def current_version_def split: option.splits if_splits)
  have "cell_part m' L"
  proof (rule cell_partI)
    note cp = cell_partD[OF c]
    show "current_version m' j \<le> version_counter (gate m')" for j using cp(1) by (simp add: cur reclaimsD(1)[OF r])
    show "L (j, v) \<noteq> None \<Longrightarrow> current_version m' j = 0 \<Longrightarrow> v \<le> dmark m'" for j v using cp(2)[of j v] by (simp add: cur reclaimsD(1)[OF r])
    show "L (j, v) \<noteq> None \<Longrightarrow> current_version m' j \<noteq> 0 \<Longrightarrow> v \<le> current_version m' j" for j v using cp(3)[of j v] by (simp add: cur)
    show "cells m' j = Some d \<Longrightarrow> 0 < vacuum_anchor d \<Longrightarrow> superseded L (cversion d) (j, vacuum_anchor d)" for j d
      using cells[of j d] cp(4)[of j d] o by auto
  qed
  with cells r cur show "vac_post m L k old_v m'" unfolding vac_post_def by blast
qed

lemma vac_post_then:
  assumes a: "vac_post m L k old_v m'" and b: "reclaims L m' m''" and c: "cells m'' = cells m'"
  shows "vac_post m L k old_v m''"
proof -
  have "vac_post m' L k old_v m''" using vac_post_same[OF b _ c] a by (simp add: vac_post_def)
  with a c show ?thesis unfolding vac_post_def by (metis reclaims_trans[OF _ b])
qed

lemma deferred_keeps:
  assumes inv: "mvcc_inv m L pend" and pre: "vac_pre m L k old_v" and o: "old_v \<noteq> 0" and w: "old_v \<le> low m"
  shows "vac_post m L k old_v (snd (vacuum_deferred io k old_v m))"
proof -
  note d = data_partD[OF mvcc_invD(2)[OF inv]]
  obtain prev m1 where s: "swap_vacuum_anchor k old_v m = (prev, m1)" by (cases "swap_vacuum_anchor k old_v m")
  have sup: "superseded L (current_version m k) (k, old_v)" using pre o by (simp add: vac_pre_def)
  note sw = swap_keeps[OF mvcc_invD(4)[OF inv] sup s d(1,2)]
  have r1: "reclaims L m m1" using sw(1) by (simp add: vac_post_def)
  note r1d = reclaimsD[OF r1]
  show ?thesis
  proof (cases "\<exists>a. prev = Some a \<and> a \<noteq> old_v \<and> a > 0")
    case False
    then show ?thesis using sw(1) s by (auto simp: vacuum_deferred_def split: option.split)
  next
    case True
    then obtain a where a: "prev = Some a" "a \<noteq> old_v" "a > 0" by blast
    then obtain c where c: "cells m k = Some c" "vacuum_anchor c = a" using sw(2) by auto
    obtain r h where t: "history_transact io [KvRemove (encode_version_key k a), KvRemove (ts_key a)] (history m1) = (r, h)" by fastforce
    have asup: "superseded L old_v (k, a)" using pre o c a(3) by (simp add: vac_pre_def)
    have "a \<le> U64_MAX"
    proof -
      from asup obtain u where u: "a < u" "L (k, u) \<noteq> None" by (auto simp: superseded_def)
      then have "u \<le> version_counter (gate m)" using nothing_above(1)[OF inv, of u k] by (cases "version_counter (gate m) < u") auto
      with u gate_partD(5)[OF mvcc_invD(1)[OF inv]] show ?thesis by simp
    qed
    moreover have "superseded L (low m1) (k, a)" unfolding r1d(8) using superseded_mono[OF asup w] by (simp add: map_le_def)
    ultimately have rh: "reclaims L m1 (m1\<lparr>history := h\<rparr>)" using reclaims_removals[OF r1d(6,7) t, of L] by auto
    have fin: "reclaims L m1 (forget_version k (a, lookup_ts (history m1) a) (m1\<lparr>history := h\<rparr>))" by (rule reclaims_forget[OF rh])
    show ?thesis
    proof (cases r)
      case (Inl e)
      then show ?thesis using s a t vac_post_then[OF sw(1) rh] by (simp add: vacuum_deferred_def Let_def)
    next
      case (Inr u)
      then show ?thesis using s a t vac_post_then[OF sw(1) fin] by (simp add: vacuum_deferred_def Let_def)
    qed
  qed
qed

section \<open>The scan\<close>

lemma fold_max_start: "(v :: nat) \<le> fold max vs v"
proof (induction vs arbitrary: v)
  case (Cons w ws)
  from Cons[of "max w v"] show ?case by simp
qed simp

lemma fold_max_in: "fold max vs (v :: nat) \<in> insert v (set vs)"
  by (induction vs arbitrary: v) (force simp: max_def)+

lemma fold_max_top: "x \<in> insert v (set vs) \<Longrightarrow> x \<le> fold max vs (v :: nat)"
proof (induction vs arbitrary: v)
  case (Cons w ws)
  from Cons.IH[of "max w v"] fold_max_start[of "max w v" ws] Cons.prems show ?case by auto
qed simp

lemma vacuum_pick_Some:
  "vacuum_pick h cur_v mn mx age b anchor (i, v, p) = Some r \<Longrightarrow> v \<noteq> cur_v \<and> v < b \<and> anchor \<noteq> Some v \<and> fst r = v \<and> fst (snd r) = p"
  by (auto simp: vacuum_pick_def Let_def split: if_splits option.splits)

text \<open>A version the scan picks is superseded: by the anchor, or by the current version.\<close>

lemma picked_superseded:
  assumes inv: "mvcc_inv m L pend" and cur: "L (k, current_version m k) \<noteq> None"
    and found: "\<And>v p. (v, p) \<in> set entries \<longleftrightarrow> p = encode_version_key k v \<and> hist_map (history m) (k, v) \<noteq> None"
    and v: "(v, p) \<in> set entries" "v \<noteq> current_version m k" "v < min_alive m"
    and anchor: "vacuum_anchor_of live (current_version m k) (min_alive m) entries \<noteq> Some v"
  shows "superseded L (low m) (k, v)"
proof -
  have b: "min_alive m = low m" using v(3) by (simp add: min_alive_low split: if_splits)
  have hv: "hist_map (history m) (k, v) \<noteq> None" using v(1) found by simp
  have Lv: "L (k, v) \<noteq> None" using low_logged[OF inv _ hv] v(3) b by simp
  show ?thesis
  proof (cases "live \<or> current_version m k > min_alive m")
    case True
    define vs where "vs = filter (\<lambda>u. u < min_alive m) (map fst entries)"
    have vin: "v \<in> set vs" using v(1,3) by (force simp: vs_def)
    then obtain u us where us: "vs = u # us" by (cases vs) auto
    have A: "vacuum_anchor_of live (current_version m k) (min_alive m) entries = Some (fold max us u)"
      unfolding vacuum_anchor_of_def vs_def[symmetric] us using True by auto
    have "fold max us u \<in> set vs" using fold_max_in[of us u] us by simp
    then obtain q where q: "(fold max us u, q) \<in> set entries" "fold max us u < min_alive m" by (auto simp: vs_def)
    have "v \<le> fold max us u" using fold_max_top[of v u us] vin us by simp
    then have "v < fold max us u" using anchor A by (simp add: le_neq_implies_less)
    moreover have "L (k, fold max us u) \<noteq> None" using low_logged[OF inv, of "fold max us u" k] q found b by simp
    ultimately show ?thesis using q(2) b unfolding superseded_def by auto
  next
    case False
    have "current_version m k \<noteq> 0" using data_partD(4)[OF mvcc_invD(2)[OF inv] cur] by simp
    from cell_partD(3)[OF mvcc_invD(4)[OF inv] Lv this] v(2) have "v < current_version m k" by simp
    then show ?thesis using False cur b unfolding superseded_def by auto
  qed
qed

lemma set_newest_first [simp]: "set (newest_first es) = set es"
  by (simp add: newest_first_def)

lemma scan_keeps:
  assumes inv: "mvcc_inv m0 L pend" and cur: "L (k, current_version m0 k) \<noteq> None"
  shows "vac_post m0 L k old_v (snd (vacuum_scan wall io k m0))"
proof -
  define m where "m = (if \<not> active_snapshots_empty m0 then m0\<lparr>vacuum_needs_scan := True\<rparr> else m0)"
  have same: "history m = history m0" "voverlay m = voverlay m0" "gate m = gate m0" "cells m = cells m0" "active_snapshots m = active_snapshots m0"
      "receipt_native m = receipt_native m0" "openings m = openings m0" "policy m = policy m0"
    by (simp_all add: m_def)
  have im: "mvcc_inv m L pend" by (rule inv_frame[OF inv]) (simp_all add: same)
  have cv: "current_version m k = current_version m0 k" by (simp add: current_version_def same)
  have low: "low m = low m0" by (simp add: low_def same)
  note d = data_partD[OF mvcc_invD(2)[OF im]]
  obtain found where f: "scan_batches (collect_own k) (scan_prefix_stream (history m) (k @ [VERSION_SEP]) MAINT_SCAN_BATCH) [] = Inr found"
    and mem: "\<And>v p. (v, p) \<in> set found \<longleftrightarrow> p = encode_version_key k v \<and> hist_map (history m) (k, v) \<noteq> None"
    using vacuum_found[OF d(1)] by blast
  define anchor where "anchor = vacuum_anchor_of (\<not> active_snapshots_empty m) (current_version m k) (min_alive m) (newest_first found)"
  define pick where "pick = vacuum_pick (history m) (current_version m k) (case min_count (policy m0) of Some c \<Rightarrow> c | None \<Rightarrow> 0) (max_count (policy m0))
      (map_option (\<lambda>s. now_millis wall m - min U64_MAX (s * 1000)) (max_age_secs (policy m0))) (min_alive m) anchor"
  define picked where "picked = List.map_filter pick (enumerate 0 (newest_first found))"
  define ops where "ops = concat (map (\<lambda>(version, phys_key, _ :: nat option). [KvRemove phys_key, KvRemove (ts_key version)]) picked)"
  have sup: "superseded L (low m) (k, v) \<and> v \<le> U64_MAX \<and> p = encode_version_key k v" if "(v, p, ts) \<in> set picked" for v p ts
  proof -
    from that obtain i e where "(i, e) \<in> set (enumerate 0 (newest_first found))" "pick (i, e) = Some (v, p, ts)"
      by (force simp: picked_def List.map_filter_def)
    moreover then have "e \<in> set (newest_first found)" by (auto simp: in_set_enumerate_eq simp del: set_newest_first)
    moreover obtain v' p' where "e = (v', p')" by (cases e)
    ultimately have pk: "v \<noteq> current_version m k" "v < min_alive m" "anchor \<noteq> Some v" "(v, p) \<in> set (newest_first found)"
      using vacuum_pick_Some[of "history m" "current_version m k" _ _ _ "min_alive m" anchor i v' p' "(v, p, ts)"] by (auto simp: pick_def)
    show ?thesis
      using picked_superseded[OF im, of k "newest_first found" v p "\<not> active_snapshots_empty m"] pk cur cv mem hist_bound[of "history m" k v]
      by (auto simp: anchor_def)
  qed
  have ops: "(\<exists>k v. op = KvRemove (encode_version_key k v) \<and> v \<le> U64_MAX \<and> superseded L (low m) (k, v)) \<or> (\<exists>v. op = KvRemove (ts_key v))"
    if "op \<in> set ops" for op using that sup by (fastforce simp: ops_def)
  have r0: "reclaims L m0 m" using d(1,2) by (simp add: reclaims_def same)
  obtain r h where t: "(if ops \<noteq> [] then history_transact io ops (history m) else (Inr (), history m)) = (r, h)" by fastforce
  have rh: "reclaims L m (m\<lparr>history := h\<rparr>)"
  proof (cases "ops = []")
    case True
    then show ?thesis using t d(1,2) by (simp add: reclaims_def)
  next
    case False
    then show ?thesis using reclaims_removals[OF d(1,2), of io ops r h L] t ops by auto
  qed
  define m1 where "m1 = fold (forget_version k) (map (\<lambda>(version, _, ts). (version, ts)) picked) (m\<lparr>history := h\<rparr>)"
  have m1: "reclaims L m m1" "cells m1 = cells m"
    using reclaims_forgets[OF rh, of "\<lambda>_. k" "\<lambda>x. x" "map (\<lambda>(version, _, ts). (version, ts)) picked"] by (simp_all add: m1_def)
  have set_flag: "reclaims L m (m1\<lparr>vacuum_needs_scan := b\<rparr>)" for b using m1(1) by (simp add: reclaims_def)
  have eq: "snd (vacuum_scan wall io k m0) = (case r of Inl _ \<Rightarrow> m\<lparr>history := h\<rparr>
      | Inr _ \<Rightarrow> if active_snapshots_empty m0 \<and> current_version m k \<le> min_alive m \<and> version_counter (gate m1) \<le> watermark (completion (gate m1))
          then m1\<lparr>vacuum_needs_scan := False\<rparr> else m1)"
    unfolding vacuum_scan_def Let_def m_def[symmetric] f sum.case anchor_def[symmetric] pick_def[symmetric] picked_def[symmetric]
      ops_def[symmetric] t prod.case m1_def[symmetric] by (simp split: sum.split)
  have "vac_post m0 L k old_v m'" if "reclaims L m m'" "cells m' = cells m" for m'
    using vac_post_same[OF reclaims_trans[OF r0 that(1)] mvcc_invD(4)[OF inv]] that(2) by (simp add: same)
  then show ?thesis unfolding eq using rh m1 set_flag by (auto split: sum.split)
qed

lemma vac_post_flag: "vac_post (m\<lparr>vacuum_needs_scan := b\<rparr>) L k old_v m' = vac_post m L k old_v m'"
  by (simp add: vac_post_def reclaims_def low_def current_version_def fun_eq_iff)

lemma vac_pre_flag: "vac_pre (m\<lparr>vacuum_needs_scan := b\<rparr>) L k old_v = vac_pre m L k old_v"
  by (simp add: vac_pre_def current_version_def)

lemma vacuum_key_keeps:
  assumes inv: "mvcc_inv m0 L pend" and pre: "vac_pre m0 L k old_v"
  shows "vac_post m0 L k old_v (snd (vacuum_key wall io k old_v m0))"
proof -
  define m where "m = (if old_v > wmark m0 then m0\<lparr>vacuum_needs_scan := True\<rparr> else m0)"
  have im: "mvcc_inv m L pend" by (rule inv_frame[OF inv]) (simp_all add: m_def)
  have pm: "vac_pre m L k old_v" using pre by (simp add: m_def vac_pre_flag)
  have post: "vac_post m0 L k old_v = vac_post m L k old_v" by (auto simp: m_def vac_post_flag fun_eq_iff)
  note d = data_partD[OF mvcc_invD(2)[OF im]]
  have same: "active_snapshots_empty m = active_snapshots_empty m0" "wmark m = wmark m0" by (simp_all add: m_def active_snapshots_empty_def snapshots_opening_def)
  have idle: "vac_post m0 L k old_v m" unfolding post by (rule vac_post_same[OF reclaims_refl[OF d(1,2)] mvcc_invD(4)[OF im] refl])
  have low: "active_snapshots_empty m0 \<Longrightarrow> low m = wmark m0" using same by (simp add: active_snapshots_empty_def low_empty)
  have a: "old_v \<noteq> 0 \<Longrightarrow> active_snapshots_empty m0 \<Longrightarrow> old_v \<le> wmark m0 \<Longrightarrow> vac_post m0 L k old_v (snd (vacuum_deferred io k old_v m))"
    unfolding post using deferred_keeps[OF im pm] low by simp
  have b: "vac_post m0 L k old_v (snd (swap_vacuum_anchor k old_v m))" if "old_v \<noteq> 0"
    unfolding post using swap_keeps(1)[OF mvcc_invD(4)[OF im] _ _ d(1,2), of k old_v] pm that by (cases "swap_vacuum_anchor k old_v m") (simp add: vac_pre_def)
  have c: "vac_post m0 L k old_v (snd (vacuum_scan wall io k m))" unfolding post using scan_keeps[OF im] pm by (simp add: vac_pre_def)
  have start: "vac_post m0 L k old_v m0"
    using vac_post_same[OF reclaims_refl mvcc_invD(4)[OF inv] refl] data_partD(1,2)[OF mvcc_invD(2)[OF inv]] by blast
  show ?thesis unfolding vacuum_key_def Let_def m_def[symmetric] using a b c idle start by (cases "old_v = 0") auto
qed

lemma inv_vac_post: "mvcc_inv m L pend \<Longrightarrow> vac_post m L k old_v m' \<Longrightarrow> mvcc_inv m' L pend"
  using inv_reclaims unfolding vac_post_def by blast

definition vac_order :: "vlog \<Rightarrow> bytes \<times> nat \<Rightarrow> bytes \<times> nat \<Rightarrow> bool" where
  "vac_order L a b = (fst a = fst b \<longrightarrow> snd b \<noteq> 0 \<longrightarrow> superseded L (snd b) a)"

lemma vac_pre_next:
  assumes "vac_post m L k old_v m'" and "vac_pre m L j o'" and "vac_order L (k, old_v) (j, o')"
  shows "vac_pre m' L j o'"
  using assms unfolding vac_pre_def vac_post_def vac_order_def by (metis fst_conv snd_conv)

lemma vacuum_writes_keeps:
  assumes "mvcc_inv m L pend" and "\<And>k o'. (k, o') \<in> set kos \<Longrightarrow> vac_pre m L k o'" and "sorted_wrt (vac_order L) kos"
  shows "mvcc_inv (vacuum_writes wall io kos i m) L pend \<and> gate (vacuum_writes wall io kos i m) = gate m
    \<and> active_snapshots (vacuum_writes wall io kos i m) = active_snapshots m"
  using assms
proof (induction kos arbitrary: i m)
  case (Cons ko kos)
  obtain k old_v where ko: "ko = (k, old_v)" by (cases ko)
  obtain r m1 where run: "vacuum_key wall (io i) k old_v m = (r, m1)" by (cases "vacuum_key wall (io i) k old_v m")
  have post: "vac_post m L k old_v m1" using vacuum_key_keeps[OF Cons.prems(1) Cons.prems(2)[of k old_v], of wall "io i"] ko run by simp
  define m2 where "m2 = (case r of Inl _ \<Rightarrow> m1\<lparr>vacuum_needs_scan := True\<rparr> | Inr _ \<Rightarrow> m1)"
  have i1: "mvcc_inv m1 L pend" by (rule inv_vac_post[OF Cons.prems(1) post])
  then have "mvcc_inv m2 L pend" by (rule inv_frame) (simp_all add: m2_def split: sum.split)
  moreover have "vac_pre m2 L j o'" if "(j, o') \<in> set kos" for j o'
  proof -
    have "vac_pre m1 L j o'" using vac_pre_next[OF post Cons.prems(2)[of j o']] Cons.prems(3) that ko by auto
    then show ?thesis by (simp add: m2_def vac_pre_flag split: sum.split)
  qed
  ultimately have "mvcc_inv (vacuum_writes wall io kos (i + 1) m2) L pend \<and> gate (vacuum_writes wall io kos (i + 1) m2) = gate m2
      \<and> active_snapshots (vacuum_writes wall io kos (i + 1) m2) = active_snapshots m2"
    using Cons.IH[of m2 "i + 1"] Cons.prems(3) by simp
  moreover have "gate m2 = gate m" "active_snapshots m2 = active_snapshots m"
    using post reclaimsD(1,2)[of L m m1] by (simp_all add: m2_def vac_post_def split: sum.split)
  moreover have "vacuum_writes wall io (ko # kos) i m = vacuum_writes wall io kos (i + 1) m2" by (simp add: ko run m2_def split: sum.split)
  ultimately show ?case by simp
qed simp

section \<open>Collection and purge\<close>

lemma newest_below_own:
  "newest_below b e N k = (case own_entry k (fst e) of
     Some v \<Rightarrow> if v < b then Some (case N k of Some c \<Rightarrow> max c v | None \<Rightarrow> v) else N k | None \<Rightarrow> N k)"
  by (auto simp: newest_below_def own_entry_def split: option.splits)

lemma fold_newest_below:
  "case fold (newest_below b) es Map.empty k of
     None \<Rightarrow> \<forall>v < b. Some v \<notin> own_entry k ` fst ` set es
   | Some a \<Rightarrow> a < b \<and> Some a \<in> own_entry k ` fst ` set es \<and> (\<forall>v < b. Some v \<in> own_entry k ` fst ` set es \<longrightarrow> v \<le> a)"
proof (induction es rule: rev_induct)
  case (snoc e es)
  define S where "S = own_entry k ` fst ` set es"
  define N where "N = fold (newest_below b) es Map.empty"
  have fd: "fold (newest_below b) (es @ [e]) Map.empty k = newest_below b e N k" and img: "own_entry k ` fst ` set (es @ [e]) = insert (own_entry k (fst e)) S"
    by (simp_all add: N_def S_def)
  from snoc show ?case unfolding fd img unfolding S_def[symmetric] N_def[symmetric] unfolding newest_below_own[of b e N k]
    by (cases "own_entry k (fst e)"; cases "N k") (auto simp: max_def)
qed simp

lemma decode_own: "decode_version_key p = Some (k, v) \<longleftrightarrow> own_entry k p = Some v"
  by (auto simp: own_entry_def split: option.splits)

text \<open>A version below the bound that is not the newest one there is superseded.\<close>

lemma swept_superseded:
  assumes inv: "mvcc_inv m L pend" and b: "b \<le> low m" and e: "e \<in> set (history m)" "decode_version_key (fst e) = Some (k, v)" "v < b"
    and n: "fold (newest_below b) (history m) Map.empty k \<noteq> Some v"
  shows "superseded L (low m) (k, v)"
proof -
  have ti: "ti_ok (history m)" using data_partD(1)[OF mvcc_invD(2)[OF inv]] .
  have "Some v \<in> own_entry k ` fst ` set (history m)" using e(1,2) unfolding decode_own by force
  then obtain a where a: "fold (newest_below b) (history m) Map.empty k = Some a" "a < b" "Some a \<in> own_entry k ` fst ` set (history m)" "v \<le> a"
    using fold_newest_below[where b = b and es = "history m" and k = k] e(3) by (cases "fold (newest_below b) (history m) Map.empty k") auto
  have "hist_map (history m) (k, a) \<noteq> None" using a(3) own_entries_mem[OF ti] by blast
  then have "L (k, a) \<noteq> None" using low_logged[OF inv, of a k] a(2) b by simp
  moreover have "v < a" using a(1,4) n by (simp add: le_neq_implies_less)
  ultimately show ?thesis using a(2) b unfolding superseded_def by auto
qed

definition sweep_ok :: "vlog \<Rightarrow> 'e mvcc \<Rightarrow> 'e sweep \<Rightarrow> bool" where
  "sweep_ok L m sw = (reclaims L m (sw_store sw) \<and> cells (sw_store sw) = cells m
    \<and> (\<forall>(k, v, ts) \<in> set (sw_waiting sw). v \<le> U64_MAX \<and> superseded L (low m) (k, v)))"

lemma flush_keeps:
  assumes ok: "sweep_ok L m sw"
  shows "sweep_ok L m (snd (flush_history_reclaims io sw))"
proof (cases "sw_waiting sw = []")
  case True
  with ok show ?thesis by (simp add: flush_history_reclaims_def)
next
  case False
  have r: "reclaims L m (sw_store sw)" and c: "cells (sw_store sw) = cells m"
    and wt: "\<And>k v ts. (k, v, ts) \<in> set (sw_waiting sw) \<Longrightarrow> v \<le> U64_MAX \<and> superseded L (low m) (k, v)"
    using ok by (auto simp: sweep_ok_def)
  note rd = reclaimsD[OF r]
  define ops where "ops = concat (map (\<lambda>(k, v, _ :: nat option). [KvRemove (encode_version_key k v), KvRemove (ts_key v)]) (sw_waiting sw))"
  obtain x h where t: "history_transact (io (sw_flushes sw)) ops (history (sw_store sw)) = (x, h)" by fastforce
  have "(\<exists>k v. op = KvRemove (encode_version_key k v) \<and> v \<le> U64_MAX \<and> superseded L (low (sw_store sw)) (k, v)) \<or> (\<exists>v. op = KvRemove (ts_key v))"
    if "op \<in> set ops" for op using that wt unfolding ops_def rd(8) by fastforce
  from reclaims_removals[OF rd(6,7) t this] have rh: "reclaims L m ((sw_store sw)\<lparr>history := h\<rparr>)" using reclaims_trans[OF r] by blast
  have pat: "(\<lambda>(k, v, ts). forget_version k (v, ts)) = (\<lambda>e. forget_version (fst e) (snd e))" by (auto simp: fun_eq_iff)
  note fs = reclaims_forgets[OF rh, of fst snd "sw_waiting sw"]
  show ?thesis
    unfolding flush_history_reclaims_def Let_def ops_def[symmetric] t prod.case pat
    using False rh fs c wt by (auto simp: sweep_ok_def split: sum.split)
qed

lemma sweep_loop_keeps:
  assumes "sweep_ok L m sw"
    and "\<And>m' e k v ts. \<lbrakk>e \<in> set es; cells m' = cells m; decode_version_key (fst e) = Some (k, v); pick m' (k, v) = Some ts\<rbrakk> \<Longrightarrow> superseded L (low m) (k, v)"
  shows "sweep_ok L m (snd (sweep_loop io pick es sw))"
  using assms
proof (induction es arbitrary: sw)
  case Nil
  then show ?case by (simp add: flush_keeps)
next
  case (Cons e es)
  note hyp = Cons.prems(2)
  have rest: "superseded L (low m) (k, v)"
    if "e' \<in> set es" "cells m' = cells m" "decode_version_key (fst e') = Some (k, v)" "pick m' (k, v) = Some ts" for m' e' k v ts
    using hyp[of e' m' k v ts] that by simp
  have ih: "sweep_ok L m (snd (sweep_loop io pick es sw'))" if "sweep_ok L m sw'" for sw'
    using Cons.IH[OF that] rest by blast
  show ?case
  proof (cases "\<exists>k v ts. decode_version_key (fst e) = Some (k, v) \<and> pick (sw_store sw) (k, v) = Some ts")
    case False
    then show ?thesis using ih[OF Cons.prems(1)] by (auto split: option.split prod.split)
  next
    case True
    then obtain k v ts where e: "decode_version_key (fst e) = Some (k, v)" "pick (sw_store sw) (k, v) = Some ts" by blast
    define sw1 where "sw1 = sw\<lparr>sw_waiting := sw_waiting sw @ [(k, v, ts)]\<rparr>"
    have "superseded L (low m) (k, v)" using hyp[of e "sw_store sw" k v ts] e Cons.prems(1) by (simp add: sweep_ok_def)
    moreover have "v \<le> U64_MAX" using e(1) by (simp add: decode_own own_entry_Some)
    ultimately have ok1: "sweep_ok L m sw1" using Cons.prems(1) by (auto simp: sweep_ok_def sw1_def)
    obtain r sw2 where fl: "flush_history_reclaims io sw1 = (r, sw2)" by fastforce
    have ok2: "sweep_ok L m sw2" using flush_keeps[OF ok1, of io] fl by simp
    have run: "sweep_loop io pick (e # es) sw = (if length (sw_waiting sw1) = MAINT_SCAN_BATCH
        then (case r of Inl err \<Rightarrow> (Inl err, sw2) | Inr _ \<Rightarrow> sweep_loop io pick es sw2) else sweep_loop io pick es sw1)"
      unfolding sweep_loop.simps e option.case prod.case Let_def sw1_def[symmetric] fl by simp
    show ?thesis unfolding run using ih[OF ok1] ih[OF ok2] ok2 by (simp split: sum.split)
  qed
qed

lemma scan_all: "ti_ok h \<Longrightarrow> scan_batches f (iter_stream MAINT_SCAN_BATCH h) acc = Inr (fold f h acc)"
  by (simp add: iter_stream_eq scan_batches_fold)

lemma fold_snoc: "fold (\<lambda>e es. es @ [e]) xs acc = acc @ xs"
  by (induction xs arbitrary: acc) simp_all

lemma sweep_keeps:
  assumes inv: "mvcc_inv m L pend" and b: "b \<le> low m"
    and pick: "\<And>N m' k v ts. pick N m' (k, v) = Some ts \<Longrightarrow> v < b \<and> N k \<noteq> Some v"
  shows "reclaims L m (snd (sweep io b pick m)) \<and> cells (snd (sweep io b pick m)) = cells m"
proof -
  note d = data_partD[OF mvcc_invD(2)[OF inv]]
  define N where "N = fold (newest_below b) (history m) Map.empty"
  define sw where "sw = \<lparr>sw_store = m, sw_waiting = [] :: (bytes \<times> nat \<times> nat option) list, sw_deleted = 0, sw_flushes = 0\<rparr>"
  have "sweep_ok L m sw" using reclaims_refl[OF d(1,2)] by (simp add: sweep_ok_def sw_def)
  moreover have "superseded L (low m) (k, v)"
    if "e \<in> set (history m)" "decode_version_key (fst e) = Some (k, v)" "pick N m' (k, v) = Some ts" for m' e k v ts
    using swept_superseded[OF inv b that(1,2)] pick[OF that(3)] by (simp add: N_def)
  ultimately have "sweep_ok L m (snd (sweep_loop io (pick N) (history m) sw))" using sweep_loop_keeps[of L m sw "history m" "pick N" io] by blast
  moreover have "snd (sweep io b pick m) = sw_store (snd (sweep_loop io (pick N) (history m) sw))"
    unfolding sweep_def scan_all[OF d(1)] sum.case fold_snoc append_Nil N_def[symmetric] sw_def[symmetric]
    by (simp split: prod.split sum.split)
  ultimately show ?thesis by (simp add: sweep_ok_def)
qed

lemma inv_same_cells: "mvcc_inv m L pend \<Longrightarrow> reclaims L m m' \<Longrightarrow> cells m' = cells m \<Longrightarrow> mvcc_inv m' L pend"
  using inv_reclaims[of m L pend m'] cell_mono[OF mvcc_invD(4), of m L pend m'] reclaimsD(1)[of L m m'] by simp

lemma purge_keeps:
  assumes inv: "mvcc_inv m L pend"
  shows "mvcc_inv (snd (purge_below_ts io cutoff m)) L pend" "reclaims L m (snd (purge_below_ts io cutoff m))"
proof -
  have "min_alive m \<le> low m" by (simp add: min_alive_low)
  note s = sweep_keeps[OF inv this, of "purge_pick (min_alive m) cutoff" io]
  have r: "reclaims L m (snd (purge_below_ts io cutoff m)) \<and> cells (snd (purge_below_ts io cutoff m)) = cells m"
    unfolding purge_below_ts_def Let_def by (rule s) (auto simp: purge_pick_def Let_def split: if_splits)
  then show "mvcc_inv (snd (purge_below_ts io cutoff m)) L pend" "reclaims L m (snd (purge_below_ts io cutoff m))"
    using inv_same_cells[OF inv] by blast+
qed

text \<open>Collection also drops cells; their keys must have been drained.\<close>

lemma prune_keeps:
  assumes inv: "mvcc_inv m L pend" and drained: "min_alive m \<le> durable_watermark (gate m) + 1"
  shows "mvcc_inv (prune_version_cache m) L pend"
proof -
  note c = cell_partD[OF mvcc_invD(4)[OF inv]]
  define C where "C = (\<lambda>key. case cells m key of Some c \<Rightarrow> if cversion c \<ge> min_alive m \<or> reserved_by c \<noteq> 0 then Some c else None | None \<Rightarrow> None)"
  let ?m = "m\<lparr>cells := C\<rparr>"
  have same: "C k = cells m k \<or> C k = None \<and> current_version m k < min_alive m" for k
    by (auto simp: C_def current_version_def split: option.split)
  have cur: "current_version ?m k = current_version m k \<or> current_version ?m k = 0 \<and> current_version m k < min_alive m" for k
    using same[of k] by (auto simp: current_version_def)
  have "cell_part ?m L"
  proof (rule cell_partI)
    show "current_version ?m k \<le> version_counter (gate ?m)" for k using cur[of k] c(1)[of k] by auto
    show "v \<le> dmark ?m" if v: "L (k, v) \<noteq> None" "current_version ?m k = 0" for k v
    proof (cases "current_version m k = 0")
      case False
      then have "v < min_alive m" using cur[of k] v(2) c(3)[OF v(1)] by simp
      then show ?thesis using drained by (simp add: durable_watermark_def)
    qed (use c(2)[OF v(1)] in simp)
    show "L (k, v) \<noteq> None \<Longrightarrow> current_version ?m k \<noteq> 0 \<Longrightarrow> v \<le> current_version ?m k" for k v using cur[of k] c(3)[of k v] by auto
    show "cells ?m k = Some d \<Longrightarrow> 0 < vacuum_anchor d \<Longrightarrow> superseded L (cversion d) (k, vacuum_anchor d)" for k d using same[of k] c(4)[of k d] by auto
  qed
  from inv_cells[OF inv this] show ?thesis by (simp add: prune_version_cache_def C_def)
qed

lemma gc_keeps:
  assumes inv: "mvcc_inv m L pend" and b: "b \<le> min_alive m" and drained: "min_alive m \<le> durable_watermark (gate m) + 1"
  shows "mvcc_inv (snd (gc_below io b m)) L pend"
proof -
  have "b \<le> low m" using b by (simp add: min_alive_low split: if_splits)
  then have r: "reclaims L m (snd (sweep io b (gc_pick b) m)) \<and> cells (snd (sweep io b (gc_pick b) m)) = cells m"
    by (rule sweep_keeps[OF inv]) (auto simp: gc_pick_def Let_def split: if_splits)
  obtain x m1 where run: "sweep io b (gc_pick b) m = (x, m1)" by fastforce
  have i1: "mvcc_inv m1 L pend" using inv_same_cells[OF inv] r run by simp
  have "min_alive m1 = min_alive m" "gate m1 = gate m" using reclaimsD[of L m m1] r run by (simp_all add: min_alive_low)
  with prune_keeps[OF i1] drained i1 run show ?thesis by (simp add: gc_below_def split: sum.split)
qed

end
