(* ===== verification/MvccPublish.thy ===== *)
theory MvccPublish
  imports MvccReclaim
begin

text \<open>
  Whole operations of the versioned store: direct writes, the publication of a transaction, the drain
  of the overlay into the log, and reads that seed a cold cell.
\<close>

section \<open>Direct writes\<close>

text \<open>What a direct write adds to the log of committed versions.\<close>

definition logged :: "bool \<Rightarrow> 'e write_io \<Rightarrow> (bytes \<times> bytes) list \<Rightarrow> 'e mvcc \<Rightarrow> vlog \<Rightarrow> vlog" where
  "logged fresh io items m L = (case w_log io of TxnOk \<Rightarrow> L ++ wlog (fst (begin_writes fresh items m)) | TxnFails _ _ \<Rightarrow> L)"

lemma transact_result:
  assumes "ti_ok h"
  shows "fst (history_transact io ops h) = (case io of TxnOk \<Rightarrow> Inr () | TxnFails _ e \<Rightarrow> Inl e)"
proof (cases io)
  case TxnOk
  show ?thesis unfolding TxnOk history_transact_def txn_outcome.case by (rule transact_mem[OF assms, THEN conjunct1])
next
  case (TxnFails n e)
  show ?thesis unfolding TxnFails history_transact_def txn_outcome.case fst_conv ..
qed

lemma write_vacuum_ready:
  assumes inv: "mvcc_inv m L pend" and b: "begun m items ws m1" and m2: "cells m2 = cells m1"
  shows "(k, o') \<in> set (map (\<lambda>w. (wkey w, wold w)) ws) \<Longrightarrow> vac_pre m2 (L ++ wlog ws) k o'"
    and "sorted_wrt (vac_order (L ++ wlog ws)) (map (\<lambda>w. (wkey w, wold w)) ws)"
proof -
  note bd = begunD[OF b]
  have new: "L p = None" if "wlog ws p \<noteq> None" for p using wlog_SomeD[OF that] begun_fresh(1)[OF inv b] by auto
  have le: "L \<subseteq>\<^sub>m L ++ wlog ws" by (metis domIff map_add_dom_app_simps(3) map_le_def new)
  have own: "(L ++ wlog ws) (wkey w, wver w) \<noteq> None" if "w \<in> set ws" for w using wlog_mem[OF bd(2) that] by (simp add: map_add_def)
  have cur: "current_version m2 k = current_version m1 k" for k by (simp add: current_version_def m2)
  show "vac_pre m2 (L ++ wlog ws) k o'" if ko: "(k, o') \<in> set (map (\<lambda>w. (wkey w, wold w)) ws)"
  proof -
    from ko obtain w where w: "w \<in> set ws" "k = wkey w" "o' = wold w" by auto
    have "(L ++ wlog ws) (k, current_version m2 k) \<noteq> None" using begun_current(3)[OF b w(1)] w(2) by (auto simp: cur map_add_def)
    moreover have "superseded (L ++ wlog ws) (current_version m2 k) (k, o')"
      unfolding superseded_def using own[OF w(1)] bd(6)[OF w(1)] begun_current(1)[OF b w(1)] w(2,3) by (auto simp: cur)
    moreover have "superseded (L ++ wlog ws) o' (k, vacuum_anchor c)" if c: "cells m2 k = Some c" "0 < vacuum_anchor c" and o: "o' \<noteq> 0" for c
    proof -
      obtain c' where c': "cells m k = Some c'" "vacuum_anchor c' = vacuum_anchor c" using bd(9)[of k c] c m2 by auto
      have "superseded L (cversion c') (k, vacuum_anchor c)" using cell_partD(4)[OF mvcc_invD(4)[OF inv] c'(1)] c' c(2) by simp
      moreover have "cversion c' \<le> o'" using bd(7)[OF w(1)] c'(1) w o by (simp add: current_version_def)
      ultimately show ?thesis using superseded_mono[OF _ _ le] by blast
    qed
    ultimately show ?thesis by (simp add: vac_pre_def)
  qed
  have "vac_order (L ++ wlog ws) (wkey w, wold w) (wkey w', wold w')" if f: "follows w w'" "w \<in> set ws" for w w'
    unfolding vac_order_def superseded_def using f own[OF f(2)] bd(6)[OF f(2)] by (auto simp: follows_def)
  then show "sorted_wrt (vac_order (L ++ wlog ws)) (map (\<lambda>w. (wkey w, wold w)) ws)"
    unfolding sorted_wrt_map by (intro sorted_wrt_mono_rel[OF _ bd(2)]) blast
qed

lemma durables_visible: "completion (fold (\<lambda>w. mark_durable (f w)) ws g) = completion g" "writes_fenced (fold (\<lambda>w. mark_durable (f w)) ws g) = writes_fenced g"
  by (induction ws arbitrary: g) (simp_all add: mark_durable_def)

lemma commits_fenced: "writes_fenced (fold (\<lambda>w. guard_commit (f w)) ws g) = writes_fenced g"
  by (induction ws arbitrary: g) (simp_all add: guard_commit_def leave_active_def advance_last_committed_def raise_published_def Let_def)

text \<open>A direct write whose records reached the log: its versions are committed and settled.\<close>

lemma write_items_ok:
  assumes inv: "mvcc_inv m L pend" and room: "version_counter (gate m) + length items < U64_MAX" and ok: "w_log io = TxnOk"
    and bw: "begin_writes fresh items m = (ws, m1)" and run: "write_items fresh wall wait io items m = (r, m')"
  shows "mvcc_inv m' (L ++ wlog ws) pend" "visible_set m' = visible_set m \<union> wver ` set ws" "writes_fenced (gate m') = writes_fenced (gate m)"
proof -
  have b: "begun m items ws m1" and inv1: "mvcc_inv m1 L (pend \<union> wver ` set ws)" using begin_writes_keeps[OF inv room bw] by blast+
  note bd = begunD[OF b] and d = data_partD[OF mvcc_invD(2)[OF inv1]]
  define ts where "ts = now_millis wall m1"
  obtain h where t: "history_transact (w_log io) (log_ops ts ws) (history m1) = (Inr (), h)"
    using transact_result[OF d(1), of "w_log io" "log_ops ts ws"] ok by (cases "history_transact (w_log io) (log_ops ts ws) (history m1)") simp
  let ?L = "L ++ wlog ws"
  have i2: "mvcc_inv (m1\<lparr>history := h\<rparr>) ?L (pend \<union> wver ` set ws)" by (rule inv_logged[OF inv b inv1 t])
  have max: "\<forall>w \<in> set ws. wver w \<le> U64_MAX" using bd(5) gate_partD(5)[OF mvcc_invD(1)[OF inv1]] by fastforce
  define m2 where "m2 = finish_writes ts ws (m1\<lparr>history := h\<rparr>)"
  have i3: "mvcc_inv m2 ?L pend" unfolding m2_def
  proof (rule finish_keeps[OF i2 follows_distinct[OF bd(2)]])
    show "pend \<inter> wver ` set ws = {}" using begun_fresh(4)[OF inv b] by blast
    show "?L (wkey w, wver w) = Some (wval w)" if "w \<in> set ws" for w using wlog_mem[OF bd(2) that] by simp
    fix w k assume w: "w \<in> set ws" "?L (k, wver w) \<noteq> None"
    then have "wlog ws (k, wver w) \<noteq> None" using begun_fresh(1)[OF inv b w(1), of k] by (auto simp: map_add_def split: option.splits)
    from wlog_SomeD[OF this] log_written(3)[OF d(1) t bd(2) max refl]
    show "hist_map (history (m1\<lparr>history := h\<rparr>)) (k, wver w) \<noteq> None" by auto
  qed
  obtain ti where eq: "m2 = (m1\<lparr>history := h\<rparr>)\<lparr>ts_index := ti, voverlay := fold (\<lambda>w. overlay_insert (wkey w) (wver w) (wval w)) ws (voverlay m1),
     gate := fold (\<lambda>w. mark_durable (wver w)) ws (fold (\<lambda>w. guard_commit (fst w)) ws (gate m1))\<rparr>"
    using finish_writes_eq[of ts ws "m1\<lparr>history := h\<rparr>"] unfolding m2_def by auto
  have g1: "visible_set m1 = visible_set m" "writes_fenced (gate m1) = writes_fenced (gate m)" by (subst bd(11), simp)+
  have v2: "visible_set m2 = visible_set m \<union> wver ` set ws" using inv_commits[OF inv1 follows_distinct[OF bd(2)]] g1 by (simp add: eq durables_visible)
  have f2: "writes_fenced (gate m2) = writes_fenced (gate m)" using g1 by (simp add: eq durables_visible commits_fenced)
  have "cells m2 = cells m1" by (simp add: eq)
  note vac = vacuum_writes_keeps[OF i3 write_vacuum_ready[OF inv b this], of wall "w_vac io" 0]
  have pat: "(\<lambda>(_, key, _, old_v). (key, old_v)) = (\<lambda>w :: 'a written. (wkey w, wold w))" by (auto simp: w_defs fun_eq_iff)
  have m': "m' = vacuum_writes wall (w_vac io) (map (\<lambda>w. (wkey w, wold w)) ws) 0 m2"
    using run t bw unfolding write_items_def Let_def pat by (auto simp: ts_def[symmetric] m2_def[symmetric] acknowledge_def split: if_splits sum.splits)
  show "mvcc_inv m' ?L pend" "visible_set m' = visible_set m \<union> wver ` set ws" "writes_fenced (gate m') = writes_fenced (gate m)"
    using vac v2 f2 by (simp_all add: m')
qed

lemma compensate_published: "last_committed (gate m) \<le> last_committed (gate (compensate_failed_write io gks m))"
proof -
  have one: "last_committed g \<le> last_committed (guard_drop f gd g)" for f and gd :: "'a version_guard" and g
    unfolding guard_drop_def by (auto simp: gate_ops split: option.split ticket_state.split prod.split)
  have "last_committed (gate m) \<le> last_committed (gate (fold drop_guard gds m))" for gds and m :: "'a mvcc"
  proof (induction gds arbitrary: m)
    case (Cons gd gds)
    have "last_committed (gate m) \<le> last_committed (gate (drop_guard gd m))" by (simp add: drop_guard_def one)
    with Cons[of "drop_guard gd m"] show ?case by simp
  qed simp
  from this[of "m\<lparr>history := h\<rparr>" for h] show ?thesis
    by (simp add: compensate_failed_write_def Let_def fence_writes_def set_requires_reopen_def split: prod.split sum.split)
qed

lemma write_items_failed:
  assumes inv: "mvcc_inv m L pend" and room: "version_counter (gate m) + length items < U64_MAX" and fail: "w_log io = TxnFails n e"
    and run: "write_items fresh wall wait io items m = (r, m')"
  shows "mvcc_inv m' L pend" "last_committed (gate m) \<le> last_committed (gate m')"
proof -
  obtain ws m1 where bw: "begin_writes fresh items m = (ws, m1)" by fastforce
  have b: "begun m items ws m1" and inv1: "mvcc_inv m1 L (pend \<union> wver ` set ws)" using begin_writes_keeps[OF inv room bw] by blast+
  define ts where "ts = now_millis wall m1"
  obtain h where t: "history_transact (w_log io) (log_ops ts ws) (history m1) = (Inl e, h)"
    using transact_result[OF data_partD(1)[OF mvcc_invD(2)[OF inv1]], of "w_log io" "log_ops ts ws"] fail
    by (cases "history_transact (w_log io) (log_ops ts ws) (history m1)") simp
  have m': "m' = compensate_failed_write (w_comp io) (map (\<lambda>(gd, key, _, _). (gd, key)) ws) (m1\<lparr>history := h\<rparr>)"
    using run t bw by (simp add: write_items_def ts_def Let_def)
  show "mvcc_inv m' L pend" using compensate_keeps[OF inv b inv1 t] by (simp add: m')
  have "last_committed (gate m1) = last_committed (gate m)" by (subst begunD(11)[OF b]) simp
  with compensate_published[of "m1\<lparr>history := h\<rparr>" "w_comp io"] show "last_committed (gate m) \<le> last_committed (gate m')" by (simp add: m')
qed

lemma write_items_keeps:
  assumes inv: "mvcc_inv m L pend" and room: "version_counter (gate m) + length items < U64_MAX"
    and run: "write_items fresh wall wait io items m = (r, m')"
  shows "mvcc_inv m' (logged fresh io items m L) pend"
proof (cases "w_log io")
  case TxnOk
  obtain ws m1 where bw: "begin_writes fresh items m = (ws, m1)" by fastforce
  from write_items_ok(1)[OF inv room TxnOk bw run] show ?thesis by (simp add: logged_def TxnOk bw)
next
  case (TxnFails n e)
  from write_items_failed(1)[OF inv room TxnFails run] show ?thesis by (simp add: logged_def TxnFails)
qed

section \<open>Publication of a transaction\<close>

definition opkey :: "kv_op \<Rightarrow> bytes" where "opkey op = fst (op_entry op)"
definition opval :: "kv_op \<Rightarrow> bytes" where "opval op = snd (op_entry op)"

text \<open>What a transaction adds to the log of committed versions.\<close>

definition olog :: "nat \<Rightarrow> kv_op list \<Rightarrow> vlog" where
  "olog v ops = map_of (map (\<lambda>op. ((opkey op, v), opval op)) ops)"

lemma olog_Nil [simp]: "olog v [] = Map.empty"
  by (simp add: olog_def)

lemma olog_Cons: "olog v (op # ops) = (olog v ops)((opkey op, v) \<mapsto> opval op)"
  by (simp add: olog_def)

lemma olog_mem: "olog v ops p \<noteq> None \<longleftrightarrow> snd p = v \<and> fst p \<in> opkey ` set ops"
  by (cases p, induction ops) (auto simp: olog_Cons)

lemma finalize_frame [simp]:
  "gate (finalize_reservation k v m) = gate m" "history (finalize_reservation k v m) = history m" "voverlay (finalize_reservation k v m) = voverlay m"
  "active_snapshots (finalize_reservation k v m) = active_snapshots m" "receipt_native (finalize_reservation k v m) = receipt_native m"
  "pending_ts (finalize_reservation k v m) = pending_ts m"
  by (simp_all add: finalize_reservation_def split: option.split)

lemma finalize_current: "current_version (finalize_reservation k v m) j = (if j = k then max (current_version m k) v else current_version m j)"
  by (auto simp: finalize_reservation_def current_version_def split: option.split)

lemma inv_finalize:
  assumes inv: "mvcc_inv m L pend" and v: "v \<in> pend"
  shows "mvcc_inv (finalize_reservation k v m) L pend"
proof -
  note g = gate_partD[OF mvcc_invD(1)[OF inv]] and c = cell_partD[OF mvcc_invD(4)[OF inv]]
  have "dmark m < v" using dmark_le[OF g(1)] g(10)[OF v] by simp
  then have top: "w \<le> max (current_version m k) v" if "L (k, w) \<noteq> None" for w using c(2)[OF that] c(3)[OF that] by (cases "current_version m k = 0") auto
  have vb: "v \<le> version_counter (gate m)" "0 < v" using g(3)[OF v] g(10)[OF v] by simp_all
  show ?thesis
  proof (cases "cells m k")
    case None
    have "mvcc_inv (m\<lparr>cells := (cells m)(k \<mapsto> \<lparr>cversion = v, vacuum_anchor = 0, reserved_by = 0\<rparr>)\<rparr>) L pend"
      by (rule inv_cell_upd[OF inv]) (use vb top None in \<open>auto simp: current_version_def\<close>)
    with None show ?thesis by (simp add: finalize_reservation_def)
  next
    case (Some a)
    have cur: "current_version m k = cversion a" using Some by (simp add: current_version_def)
    have "mvcc_inv (m\<lparr>cells := (cells m)(k \<mapsto> a\<lparr>cversion := max (cversion a) v, reserved_by := 0\<rparr>)\<rparr>) L pend"
    proof (rule inv_cell_upd[OF inv])
      show "cversion (a\<lparr>cversion := max (cversion a) v, reserved_by := 0\<rparr>) \<le> version_counter (gate m)" using vb c(1)[of k] by (simp add: cur)
      show "L (k, w) \<noteq> None \<Longrightarrow> if cversion (a\<lparr>cversion := max (cversion a) v, reserved_by := 0\<rparr>) = 0 then w \<le> dmark m
          else w \<le> cversion (a\<lparr>cversion := max (cversion a) v, reserved_by := 0\<rparr>)" for w using top[of w] vb by (simp add: cur)
      assume "0 < vacuum_anchor (a\<lparr>cversion := max (cversion a) v, reserved_by := 0\<rparr>)"
      then show "superseded L (cversion (a\<lparr>cversion := max (cversion a) v, reserved_by := 0\<rparr>)) (k, vacuum_anchor (a\<lparr>cversion := max (cversion a) v, reserved_by := 0\<rparr>))"
        using superseded_mono[OF c(4)[OF Some], of "max (cversion a) v" L] by simp
    qed
    with Some show ?thesis by (simp add: finalize_reservation_def)
  qed
qed

abbreviation finalize_all :: "nat \<Rightarrow> kv_op list \<Rightarrow> 'e mvcc \<Rightarrow> 'e mvcc" where
  "finalize_all v ops \<equiv> fold (\<lambda>op. finalize_reservation (opkey op) v) ops"

lemma finalize_all_current:
  "current_version m k \<le> current_version (finalize_all v ops m) k"
  "op \<in> set ops \<Longrightarrow> v \<le> current_version (finalize_all v ops m) (opkey op)"
proof -
  show mono: "current_version m k \<le> current_version (finalize_all v ops m) k" for k m and ops :: "kv_op list"
  proof (induction ops arbitrary: m)
    case (Cons a ops)
    show ?case using Cons.IH[of "finalize_reservation (opkey a) v m"] by (simp add: finalize_current split: if_splits)
  qed simp
  show "op \<in> set ops \<Longrightarrow> v \<le> current_version (finalize_all v ops m) (opkey op)"
  proof (induction ops arbitrary: m)
    case (Cons a ops)
    show ?case
    proof (cases "op \<in> set ops")
      case False
      with Cons.prems have "a = op" by simp
      then show ?thesis using mono[of "finalize_reservation (opkey op) v m" "opkey op" ops] by (simp add: finalize_current)
    qed (simp add: Cons.IH)
  qed simp
qed

lemma finalize_commute: "finalize_reservation k v (m\<lparr>pending_ts := ts, voverlay := ov\<rparr>) = (finalize_reservation k v m)\<lparr>pending_ts := ts, voverlay := ov\<rparr>"
  by (simp add: finalize_reservation_def split: option.split)

lemma finalize_all_commute: "finalize_all v ops (m\<lparr>pending_ts := ts, voverlay := ov\<rparr>) = (finalize_all v ops m)\<lparr>pending_ts := ts, voverlay := ov\<rparr>"
  by (induction ops arbitrary: m) (simp_all only: fold_simps comp_apply id_apply finalize_commute)

lemma finalize_all_frame: "voverlay (finalize_all v ops m) = voverlay m"
  by (induction ops arbitrary: m) simp_all

lemma inv_finalize_all: "mvcc_inv m L pend \<Longrightarrow> v \<in> pend \<Longrightarrow> mvcc_inv (finalize_all v ops m) L pend"
  by (induction ops arbitrary: m) (simp_all add: inv_finalize)

lemma fold_voverlay: "fold (\<lambda>x m. m\<lparr>voverlay := f x (voverlay m)\<rparr>) xs m = m\<lparr>voverlay := fold f xs (voverlay m)\<rparr>"
  by (induction xs arbitrary: m) simp_all

lemma publish_overlay:
  assumes "mvcc_inv m L pend" and "v \<in> pend" and "distinct (map opkey ops)" and "\<And>op. op \<in> set ops \<Longrightarrow> L (opkey op, v) = None"
    and "\<And>op. op \<in> set ops \<Longrightarrow> v \<le> current_version m (opkey op)"
  shows "mvcc_inv (m\<lparr>voverlay := fold (\<lambda>op. overlay_insert (opkey op) v (opval op)) ops (voverlay m)\<rparr>) (L ++ olog v ops) pend"
  using assms
proof (induction ops arbitrary: m L)
  case Nil
  then show ?case by (simp add: olog_def)
next
  case (Cons op ops)
  let ?m = "m\<lparr>voverlay := overlay_insert (opkey op) v (opval op) (voverlay m)\<rparr>" and ?L = "L((opkey op, v) \<mapsto> opval op)"
  note d = data_partD[OF mvcc_invD(2)[OF Cons.prems(1)]] and g = gate_partD[OF mvcc_invD(1)[OF Cons.prems(1)]]
  have none: "L (opkey op, v) = None" "ov_map (voverlay m) (opkey op, v) = None" using Cons.prems(4)[of op] d(5)[of "(opkey op, v)"] by auto
  have "0 < v" using g(10)[OF Cons.prems(2)] by simp
  then have "extends m L pend ?m ?L"
    unfolding extends_def using d(1,2) none Cons.prems(2) Cons.prems(5)[of op] by (auto simp: map_le_def mv_map_if)
  from inv_extends[OF Cons.prems(1) this] have i1: "mvcc_inv ?m ?L pend" by simp
  have "mvcc_inv (?m\<lparr>voverlay := fold (\<lambda>op. overlay_insert (opkey op) v (opval op)) ops (voverlay ?m)\<rparr>) (?L ++ olog v ops) pend"
    by (rule Cons.IH[OF i1 Cons.prems(2)]) (use Cons.prems(3-5) in \<open>auto simp: image_iff\<close>)
  moreover have "(opkey op, v) \<notin> dom (olog v ops)" using Cons.prems(3) olog_mem[of v ops "(opkey op, v)"] by (auto simp: dom_def)
  then have "?L ++ olog v ops = L ++ olog v (op # ops)" by (simp add: olog_Cons map_add_upd_left)
  ultimately show ?case by simp
qed

lemma apply_committed_visible_keeps:
  assumes inv: "mvcc_inv m L pend" and v: "v \<in> pend" and ops: "distinct (map opkey ops)" and none: "\<And>k. L (k, v) = None"
  shows "mvcc_inv (apply_committed_visible wall ops v m) (L ++ olog v ops) pend"
proof -
  define m1 where "m1 = finalize_all v ops m"
  define m2 where "m2 = m1\<lparr>voverlay := fold (\<lambda>op. overlay_insert (opkey op) v (opval op)) ops (voverlay m1)\<rparr>"
  have "mvcc_inv m2 (L ++ olog v ops) pend" unfolding m2_def
    by (rule publish_overlay) (simp_all add: m1_def inv_finalize_all inv v ops none finalize_all_current)
  then have i3: "mvcc_inv (m2\<lparr>gate := raise_published v (gate m2)\<rparr>) (L ++ olog v ops) pend"
    by (rule inv_gate_frame) (simp_all add: raise_published_def)
  have "apply_committed_visible wall ops v m
      = (m2\<lparr>gate := raise_published v (gate m2)\<rparr>)\<lparr>pending_ts := keep_first v (now_millis wall m) (pending_ts m)\<rparr>"
    using finalize_all_commute[where v = v and ops = ops and m = m and ov = "fold (\<lambda>op. overlay_insert (opkey op) v (opval op)) ops (voverlay m)" and ts = "keep_first v (now_millis wall m) (pending_ts m)"]
    by (simp add: apply_committed_visible_def Let_def fold_voverlay[of "\<lambda>op. overlay_insert (opkey op) v (opval op)"] opkey_def[symmetric] opval_def[symmetric] m2_def m1_def finalize_all_frame)
  moreover have "mvcc_inv ((m2\<lparr>gate := raise_published v (gate m2)\<rparr>)\<lparr>pending_ts := keep_first v (now_millis wall m) (pending_ts m)\<rparr>) (L ++ olog v ops) pend"
    by (rule inv_frame[OF i3]) simp_all
  ultimately show ?thesis by (simp only:)
qed

section \<open>Committed versions reach the log\<close>

text \<open>The operations of a version, all of them committed, on keys whose cell is set.\<close>

definition warm :: "'e mvcc \<Rightarrow> vlog \<Rightarrow> nat \<times> kv_op list \<Rightarrow> bool" where
  "warm m L p = (\<forall>op \<in> set (snd p). L (opkey op, fst p) = Some (opval op) \<and> current_version m (opkey op) \<noteq> 0)"

lemma fold_fixed: "(\<And>x. x \<in> set xs \<Longrightarrow> f x s = s) \<Longrightarrow> fold f xs s = s"
  by (induction xs) simp_all

lemma publish_same: "current_version m k \<noteq> 0 \<Longrightarrow> v \<le> current_version m k \<Longrightarrow> publish_cell_sync k v m = m"
  by (auto simp: publish_cell_sync_def current_version_def fun_upd_idem max_absorb1 max_absorb2 split: option.splits)

lemma publish_warm:
  assumes c: "cell_part m L" and w: "warm m L p" and same: "cells m' = cells m"
  shows "fold (\<lambda>op. publish_cell_sync (fst (op_entry op)) (fst p)) (snd p) m' = m'"
proof (rule fold_fixed, rule publish_same)
  fix op assume op: "op \<in> set (snd p)"
  have cur: "current_version m' (fst (op_entry op)) = current_version m (opkey op)" using same by (simp add: current_version_def opkey_def)
  have l: "L (opkey op, fst p) \<noteq> None" "current_version m (opkey op) \<noteq> 0" using w op by (simp_all add: warm_def)
  then show "current_version m' (fst (op_entry op)) \<noteq> 0" by (simp add: cur)
  show "fst p \<le> current_version m' (fst (op_entry op))" using cell_partD(3)[OF c l] by (simp add: cur)
qed

lemma fold_ts_index_insert:
  "fold (\<lambda>p. ts_index_insert (f p) (g p)) xs m = m\<lparr>ts_index := fold (\<lambda>p. List.insert (f p, g p)) xs (ts_index m)\<rparr>"
  by (induction xs arbitrary: m) (simp_all add: ts_index_insert_def)

lemma log_bound:
  assumes "mvcc_inv m L pend" and "L (k, v) \<noteq> None"
  shows "0 < v" "v \<le> version_counter (gate m)" "v \<le> U64_MAX"
  using nothing_above(1)[OF assms(1), of v k] gate_partD(5)[OF mvcc_invD(1)[OF assms(1)]] data_partD(4)[OF mvcc_invD(2)[OF assms(1)] assms(2)] assms(2)
  by (simp, fastforce, fastforce)

lemma warm_version_ops:
  assumes inv: "mvcc_inv m L pend" and w: "warm m L p" and op: "op \<in> set (version_ops ts p)"
  shows "(\<exists>k v x. op = KvSet (encode_version_key k v) x \<and> v \<le> U64_MAX \<and> L (k, v) = Some x) \<or> (\<exists>v x. op = KvSet (ts_key v) x)"
proof -
  have le: "v \<le> U64_MAX" if "L (k, v) = Some x" for k v x using log_bound(3)[OF inv, of k v] that by simp
  from op consider o' where "o' \<in> set (snd p)" "op = KvSet (encode_version_key (opkey o') (fst p)) (opval o')" | "op = KvSet (ts_key (fst p)) (ts_bytes ts)"
    by (auto simp: version_ops_def opkey_def opval_def)
  then show ?thesis
  proof cases
    case 1
    with w have "L (opkey o', fst p) = Some (opval o')" by (simp add: warm_def)
    with le 1(2) show ?thesis by blast
  qed blast
qed

lemma inv_land:
  assumes inv: "mvcc_inv m L pend" and h: "history_transact io ops (history m) = (r, h)"
    and ops: "\<And>op. op \<in> set ops \<Longrightarrow> (\<exists>k v x. op = KvSet (encode_version_key k v) x \<and> v \<le> U64_MAX \<and> L (k, v) = Some x) \<or> (\<exists>v x. op = KvSet (ts_key v) x)"
  shows "mvcc_inv (m\<lparr>history := h\<rparr>) L pend"
proof (rule inv_extends[OF inv])
  note d = data_partD[OF mvcc_invD(2)[OF inv]] and s = hist_after_sets[OF data_partD(1)[OF mvcc_invD(2)[OF inv]] h ops]
  show "extends m L pend (m\<lparr>history := h\<rparr>) L" unfolding extends_def using d(2) s(1,2) by auto
qed simp_all

lemma batch_to_history_keeps:
  assumes inv: "mvcc_inv m L pend" and w: "\<And>p. p \<in> set pass \<Longrightarrow> warm m L p"
    and step: "write_committed_batch_to_history wall io pass m = (r, m')"
  shows "mvcc_inv m' L pend" "completion (gate m') = completion (gate m)" "cells m' = cells m"
    "r = Inr () \<Longrightarrow> p \<in> set pass \<Longrightarrow> op \<in> set (snd p) \<Longrightarrow> hist_map (history m') (opkey op, fst p) \<noteq> None"
proof -
  let ?ops = "concat (map (\<lambda>p. version_ops (commit_ts wall m (fst p)) p) pass)"
  obtain q h where h: "history_transact io ?ops (history m) = (q, h)" by force
  have shape: "(\<exists>k v x. op = KvSet (encode_version_key k v) x \<and> v \<le> U64_MAX \<and> L (k, v) = Some x) \<or> (\<exists>v x. op = KvSet (ts_key v) x)"
    if op: "op \<in> set ?ops" for op
  proof -
    from op obtain p where p: "p \<in> set pass" "op \<in> set (version_ops (commit_ts wall m (fst p)) p)" by auto
    show ?thesis by (rule warm_version_ops[OF inv w[OF p(1)] p(2)])
  qed
  have i1: "mvcc_inv (m\<lparr>history := h\<rparr>) L pend" by (rule inv_land[OF inv h shape])
  let ?ts = "fold (\<lambda>p. List.insert (commit_ts wall m (fst p), fst p)) pass (ts_index m)"
  have pub: "fold (\<lambda>p. fold (\<lambda>op. publish_cell_sync (fst (op_entry op)) (fst p)) (snd p)) pass (m\<lparr>history := h, ts_index := ?ts\<rparr>) = m\<lparr>history := h, ts_index := ?ts\<rparr>"
    by (rule fold_fixed, rule publish_warm[OF mvcc_invD(4)[OF inv] w]) simp_all
  have landed: "hist_map h (opkey op, fst p) \<noteq> None" if "q = Inr ()" "p \<in> set pass" "op \<in> set (snd p)" for p op
  proof -
    have mem: "KvSet (encode_version_key (opkey op) (fst p)) (opval op) \<in> set ?ops" using that(2,3) by (force simp: version_ops_def opkey_def opval_def)
    have "L (opkey op, fst p) \<noteq> None" using w[OF that(2)] that(3) by (simp add: warm_def)
    note log_bound(3)[OF inv this]
    with hist_after_sets(3)[OF data_partD(1)[OF mvcc_invD(2)[OF inv]] h shape that(1) mem] show ?thesis by simp
  qed
  have eq: "pass = [] \<and> r = Inr () \<and> m' = m \<or> r \<noteq> Inr () \<and> m' = m\<lparr>history := h\<rparr>
      \<or> q = Inr () \<and> m' = m\<lparr>history := h, ts_index := ?ts, gate := raise_published (fst (last pass)) (gate m)\<rparr>"
    using step pub by (cases q) (auto simp: write_committed_batch_to_history_def h fold_ts_index_insert split: if_splits)
  have i2: "mvcc_inv (m\<lparr>history := h, ts_index := ?ts, gate := raise_published (fst (last pass)) (gate m)\<rparr>) L pend"
    by (rule inv_gate_frame[OF inv_frame[OF i1]]) (simp_all add: raise_published_def)
  show "mvcc_inv m' L pend" "completion (gate m') = completion (gate m)" "cells m' = cells m"
    using eq inv i1 i2 by (auto simp: raise_published_def)
  show "hist_map (history m') (opkey op, fst p) \<noteq> None" if "r = Inr ()" "p \<in> set pass" "op \<in> set (snd p)"
    using eq that landed[of p op] by (cases p) auto
qed

lemma write_committed_keeps:
  assumes inv: "mvcc_inv m L pend" and w: "warm m L (v, ops)" and step: "write_committed_to_history wall io ops v m = (r, m')"
  shows "mvcc_inv m' L pend" "cells m' = cells m"
proof -
  let ?ts = "commit_ts wall m v"
  obtain q h where h: "history_transact io (version_ops ?ts (v, ops)) (history m) = (q, h)" by force
  have i1: "mvcc_inv (m\<lparr>history := h\<rparr>) L pend" by (rule inv_land[OF inv h warm_version_ops[OF inv w]])
  have rn: "\<not> receipt_native m" by (rule gate_partD(6)[OF mvcc_invD(1)[OF inv]])
  have pub: "fold (\<lambda>op. publish_cell_sync (fst (op_entry op)) v) ops (ts_index_insert ?ts v (m\<lparr>history := h\<rparr>)) = ts_index_insert ?ts v (m\<lparr>history := h\<rparr>)"
    using publish_warm[OF mvcc_invD(4)[OF inv] w, of "ts_index_insert ?ts v (m\<lparr>history := h\<rparr>)"] by (simp add: ts_index_insert_def)
  have i2: "mvcc_inv ((ts_index_insert ?ts v (m\<lparr>history := h\<rparr>))\<lparr>gate := raise_published v (gate m)\<rparr>) L pend"
    by (rule inv_gate_frame[OF inv_frame[OF i1]]) (simp_all add: raise_published_def ts_index_insert_def)
  have gm: "gate (ts_index_insert ?ts v (m\<lparr>history := h\<rparr>)) = gate m" by (simp add: ts_index_insert_def)
  have "m' = m\<lparr>history := h\<rparr> \<or> m' = (ts_index_insert ?ts v (m\<lparr>history := h\<rparr>))\<lparr>gate := raise_published v (gate m)\<rparr>"
    using step pub rn gm by (cases q) (simp_all add: write_committed_to_history_def materialize_committed_to_history_def publish_materialized_def h Let_def ts_index_insert_def)
  with i1 i2 show "mvcc_inv m' L pend" "cells m' = cells m" by (auto simp: ts_index_insert_def)
qed

lemma warm_cells: "warm m L p \<Longrightarrow> cells m' = cells m \<Longrightarrow> warm m' L p"
  by (simp add: warm_def current_version_def)

lemma drain_versions_keeps:
  assumes "mvcc_inv m L pend" and "\<And>p. p \<in> set ps \<Longrightarrow> warm m L p" and "drain_versions wall io ps i m = (r, m')"
  shows "mvcc_inv m' L pend"
  using assms
proof (induction ps arbitrary: i m)
  case (Cons p ps)
  obtain v ops where p: "p = (v, ops)" by force
  obtain q m1 where s: "write_committed_to_history wall (io i) ops v m = (q, m1)" by force
  note k = write_committed_keeps[OF Cons.prems(1) _ s]
  have w: "warm m L (v, ops)" using Cons.prems(2)[of p] p by simp
  show ?case
  proof (cases q)
    case (Inl e)
    with Cons.prems(3) s k(1)[OF w] show ?thesis by (simp add: p)
  next
    case (Inr u)
    show ?thesis
      by (rule Cons.IH[OF k(1)[OF w], of "i + 1"]) (use Cons.prems(2,3) s Inr p k(2)[OF w] in \<open>auto intro: warm_cells\<close>)
  qed
qed simp

lemma group_versions_mem:
  assumes "p \<in> set (group_versions es)" and "op \<in> set (snd p)"
  shows "(opkey op, fst p, opval op) \<in> set es"
proof -
  let ?f = "\<lambda>(key, version, value) g. let op = (if value = [] then KvRemove key else KvSet key value)
        in upsert_sync version ((case map_of g version of Some ops \<Rightarrow> ops | None \<Rightarrow> []) @ [op]) g"
  have main: "(opkey op, v, opval op) \<in> set es \<or> (\<exists>ops'. map_of g v = Some ops' \<and> op \<in> set ops')"
    if "ti_ok g" "map_of (fold ?f es g) v = Some ops" "op \<in> set ops" for es g v ops op
    using that(1,2)
  proof (induction es arbitrary: g)
    case Nil
    with that(3) show ?case by simp
  next
    case (Cons e es)
    obtain key version "value" where e: "e = (key, version, value)" by (cases e)
    define o' where "o' = (if value = [] then KvRemove key else KvSet key value)"
    have own: "opkey o' = key" "opval o' = value" by (simp_all add: o'_def opkey_def opval_def op_entry_def)
    define g' where "g' = upsert_sync version ((case map_of g version of Some ops \<Rightarrow> ops | None \<Rightarrow> []) @ [o']) g"
    have g': "?f e g = g'" by (simp add: e g'_def o'_def Let_def)
    have t: "ti_ok g'" using Cons.prems(1) by (simp add: g'_def)
    have "map_of (fold ?f es g') v = Some ops" using Cons.prems(2) unfolding fold_simps comp_apply g' .
    note ih = Cons.IH[OF t this]
    have "(opkey op, v, opval op) = e \<or> (\<exists>ops'. map_of g v = Some ops' \<and> op \<in> set ops')" if "map_of g' v = Some ops'" "op \<in> set ops'" for ops'
      using that Cons.prems(1) own by (auto simp: g'_def e split: if_splits option.splits)
    with ih show ?case unfolding fold_simps comp_apply g' by auto
  qed
  obtain v ops where p: "p = (v, ops)" by force
  have t: "ti_ok (fold ?f es g)" if "ti_ok g" for g
    using that by (induction es arbitrary: g) (simp_all add: Let_def case_prod_beta)
  have "map_of (fold ?f es []) v = Some ops" using map_of_iff_set[OF t[of "[]"]] assms(1) p by (simp add: group_versions_def)
  from main[OF _ this] assms(2) p show ?thesis by simp
qed

end
