(* ===== verification/MvccAccess.thy ===== *)
theory MvccAccess
  imports MvccPublish
begin

text \<open>
  The rest of the store's operations keep what the versioned store promises: the drain of the overlay and its collection,
  reads of the current value, which fill cold cells from the version log, and reservations.
\<close>

section \<open>Collecting the overlay\<close>

lemma gc_overlay_keeps:
  assumes inv: "mvcc_inv m L pend" and d: "d \<le> dmark m"
  shows "mvcc_inv (gc_overlay_to d m) L pend"
proof (cases "d = 0")
  case False
  let ?m = "gc_overlay_to d m"
  note g = gate_partD[OF mvcc_invD(1)[OF inv]] and dp = data_partD[OF mvcc_invD(2)[OF inv]]
  have lt: "d < U64_MAX" using d dmark_le[OF g(1)] g(5,9) by simp
  note u = gc_upto_eq[OF dp(2) lt, of U64_MAX]
  have settled: "v \<in> durable_set m" if "v \<le> d" for v using d that by (simp add: settled_def)
  have "reclaims L m ?m" unfolding reclaims_def using u False dp(1) lt settled by (auto simp: gc_overlay_to_def)
  moreover have "cell_part ?m L" by (rule cell_mono[OF mvcc_invD(4)[OF inv]]) (use False in \<open>simp_all add: gc_overlay_to_def current_version_def\<close>)
  ultimately show ?thesis by (rule inv_reclaims[OF inv])
qed (simp add: gc_overlay_to_def inv)

lemma drain_to_history_keeps:
  assumes inv: "mvcc_inv m L pend" and hot: "\<And>k v. ov_map (voverlay m) (k, v) \<noteq> None \<Longrightarrow> current_version m k \<noteq> 0"
  shows "mvcc_inv (snd (drain_to_history wall io m)) L pend"
proof -
  let ?es = "iter_all_le (voverlay m) (last_committed (gate m))"
  note dp = data_partD[OF mvcc_invD(2)[OF inv]]
  obtain r m1 where s: "drain_versions wall io (group_versions ?es) 0 m = (r, m1)" by force
  have w: "warm m L p" if p: "p \<in> set (group_versions ?es)" for p
    unfolding warm_def
  proof
    fix op assume "op \<in> set (snd p)"
    from group_versions_mem[OF p this] have "ov_map (voverlay m) (opkey op, fst p) = Some (opval op)" by (simp add: iter_all_le_mem[OF dp(2)])
    then show "L (opkey op, fst p) = Some (opval op) \<and> current_version m (opkey op) \<noteq> 0" using dp(5)[of "(opkey op, fst p)"] hot[of "opkey op" "fst p"] by (metis option.distinct(1))
  qed
  from drain_versions_keeps[OF inv w s] have i: "mvcc_inv m1 L pend" .
  have d: "durable_watermark (gate m1) \<le> dmark m1" by (simp add: durable_watermark_def)
  show ?thesis using inv i gc_overlay_keeps[OF i d] by (cases r) (simp_all add: drain_to_history_def Let_def s)
qed

section \<open>Reads of the current value\<close>

lemma seed_is_publish: "seed_version k v m = publish_cell_sync k v m"
  by (simp add: seed_version_def publish_cell_sync_def)

text \<open>On a cold cell the newest committed version of the key is in the version log.\<close>

lemma cold_newest:
  assumes inv: "mvcc_inv m L pend" and cold: "current_version m k = 0" and w: "L (k, w) \<noteq> None"
  obtains n where "L (k, n) \<noteq> None" "w \<le> n" "hist_map (history m) (k, n) \<noteq> None" "n \<le> dmark m"
proof -
  note g = gate_partD[OF mvcc_invD(1)[OF inv]] and p = mvcc_invD[OF inv]
  have "log_at L k (version_counter (gate m)) \<noteq> None" using w log_bound(2)[OF inv w] by (auto simp: log_at_None)
  then obtain n x where "log_at L k (version_counter (gate m)) = Some (n, x)" by force
  then have n: "L (k, n) \<noteq> None" "\<And>v. L (k, v) \<noteq> None \<Longrightarrow> v \<le> n" using log_bound(2)[OF inv] by (auto simp: log_at_Some)
  have d: "n \<le> dmark m" by (rule cell_partD(2)[OF p(4) n(1) cold])
  have "\<not> superseded L (low m) (k, n)" using n(2) by (fastforce simp: superseded_def)
  moreover have "n \<in> durable_set m" using d by (simp add: settled_def)
  ultimately have "hist_map (history m) (k, n) \<noteq> None" using kept_partD(1)[OF p(3) n(1)] by simp
  from that[OF n(1) n(2)[OF w] this d] show ?thesis .
qed

lemma seed_keeps:
  assumes inv: "mvcc_inv m L pend" and cold: "current_version m k = 0" and h: "seek_latest_published (history m) k U64_MAX = Inr (Some v)"
  shows "mvcc_inv (seed_version k v m) L pend"
  unfolding seed_is_publish
proof (rule inv_publish[OF inv])
  note g = gate_partD[OF mvcc_invD(1)[OF inv]] and d = data_partD[OF mvcc_invD(2)[OF inv]]
  have v: "hist_map (history m) (k, v) \<noteq> None" "\<And>w. w \<le> U64_MAX \<Longrightarrow> hist_map (history m) (k, w) \<noteq> None \<Longrightarrow> w \<le> v"
    using seek_latest_eq[OF d(1), of U64_MAX k] h by auto
  then show "v \<le> version_counter (gate m)" using nothing_above(2)[OF inv, of v k] by fastforce
  have "0 \<in> visible_set m" by (simp add: settled_def)
  then show "0 < v" using v(1) d(6)[of "(k, v)"] d(4)[of "(k, v)"] by (cases v) auto
  show "w \<le> v" if w: "L (k, w) \<noteq> None" for w
  proof (rule cold_newest[OF inv cold w])
    fix n assume n: "L (k, n) \<noteq> None" "w \<le> n" "hist_map (history m) (k, n) \<noteq> None"
    with v(2)[OF log_bound(3)[OF inv n(1)] n(3)] show ?thesis by simp
  qed
qed

lemma cold_version_keeps:
  assumes inv: "mvcc_inv m L pend" and cold: "current_version m k = 0"
  shows "mvcc_inv (snd (cold_version k m)) L pend"
proof -
  have rn: "\<not> receipt_native m" by (rule gate_partD(6)[OF mvcc_invD(1)[OF inv]])
  show ?thesis using inv seed_keeps[OF inv cold] rn
    by (auto simp: cold_version_def Let_def split: sum.split option.split)
qed

lemma get_current_keeps: "mvcc_inv m L pend \<Longrightarrow> mvcc_inv (snd (get_current_bytes k m)) L pend"
  using cold_version_keeps[of m L pend k]
  by (auto simp: get_current_bytes_def Let_def split: sum.split option.split prod.split)

text \<open>A read of the current value is a read at the published version.\<close>

lemma inv_floor:
  assumes "mvcc_inv m L pend"
  shows "wmark m \<le> last_committed (gate m)" "dmark m \<le> last_committed (gate m)" "low m \<le> last_committed (gate m)"
  using gate_partD(1)[OF mvcc_invD(1)[OF assms]] dmark_le[of m] low_le(1)[of m] by (auto simp: track_inv_def)

lemma current_warm:
  "0 < current_version m k \<Longrightarrow> 0 < last_committed (gate m) \<Longrightarrow> get_current_bytes k m = (get_at m k (last_committed (gate m)), m)"
  by (auto simp: get_current_bytes_def Let_def get_at_def resolve_read.simps[of m k "last_committed (gate m)" "current_version m k"]
      split: option.split sum.split db_error.split)

lemma hist_unfenced:
  assumes "mvcc_inv m L pend" and "\<not> writes_fenced (gate m)" and "hist_map (history m) p \<noteq> None"
  shows "L p \<noteq> None"
  using data_partD(6)[OF mvcc_invD(2)[OF assms(1)], of p] assms(2,3) by auto

lemma cold_version_eq:
  assumes inv: "mvcc_inv m L pend" and cold: "current_version m k = 0" and f: "\<not> writes_fenced (gate m)" and c: "0 < last_committed (gate m)"
  obtains "cold_version k m = (Inr None, m)" "\<And>v. L (k, v) = None"
  | h where "cold_version k m = (Inr (Some h), seed_version k h m)" "0 < h" "h \<le> last_committed (gate m)" "mvcc_inv (seed_version k h m) L pend"
proof -
  note d = data_partD[OF mvcc_invD(2)[OF inv]] and rn = gate_partD(6)[OF mvcc_invD(1)[OF inv]]
  obtain r where r: "seek_latest_published (history m) k U64_MAX = Inr r"
    and h: "case r of None \<Rightarrow> \<forall>v \<le> U64_MAX. hist_map (history m) (k, v) = None
      | Some v \<Rightarrow> hist_map (history m) (k, v) \<noteq> None \<and> (\<forall>w \<le> U64_MAX. hist_map (history m) (k, w) \<noteq> None \<longrightarrow> w \<le> v)"
    using seek_latest_eq[OF d(1), of U64_MAX k] by (fastforce split: option.splits)
  have top: "\<exists>n. L (k, n) \<noteq> None \<and> w \<le> n \<and> n \<le> U64_MAX \<and> hist_map (history m) (k, n) \<noteq> None" if "L (k, w) \<noteq> None" for w
    by (rule cold_newest[OF inv cold that]) (use log_bound(3)[OF inv] in blast)
  have ov: "L (k, v) \<noteq> None" if "newest_visible (voverlay m) k s = Some (v, x)" for s v x
    using newest_visible_Some[OF d(2), of k s v x] that d(5)[of "(k, v)"] by (metis option.distinct(1))
  have run: "cold_version k m = (case (r, map_option fst (newest_visible (voverlay m) k (last_committed (gate m)))) of
            (Some h, Some ov) \<Rightarrow> (Inr (Some (max h ov)), seed_version k h m)
          | (Some h, None) \<Rightarrow> (Inr (Some h), seed_version k h m)
          | (None, Some ov) \<Rightarrow> (Inr (Some ov), m)
          | (None, None) \<Rightarrow> (Inr None, m))" using r rn c by (simp add: cold_version_def Let_def)
  show ?thesis
  proof (cases r)
    case None
    with h top have "L (k, v) = None" for v by (cases "L (k, v)") fastforce+
    moreover from this ov have "newest_visible (voverlay m) k (last_committed (gate m)) = None" by (cases "newest_visible (voverlay m) k (last_committed (gate m))") auto
    ultimately show ?thesis using that(1) run None by simp
  next
    case (Some v)
    with h have v: "L (k, v) \<noteq> None" "\<And>w. w \<le> U64_MAX \<Longrightarrow> hist_map (history m) (k, w) \<noteq> None \<Longrightarrow> w \<le> v" using hist_unfenced[OF inv f] by auto
    have "ov \<le> v" if "map_option fst (newest_visible (voverlay m) k (last_committed (gate m))) = Some ov" for ov
      using top[OF ov] v(2) that by fastforce
    then have "cold_version k m = (Inr (Some v), seed_version k v m)" using run Some by (auto simp: max_def split: option.split)
    moreover have "v \<le> last_committed (gate m)" using cell_partD(2)[OF mvcc_invD(4)[OF inv] v(1) cold] inv_floor(2)[OF inv] by simp
    ultimately show ?thesis using that(2)[of v] log_bound(1)[OF inv v(1)] seed_keeps[OF inv cold] r Some by simp
  qed
qed

lemma get_current_exact:
  assumes inv: "mvcc_inv m L pend" and f: "\<not> writes_fenced (gate m)" and c: "0 < last_committed (gate m)" "last_committed (gate m) \<le> U64_MAX"
  shows "fst (get_current_bytes k m) = Inr (log_read L k (last_committed (gate m)))"
proof (cases "current_version m k = 0")
  case False
  with current_warm[of m k] inv_get_at[OF inv inv_floor(3)[OF inv] _ c(2)] f c(1) show ?thesis by simp
next
  case True
  show ?thesis
  proof (rule cold_version_eq[OF inv True f c(1)])
    assume a: "cold_version k m = (Inr None, m)" "\<And>v. L (k, v) = None"
    then have "log_at L k s = None" for s by (simp add: log_at_None)
    with a(1) True show ?thesis by (simp add: get_current_bytes_def Let_def log_read_def)
  next
    fix h assume a: "cold_version k m = (Inr (Some h), seed_version k h m)" "0 < h" "h \<le> last_committed (gate m)" "mvcc_inv (seed_version k h m) L pend"
    let ?m = "seed_version k h m"
    have cur: "current_version ?m k = h" "gate ?m = gate m" using True by (simp_all add: seed_is_publish publish_current)
    have "get_current_bytes k m = get_current_bytes k ?m" using a True cur by (simp add: get_current_bytes_def Let_def)
    with current_warm[of ?m k] inv_get_at[OF a(4) inv_floor(3)[OF a(4)] _] c a(2) f cur show ?thesis by simp
  qed
qed

section \<open>Batched reads of the current values\<close>

text \<open>The states that differ in the cells only.\<close>

definition same_data :: "'e mvcc \<Rightarrow> 'e mvcc \<Rightarrow> bool" where
  "same_data m m' = (gate m' = gate m \<and> history m' = history m \<and> voverlay m' = voverlay m)"

lemma cold_version_same: "same_data m (snd (cold_version k m))"
proof -
  let ?F = "\<lambda>hc oc. case seek_latest_published (history m) k hc of
       Inl e \<Rightarrow> (Inl e, m)
     | Inr hist_v \<Rightarrow>
         (case (hist_v, map_option fst (newest_visible (voverlay m) k oc)) of
            (Some h, Some ov) \<Rightarrow> (Inr (Some (max h ov)), seed_version k h m)
          | (Some h, None) \<Rightarrow> (Inr (Some h), seed_version k h m)
          | (None, Some ov) \<Rightarrow> (Inr (Some ov), m)
          | (None, None) \<Rightarrow> (Inr None, m))"
  have F: "same_data m (snd (?F hc oc))" for hc oc
    by (simp add: same_data_def seed_is_publish split: sum.split option.split)
  show ?thesis unfolding cold_version_def Let_def by (rule F)
qed

lemma get_current_same: "same_data m (snd (get_current_bytes k m))"
proof (cases "current_version m k = 0")
  case True
  obtain r m' where c: "cold_version k m = (r, m')" by force
  with True have "snd (get_current_bytes k m) = m'" by (simp add: get_current_bytes_def Let_def split: sum.split option.split)
  then show ?thesis using cold_version_same[of m k] c by simp
qed (simp add: get_current_bytes_def Let_def same_data_def)

lemma resolve_read_cong:
  assumes "same_data m m'"
  shows "resolve_read m' k s 0 = resolve_read m k s 0"
  using assms by (simp add: same_data_def resolve_read.simps)

lemma cur_finish_keeps:
  assumes "mvcc_inv m L pend"
  shows "mvcc_inv (snd (cur_finish floor res e m)) L pend \<and> same_data m (snd (cur_finish floor res e m))"
  using get_current_keeps[OF assms, of "fst e"] get_current_same[of m "fst e"] assms
  by (simp add: cur_finish_def same_data_def split: cur_slot.split)

lemma cur_finish_all_keeps: "mvcc_inv m L pend \<Longrightarrow> mvcc_inv (snd (cur_finish_all floor res es m)) L pend"
proof (induction es arbitrary: m)
  case (Cons e es)
  obtain r m1 where s: "cur_finish floor res e m = (r, m1)" by force
  then have "mvcc_inv m1 L pend" using cur_finish_keeps[OF Cons.prems, of floor res e] by simp
  with Cons.IH[of m1] s show ?case by (cases "cur_finish_all floor res es m1") (simp split: sum.split)
qed simp

lemma get_current_many_keeps: "mvcc_inv m L pend \<Longrightarrow> mvcc_inv (snd (get_current_many keys m)) L pend"
  by (auto simp: get_current_many_def Let_def cur_finish_all_keeps split: prod.split sum.split)

lemma cur_classify_one:
  assumes inv: "mvcc_inv m L pend" and f: "\<not> writes_fenced (gate m)" and fl: "floor = last_committed (gate m)" "0 < floor" "floor \<le> U64_MAX"
  obtains x M where "cur_classify m floor k (slots, miss) = (slots @ [x], miss @ M)"
    and "\<And>tail m'. mvcc_inv m' L pend \<Longrightarrow> same_data m m' \<Longrightarrow>
      fst (cur_finish floor (map (map_of (history m)) (miss @ M @ tail)) (k, x) m') = Inr (log_read L k floor)"
proof -
  have at: "get_at m' k floor = Inr (log_read L k floor)" if "mvcc_inv m' L pend" "same_data m m'" for m'
    using inv_get_at[OF that(1), of floor k] inv_floor(3)[OF that(1)] that(2) f fl by (simp add: same_data_def)
  have refl: "same_data m m" by (simp add: same_data_def)
  let ?c = "current_version m k"
  consider (cold) "?c = 0" | (above) "?c \<noteq> 0" "floor < ?c" | (direct) "?c \<noteq> 0" "?c \<le> floor" by linarith
  then show ?thesis
  proof cases
    case cold
    have "fst (get_current_bytes k m') = Inr (log_read L k floor)" if "mvcc_inv m' L pend" "same_data m m'" for m'
      using get_current_exact[OF that(1)] that(2) f fl by (simp add: same_data_def)
    with cold show ?thesis by (intro that[of CurCold "[]"]) (simp_all add: cur_classify_def cur_finish_def)
  next
    case above
    with at fl show ?thesis by (intro that[of CurFloorExceeded "[]"]) (simp_all add: cur_classify_def cur_finish_def Let_def)
  next
    case direct
    note run = at[OF inv refl, unfolded get_at_def, unfolded resolve_read.simps[of m k floor ?c]]
    show ?thesis
    proof (cases "overlay_get (voverlay m) k ?c")
      case (Some val)
      with direct run show ?thesis by (intro that[of "CurResolved (present val)" "[]"]) (simp_all add: cur_classify_def cur_finish_def Let_def)
    next
      case None
      with direct run show ?thesis
        by (intro that[of "CurHistoryMiss (length miss) ?c" "[encode_version_key k ?c]"])
          (auto simp: cur_classify_def Let_def cur_finish_def nth_append store_get_def resolve_read_cong split: option.splits)
    qed
  qed
qed

lemma cur_classify_all:
  assumes inv: "mvcc_inv m L pend" and f: "\<not> writes_fenced (gate m)" and fl: "floor = last_committed (gate m)" "0 < floor" "floor \<le> U64_MAX"
  shows "\<exists>S M. fold (cur_classify m floor) keys (slots, miss) = (slots @ S, miss @ M) \<and>
    (\<forall>tail m'. mvcc_inv m' L pend \<longrightarrow> same_data m m' \<longrightarrow>
      fst (cur_finish_all floor (map (map_of (history m)) (miss @ M @ tail)) (zip keys S) m') = Inr (map (\<lambda>k. log_read L k floor) keys))"
proof (induction keys arbitrary: slots miss)
  case (Cons k keys)
  obtain x M where one: "cur_classify m floor k (slots, miss) = (slots @ [x], miss @ M)"
    and fin: "\<And>tail m'. mvcc_inv m' L pend \<Longrightarrow> same_data m m' \<Longrightarrow>
      fst (cur_finish floor (map (map_of (history m)) (miss @ M @ tail)) (k, x) m') = Inr (log_read L k floor)"
    using cur_classify_one[OF assms, of k slots miss] by blast
  obtain S M' where rest: "fold (cur_classify m floor) keys (slots @ [x], miss @ M) = ((slots @ [x]) @ S, (miss @ M) @ M')"
    and fins: "\<And>tail m'. mvcc_inv m' L pend \<Longrightarrow> same_data m m' \<Longrightarrow>
      fst (cur_finish_all floor (map (map_of (history m)) ((miss @ M) @ M' @ tail)) (zip keys S) m') = Inr (map (\<lambda>k. log_read L k floor) keys)"
    using Cons[of "slots @ [x]" "miss @ M"] by blast
  have "fst (cur_finish_all floor (map (map_of (history m)) (miss @ (M @ M') @ tail)) (zip (k # keys) (x # S)) m') = Inr (map (\<lambda>k. log_read L k floor) (k # keys))"
    if i: "mvcc_inv m' L pend" "same_data m m'" for tail m'
  proof -
    let ?res = "map (map_of (history m)) (miss @ (M @ M') @ tail)"
    obtain r m1 where s: "cur_finish floor ?res (k, x) m' = (r, m1)" by force
    have r: "r = Inr (log_read L k floor)" using fin[OF i, of "M' @ tail"] s by simp
    have "mvcc_inv m1 L pend" "same_data m m1" using cur_finish_keeps[OF i(1), of floor ?res "(k, x)"] s i(2) by (simp_all add: same_data_def)
    from fins[OF this, of tail] show ?thesis using s r by (auto split: prod.split)
  qed
  moreover have "fold (cur_classify m floor) (k # keys) (slots, miss) = (slots @ (x # S), miss @ (M @ M'))" using rest by (simp add: one)
  ultimately show ?case by blast
qed simp

lemma get_current_many_exact:
  assumes inv: "mvcc_inv m L pend" and f: "\<not> writes_fenced (gate m)" and c: "0 < last_committed (gate m)" "last_committed (gate m) \<le> U64_MAX"
  shows "fst (get_current_many keys m) = Inr (map (\<lambda>k. log_read L k (last_committed (gate m))) keys)"
proof -
  let ?f = "last_committed (gate m)"
  have refl: "same_data m m" by (simp add: same_data_def)
  obtain S M where run: "fold (cur_classify m ?f) keys ([], []) = (S, M)"
    and fin: "\<And>tail. fst (cur_finish_all ?f (map (map_of (history m)) (M @ tail)) (zip keys S) m) = Inr (map (\<lambda>k. log_read L k ?f) keys)"
    using cur_classify_all[OF inv f _ c, of keys "[]" "[]"] inv refl by auto
  have "(if M = [] then Inr [] else get_many store_get (history m) M) = Inr (map (map_of (history m)) M)" by (simp add: get_many_mem)
  with fin[of "[]"] run show ?thesis by (simp add: get_current_many_def)
qed

section \<open>Reservations\<close>

lemma reservation_keeps:
  assumes inv: "mvcc_inv m L pend" and c: "cells m k = Some c"
  shows "mvcc_inv (m\<lparr>cells := (cells m)(k \<mapsto> c\<lparr>reserved_by := t\<rparr>)\<rparr>) L pend"
proof (rule inv_cell_upd[OF inv])
  note p = cell_partD[OF mvcc_invD(4)[OF inv]]
  have cur: "current_version m k = cversion c" using c by (simp add: current_version_def)
  show "cversion (c\<lparr>reserved_by := t\<rparr>) \<le> version_counter (gate m)" using p(1)[of k] cur by simp
  show "L (k, v) \<noteq> None \<Longrightarrow> if cversion (c\<lparr>reserved_by := t\<rparr>) = 0 then v \<le> dmark m else v \<le> cversion (c\<lparr>reserved_by := t\<rparr>)" for v
    using p(2,3)[of k v] cur by simp
  show "0 < vacuum_anchor (c\<lparr>reserved_by := t\<rparr>) \<Longrightarrow> superseded L (cversion (c\<lparr>reserved_by := t\<rparr>)) (k, vacuum_anchor (c\<lparr>reserved_by := t\<rparr>))"
    using p(4)[OF c] by simp
qed

lemma try_reserve_keeps:
  assumes inv: "mvcc_inv m L pend"
  shows "mvcc_inv (snd (try_reserve k s t m)) L pend"
proof (cases "cells m k")
  case None
  note p = cell_partD[OF mvcc_invD(4)[OF inv]]
  have "mvcc_inv (m\<lparr>cells := (cells m)(k \<mapsto> \<lparr>cversion = 0, vacuum_anchor = 0, reserved_by = t\<rparr>)\<rparr>) L pend"
    by (rule inv_cell_upd[OF inv]) (use p(2)[of k] None in \<open>auto simp: current_version_def\<close>)
  with None show ?thesis by (simp add: try_reserve_def)
next
  case (Some c)
  with reservation_keeps[OF inv Some] inv show ?thesis by (simp add: try_reserve_def)
qed

lemma release_keeps: "mvcc_inv m L pend \<Longrightarrow> mvcc_inv (release_reservation k t m) L pend"
  using reservation_keeps[of m L pend k] by (simp add: release_reservation_def split: option.split)

end
