(* ===== verification/MvccRun.thy ===== *)
theory MvccRun
  imports MvccAccess
begin

text \<open>
  Runs of the versioned store.  A state is the store with the log of committed versions and the set of pending versions;
  a step is one call of the store, of the gate or of the drainer, in any order; the calls on the same store exclude each other.
  Every state that can be reached keeps \<^const>\<open>mvcc_inv\<close>, so reads at a snapshot return what was committed then.
\<close>

section \<open>Direct writes\<close>

datatype write_call = SetVersioned bytes bytes | DeleteVersioned bytes | SetMany "(bytes \<times> bytes) list" | AppendMany "(bytes \<times> bytes) list"

fun run_write :: "nat \<Rightarrow> bool \<Rightarrow> 'e write_io \<Rightarrow> write_call \<Rightarrow> 'e mvcc \<Rightarrow> nat db_result \<times> 'e mvcc" where
  "run_write wall wait io (SetVersioned k x) m = set_versioned_inner wall wait io k x m"
| "run_write wall wait io (DeleteVersioned k) m = delete_versioned_inner wall wait io k m"
| "run_write wall wait io (SetMany items) m = set_versioned_many_inner wall wait io items m"
| "run_write wall wait io (AppendMany items) m = set_versioned_many_append_only_inner wall wait io items m"

fun call_items :: "write_call \<Rightarrow> (bytes \<times> bytes) list" where
  "call_items (SetVersioned k x) = [(k, x)]"
| "call_items (DeleteVersioned k) = [(k, [])]"
| "call_items (SetMany items) = items"
| "call_items (AppendMany items) = items"

fun call_fresh :: "write_call \<Rightarrow> bool" where
  "call_fresh (AppendMany items) = True"
| "call_fresh c = False"

text \<open>Whether a call gets past its checks.\<close>

definition call_admitted :: "write_call \<Rightarrow> 'e mvcc \<Rightarrow> bool" where
  "call_admitted c m = (ensure_writable m = Inr () \<and> call_items c \<noteq> [] \<and>
    (case c of DeleteVersioned _ \<Rightarrow> True | _ \<Rightarrow> \<not> list_ex (\<lambda>(_, x). x = []) (call_items c)))"

definition call_log :: "'e write_io \<Rightarrow> write_call \<Rightarrow> 'e mvcc \<Rightarrow> vlog \<Rightarrow> vlog" where
  "call_log io c m L = (if call_admitted c m then logged (call_fresh c) io (call_items c) m L else L)"

lemma run_write_cases:
  "call_admitted c m \<Longrightarrow> run_write wall wait io c m = write_items (call_fresh c) wall wait io (call_items c) m"
  "\<not> call_admitted c m \<Longrightarrow> snd (run_write wall wait io c m) = m"
  by (cases c; cases "ensure_writable m";
      auto simp: call_admitted_def set_versioned_inner_def delete_versioned_inner_def set_versioned_many_inner_def set_versioned_many_append_only_inner_def)+

lemma run_write_keeps:
  assumes inv: "mvcc_inv m L pend" and room: "version_counter (gate m) + length (call_items c) < U64_MAX"
  shows "mvcc_inv (snd (run_write wall wait io c m)) (call_log io c m L) pend"
proof (cases "call_admitted c m")
  case True
  obtain r m' where s: "write_items (call_fresh c) wall wait io (call_items c) m = (r, m')" by force
  from write_items_keeps[OF inv room s] show ?thesis by (simp add: run_write_cases(1)[OF True] s call_log_def True)
qed (simp add: run_write_cases(2) call_log_def inv)

section \<open>Steps\<close>

type_synonym 'e mvcc_state = "'e mvcc \<times> vlog \<times> nat set"

text \<open>The operations a drain is given are those the transaction committed, and every one has landed before the version counts as durable.\<close>

definition committed_ops :: "vlog \<Rightarrow> nat \<times> kv_op list \<Rightarrow> bool" where
  "committed_ops L p = (\<forall>op \<in> set (snd p). L (opkey op, fst p) = Some (opval op))"

definition landed :: "'e mvcc \<Rightarrow> vlog \<Rightarrow> nat \<Rightarrow> bool" where
  "landed m L v = (\<forall>k. L (k, v) \<noteq> None \<longrightarrow> superseded L (low m) (k, v) \<or> hist_map (history m) (k, v) \<noteq> None)"

inductive mvcc_step :: "'e mvcc_state \<Rightarrow> 'e mvcc_state \<Rightarrow> bool" where
  direct_write: "version_counter (gate m) + length (call_items c) < U64_MAX \<Longrightarrow>
    mvcc_step (m, L, P) (snd (run_write wall wait io c m), call_log io c m L, P)"
| allocate: "assign_next_version (gate m) = (v, g) \<Longrightarrow> v < U64_MAX \<Longrightarrow> mvcc_step (m, L, P) (m\<lparr>gate := g\<rparr>, L, insert v P)"
| publish: "v \<in> P \<Longrightarrow> distinct (map opkey ops) \<Longrightarrow> (\<And>k. L (k, v) = None) \<Longrightarrow>
    mvcc_step (m, L, P) (apply_committed_visible wall ops v m, L ++ olog v ops, P)"
| commit: "gversion gd \<in> P \<Longrightarrow> mvcc_step (m, L, P) (m\<lparr>gate := guard_commit gd (gate m)\<rparr>, L, P - {gversion gd})"
| abort: "v \<in> P \<Longrightarrow> (\<And>k. L (k, v) = None) \<Longrightarrow> mvcc_step (m, L, P) (drop_guard (guard_new v) m, L, P - {v})"
| drain: "(\<And>p. p \<in> set pass \<Longrightarrow> committed_ops L p \<and> fst p \<notin> durable_set m) \<Longrightarrow>
    mvcc_step (m, L, P) (snd (write_committed_batch_to_history wall io pass m), L, P)"
| durable: "v \<in> visible_set m \<Longrightarrow> landed m L v \<Longrightarrow> mvcc_step (m, L, P) (m\<lparr>gate := mark_durable v (gate m)\<rparr>, L, P)"
| drain_all: "(\<And>k v. ov_map (voverlay m) (k, v) \<noteq> None \<Longrightarrow> current_version m k \<noteq> 0) \<Longrightarrow>
    mvcc_step (m, L, P) (snd (drain_to_history wall vio m), L, P)"
| gc_overlay: "d \<le> dmark m \<Longrightarrow> mvcc_step (m, L, P) (gc_overlay_to d m, L, P)"
| gc: "b \<le> min_alive m \<Longrightarrow> min_alive m \<le> durable_watermark (gate m) + 1 \<Longrightarrow> mvcc_step (m, L, P) (snd (gc_below vio b m), L, P)"
| purge: "mvcc_step (m, L, P) (snd (purge_below_ts vio cutoff m), L, P)"
| get_current: "mvcc_step (m, L, P) (snd (get_current_bytes k m), L, P)"
| get_many: "mvcc_step (m, L, P) (snd (get_current_many keys m), L, P)"
| reserve: "mvcc_step (m, L, P) (snd (try_reserve k s t m), L, P)"
| release: "mvcc_step (m, L, P) (release_reservation k t m, L, P)"
| open_snapshot: "low m \<le> s \<Longrightarrow> s \<le> wmark m \<Longrightarrow> mvcc_step (m, L, P) (m\<lparr>active_snapshots := s # active_snapshots m\<rparr>, L, P)"
| close_snapshot: "mvcc_step (m, L, P) (m\<lparr>active_snapshots := remove1 s (active_snapshots m)\<rparr>, L, P)"
| count_openings: "mvcc_step (m, L, P) (m\<lparr>openings := n\<rparr>, L, P)"
| retention: "mvcc_step (m, L, P) (snd (set_retention r m), L, P)"
| clock: "mvcc_step (m, L, P) (m\<lparr>test_now_millis := t\<rparr>, L, P)"
| ts_lookup: "mvcc_step (m, L, P) (snd (version_at_or_before_ts t m), L, P)"

lemma rebuild_keeps: "mvcc_inv m L P \<Longrightarrow> mvcc_inv (snd (rebuild_loop es m)) L P"
proof (induction es m rule: rebuild_loop.induct)
  case (1 m)
  show ?case by (rule inv_frame[OF 1]) simp_all
next
  case (3 batch stream m)
  have e: "mvcc_inv m L P \<Longrightarrow> mvcc_inv (rebuild_entry e m) L P" for e and m :: "'a mvcc"
    by (erule inv_frame) (simp_all add: rebuild_entry_def ts_index_insert_def split: option.split)
  have "mvcc_inv m L P \<Longrightarrow> mvcc_inv (fold rebuild_entry batch m) L P" for m :: "'a mvcc"
    by (induction batch arbitrary: m) (simp_all add: e)
  with 3 show ?case by simp
qed simp

lemma ts_lookup_keeps: "mvcc_inv m L P \<Longrightarrow> mvcc_inv (snd (version_at_or_before_ts t m)) L P"
proof -
  assume i: "mvcc_inv m L P"
  have "mvcc_inv (m\<lparr>ts_index_ready := False\<rparr>) L P" by (rule inv_frame[OF i]) simp_all
  then have "mvcc_inv (snd (ts_index_rebuild m)) L P" unfolding ts_index_rebuild_def by (rule rebuild_keeps)
  with i show ?thesis by (auto simp: version_at_or_before_ts_def split: prod.split sum.split)
qed

lemma committed_warm:
  assumes inv: "mvcc_inv m L P" and c: "committed_ops L p" and d: "fst p \<notin> durable_set m"
  shows "warm m L p"
  unfolding warm_def
proof (intro ballI conjI)
  fix op assume op: "op \<in> set (snd p)"
  then show l: "L (opkey op, fst p) = Some (opval op)" using c by (simp add: committed_ops_def)
  show "current_version m (opkey op) \<noteq> 0"
  proof
    assume "current_version m (opkey op) = 0"
    from cell_partD(2)[OF mvcc_invD(4)[OF inv] _ this, of "fst p"] l have "fst p \<le> dmark m" by simp
    with d show False by (simp add: settled_def)
  qed
qed

text \<open>Every step keeps what the store promises.\<close>

lemma mvcc_step_keeps: "mvcc_step s s' \<Longrightarrow> case s of (m, L, P) \<Rightarrow> mvcc_inv m L P \<Longrightarrow> case s' of (m', L', P') \<Rightarrow> mvcc_inv m' L' P'"
proof (induction rule: mvcc_step.induct)
  case (direct_write m c L P wall wait io)
  then show ?case by (simp add: run_write_keeps)
next
  case (allocate m v g L P)
  then show ?case using inv_allocate[of m L P v g] by (auto simp: assign_next_version_def)
next
  case (publish v P ops L m wall)
  then show ?case by (simp add: apply_committed_visible_keeps)
next
  case (commit gd P m L)
  then show ?case by (simp add: inv_commit(1))
next
  case (abort v P L m)
  then show ?case by (simp add: inv_abort)
next
  case (drain pass L m P wall io)
  obtain r m' where s: "write_committed_batch_to_history wall io pass m = (r, m')" by force
  have i: "mvcc_inv m L P" using drain.prems by simp
  from batch_to_history_keeps(1)[OF i committed_warm[OF i] s] drain.hyps show ?case by (simp add: s)
next
  case (durable v m L P)
  then show ?case using inv_durable[of m L P v] by (auto simp: landed_def)
next
  case (drain_all m L P wall vio)
  then have "mvcc_inv m L P" by simp
  from drain_to_history_keeps[OF this drain_all.hyps] show ?case by simp
next
  case (gc_overlay d m L P)
  then show ?case by (simp add: gc_overlay_keeps)
next
  case (gc b m L P vio)
  then show ?case by (simp add: gc_keeps)
next
  case (purge m L P vio cutoff)
  then show ?case by (simp add: purge_keeps(1))
next
  case (get_current m L P k)
  then show ?case by (simp add: get_current_keeps)
next
  case (get_many m L P keys)
  then show ?case by (simp add: get_current_many_keeps)
next
  case (reserve m L P k s t)
  then show ?case by (simp add: try_reserve_keeps)
next
  case (release m L P k t)
  then show ?case by (simp add: release_keeps)
next
  case (open_snapshot m s L P)
  then show ?case using inv_snapshots[of m L P "s # active_snapshots m"] by auto
next
  case (close_snapshot m L P s)
  then show ?case using inv_snapshots[of m L P "remove1 s (active_snapshots m)"] set_remove1_subset[of s "active_snapshots m"] by auto
next
  case (count_openings m L P n)
  then have "mvcc_inv m L P" by simp
  then have "mvcc_inv (m\<lparr>openings := n\<rparr>) L P" by (rule inv_frame) simp_all
  then show ?case by simp
next
  case (retention m L P r)
  then have "mvcc_inv m L P" by simp
  then have "mvcc_inv (snd (set_retention r m)) L P" by (rule inv_frame) (simp_all add: set_retention_def)
  then show ?case by simp
next
  case (clock m L P t)
  then have "mvcc_inv m L P" by simp
  then have "mvcc_inv (m\<lparr>test_now_millis := t\<rparr>) L P" by (rule inv_frame) simp_all
  then show ?case by simp
next
  case (ts_lookup m L P t)
  then show ?case by (simp add: ts_lookup_keeps)
qed

definition mvcc_start :: "store \<Rightarrow> nat \<Rightarrow> 'e mvcc_state \<Rightarrow> bool" where
  "mvcc_start h seed s = (s = (mvcc_new h (gate_opened seed), hist_map h, {}) \<and> ti_ok h \<and> seed < U64_MAX
    \<and> (\<forall>p. hist_map h p \<noteq> None \<longrightarrow> 0 < snd p \<and> snd p \<le> seed))"

inductive mvcc_reach :: "'e mvcc_state \<Rightarrow> bool" where
  start: "mvcc_start h seed s \<Longrightarrow> mvcc_reach s"
| step: "mvcc_reach s \<Longrightarrow> mvcc_step s s' \<Longrightarrow> mvcc_reach s'"

lemma mvcc_start_inv:
  assumes "mvcc_start h seed (m, L, P)"
  shows "mvcc_inv m L P"
proof -
  have s: "m = mvcc_new h (gate_opened seed)" "L = hist_map h" "P = {}" "ti_ok h" "seed < U64_MAX"
    "\<And>p. hist_map h p \<noteq> None \<Longrightarrow> 0 < snd p \<and> snd p \<le> seed" using assms unfolding mvcc_start_def prod.inject by blast+
  have g: "visible_set m = {..seed}" "durable_set m = {..seed}" "version_counter (gate m) = seed" "dmark m = seed"
    by (auto simp: s(1) mvcc_new_def gate_opened_def gate_new_at_def install_abort_coverage_def with_watermark_def settled_def completed_def)
  have e: "history m = h" "ov_ok (voverlay m)" "ov_map (voverlay m) = Map.empty" "current_version m k = 0" "cells m k = None" for k
    by (simp_all add: s(1) mvcc_new_def current_version_def)
  have "gate_part m P"
    unfolding gate_part_def g(1,3) using track_inv_new[of seed] s(3,5) by (simp add: s(1) mvcc_new_def)
  moreover have "data_part m L P" unfolding data_part_def e(1,3) g s(2,3) using e(2) s(4,6) by simp
  moreover have "kept_part m L" by (rule kept_partI) (auto simp: e s(2) mv_map_def)
  moreover have "cell_part m L" unfolding cell_part_def e g s(2) using s(6) by fastforce
  ultimately show ?thesis by (simp add: mvcc_inv_def)
qed

lemma mvcc_reach_inv: "mvcc_reach (m, L, P) \<Longrightarrow> mvcc_inv m L P"
proof -
  have "mvcc_reach s \<Longrightarrow> case s of (m, L, P) \<Rightarrow> mvcc_inv m L P" for s :: "'a mvcc_state"
  proof (induction rule: mvcc_reach.induct)
    case (start h seed s)
    then show ?case using mvcc_start_inv by (cases s) auto
  next
    case (step s s')
    from mvcc_step_keeps[OF step.hyps(2) step.IH] show ?case .
  qed
  then show "mvcc_reach (m, L, P) \<Longrightarrow> mvcc_inv m L P" by force
qed

end
