(* ===== verification/Spec2Isabelle.thy ===== *)
theory Spec2Isabelle
  imports OverlayMerge MemRepo SortedScan ReaderGate CompletionProtocol SnapshotGate CommitLog VersionGuard SegmentRecovery MvccRun
begin

text \<open>
  \<^bold>\<open>ShamirDB\<close>: a verification development for the storage, index, transaction and
  write-ahead-log layers of the database under \<^verbatim>\<open>src/crates\<close>.

  \<^bold>\<open>How the parts interact.\<close>  A table keeps its records in a byte store and its sorted indexes as
  postings in the same kind of store.  A transaction buffers its writes in a staging store, records
  what it read, and at commit is validated against the log of recent commits.  The gate of the
  repository hands out commit versions, tracks which of them are settled, and computes the floor
  below which old versions may go.  A committed transaction is written to the segmented write-ahead log, published through
  the overlay of the versioned store, and drained from there into the version log.

  \<^bold>\<open>Shared vocabulary.\<close>
  \<^item> \<^verbatim>\<open>Prelude\<close>: machine integers, byte strings, fixed-width encodings and the lexicographic order.
  \<^item> \<^verbatim>\<open>OrderedMap\<close>: the ordered container (\<^verbatim>\<open>scc::TreeIndex\<close>, \<^verbatim>\<open>BTreeMap\<close>) as the ascending list of its entries.
  \<^item> \<^verbatim>\<open>HashMap\<close>: the hash and index maps as lists of entries with distinct keys.

  \<^bold>\<open>Storage\<close> (\<^verbatim>\<open>shamir-storage\<close>).
  \<^item> \<^verbatim>\<open>KvStore\<close>: the \<^verbatim>\<open>Store\<close> trait, its default methods and the in-memory backend with its batched
    streams.  The locale \<^verbatim>\<open>ordered_store\<close> is the contract the index layer relies on; it is interpreted on the
    in-memory store.  The lemmas equate every stream with the entries of its window.
  \<^item> \<^verbatim>\<open>OverlayMerge\<close>: \<^verbatim>\<open>merge_overlay_stream\<close>, proved to yield the pointwise override of the store by the buffered writes.
  \<^item> \<^verbatim>\<open>MemRepo\<close>: the in-memory repository, its atomic batch (the last write of a key wins) and \<^verbatim>\<open>copy_store\<close>.

  \<^bold>\<open>Indexes\<close> (\<^verbatim>\<open>shamir-types\<close>, \<^verbatim>\<open>shamir-index\<close>).
  \<^item> \<^verbatim>\<open>SortCodec\<close>: the order-preserving encoders of \<^verbatim>\<open>sort_codec.rs\<close> and the posting keys of
    \<^verbatim>\<open>sorted_index_layout.rs\<close>; the locale \<^verbatim>\<open>order_codec\<close> is interpreted on every encoder.
  \<^item> \<^verbatim>\<open>RecordValue\<close>: records as the index reads them (\<^verbatim>\<open>record_ref.rs\<close>).
  \<^item> \<^verbatim>\<open>SortedIndex\<close>: planners and apply methods (\<^verbatim>\<open>plan.rs\<close>, \<^verbatim>\<open>covering.rs\<close>); the postings always mirror the table.
  \<^item> \<^verbatim>\<open>SortedScan\<close>: the lookups (\<^verbatim>\<open>scan.rs\<close>); each returns exactly the rows of its window, in order, and
    keyset pages neither skip nor repeat a row.
  \<^item> \<^verbatim>\<open>ReaderGate\<close>: the gate between lookups and the drop of an index (\<^verbatim>\<open>reader_drain_gate.rs\<close>).

  \<^bold>\<open>Transactions\<close> (\<^verbatim>\<open>shamir-tx\<close>, \<^verbatim>\<open>shamir-engine/src/tx\<close>).
  \<^item> \<^verbatim>\<open>CompletionTracker\<close>, \<^verbatim>\<open>CompletionProtocol\<close>: the watermark of settled versions, for calls in sequence and
    interleaved with waiters one atomic access at a time: it is exact and no wakeup is lost.
  \<^item> \<^verbatim>\<open>SnapshotGate\<close>: registration of snapshots against the reclamation floor (\<^verbatim>\<open>repo_tx_gate.rs\<close>).
  \<^item> \<^verbatim>\<open>VersionGuard\<close>: who owes the settlement of an allocated version (\<^verbatim>\<open>version_guard.rs\<close>, the registries of the gate).
  \<^item> \<^verbatim>\<open>StagingStore\<close>, \<^verbatim>\<open>Predicates\<close>, \<^verbatim>\<open>TxContext\<close>: the write buffer with its field index, the predicate read set and the
    state of an open transaction.
  \<^item> \<^verbatim>\<open>CommitLog\<close>: commit footprints, the commit-write log and serializable validation; a phantom in a scanned range is detected.

  \<^bold>\<open>Write-ahead log\<close> (\<^verbatim>\<open>shamir-wal\<close>).
  \<^item> \<^verbatim>\<open>WalFrame\<close>: entries, the frame reader and one segment file (append, replay, repair of a torn tail).
  \<^item> \<^verbatim>\<open>SegmentSet\<close>: the directory of segments (\<^verbatim>\<open>segment_set.rs\<close>): opening, append with rotation, sync, truncation, snapshot.
  \<^item> \<^verbatim>\<open>SegmentLog\<close>: the invariant relating the files to lists of payloads, kept by every operation.
  \<^item> \<^verbatim>\<open>SegmentRecovery\<close>: power loss and reopening, and what survives.

  \<^bold>\<open>Versioned store\<close> (\<^verbatim>\<open>shamir-tx/src/mvcc_store\<close>, \<^verbatim>\<open>shamir-tx/src/version\<close>).
  \<^item> \<^verbatim>\<open>VersionKeys\<close>: the physical keys of versions and of commit times; round trips and order.
  \<^item> \<^verbatim>\<open>VersionedOverlay\<close>: the overlay of committed but undrained values, refined to one map.
  \<^item> \<^verbatim>\<open>MvccStore\<close>: state, record cells and reservations, time index, point and batched reads.
  \<^item> \<^verbatim>\<open>MvccWrite\<close>: direct writes and their compensation, publication, drain, vacuum, collection and purge.

  \<^bold>\<open>State and effects.\<close>  A struct is a record and a method a function on it; a fallible method returns
  \<^verbatim>\<open>db_error + _\<close>.  Outcomes of system calls and of log writes are arguments, so a theorem holds for every
  pattern of failures.  Third-party code (bincode, crc32, MessagePack) is a parameter.  The concurrent
  protocols (\<^verbatim>\<open>ReaderGate\<close>, \<^verbatim>\<open>CompletionProtocol\<close>, \<^verbatim>\<open>SnapshotGate\<close>) interleave single atomic accesses, which the code
  makes \<^verbatim>\<open>SeqCst\<close>; elsewhere an operation is one step.

  \<^bold>\<open>Idealisations.\<close>  Versions are natural numbers; where they are encoded they are bounded by the largest
  \<^verbatim>\<open>u64\<close>.  After a power loss a file keeps at least its synced bytes and otherwise any beginning of itself.  One
  appender and one truncator of the log run at a time.  Reads of files and of the in-memory version log do
  not fail.

  \<^bold>\<open>Loops.\<close>  Every loop is a structurally recursive function or a function with a termination proof; no fuel is used.

  \<^bold>\<open>Not modelled.\<close>  Of the versioned store: the streaming reads and the history listings, the pessimistic key
  locks and the receipt-native application.  Of the log: the group commit leader.  Of the indexes: full-text, vector and hash
  indexes, registration and drop of definitions.  The disk backends call a third-party engine; the write buffer
  runtime is driven by timers; the query engine, the server, transports, clients, the WASM host and
  validators orchestrate or perform input and output around these parts.  Metrics and telemetry are left out throughout.
\<close>

end
